(* ===== verification/Cron.thy ===== *)
theory Cron
  imports JsPrelude
begin

text \<open>
  The cron engine of the scheduler, \<open>framework/schedule/src/cron-matcher.ts\<close>: the parser of
  five-field expressions with its memo, the matcher, and the search for the next run.  An
  instant is an \<open>int\<close> of epoch milliseconds.  The tz database is a parameter: \<open>off t\<close> is the
  offset from UTC, in milliseconds, of the zone in force at instant \<open>t\<close>; the wall clock of the
  zone is UTC shifted by it, which is what \<open>Date\<close>'s local getters and \<open>Intl.DateTimeFormat\<close>
  report.
\<close>

section \<open>Fields and errors\<close>

record FieldSpec =
  label :: string
  fmin :: nat
  fmax :: nat
  names :: "(string \<times> nat) list"
  allowsAny :: bool

datatype cron_reason =
    ManySteps string
  | InvalidStep string
  | AnyNotAllowed
  | NotAValue string
  | OutOfRange string nat nat
  | InvertedRange string
  | EmptyComponent string

datatype cron_error =
    FieldError string string cron_reason
  | FieldCount string nat
  | RebootAlias string
  | UnknownAlias string

definition MONTH_NAMES :: "(string \<times> nat) list" where
  "MONTH_NAMES = [(''JAN'', 1), (''FEB'', 2), (''MAR'', 3), (''APR'', 4), (''MAY'', 5),
     (''JUN'', 6), (''JUL'', 7), (''AUG'', 8), (''SEP'', 9), (''OCT'', 10), (''NOV'', 11),
     (''DEC'', 12)]"

definition WEEKDAY_NAMES :: "(string \<times> nat) list" where
  "WEEKDAY_NAMES = [(''SUN'', 0), (''MON'', 1), (''TUE'', 2), (''WED'', 3), (''THU'', 4),
     (''FRI'', 5), (''SAT'', 6)]"

definition MINUTE :: FieldSpec where
  "MINUTE = \<lparr>label = ''minute'', fmin = 0, fmax = 59, names = [], allowsAny = False\<rparr>"

definition HOUR :: FieldSpec where
  "HOUR = \<lparr>label = ''hour'', fmin = 0, fmax = 23, names = [], allowsAny = False\<rparr>"

definition DAY_OF_MONTH :: FieldSpec where
  "DAY_OF_MONTH =
     \<lparr>label = ''day-of-month'', fmin = 1, fmax = 31, names = [], allowsAny = True\<rparr>"

definition MONTH :: FieldSpec where
  "MONTH = \<lparr>label = ''month'', fmin = 1, fmax = 12, names = MONTH_NAMES, allowsAny = False\<rparr>"

definition DAY_OF_WEEK :: FieldSpec where
  "DAY_OF_WEEK =
     \<lparr>label = ''day-of-week'', fmin = 0, fmax = 7, names = WEEKDAY_NAMES, allowsAny = True\<rparr>"

definition ALIASES :: "(string \<times> string) list" where
  "ALIASES = [(''@yearly'', ''0 0 1 1 *''), (''@annually'', ''0 0 1 1 *''),
     (''@monthly'', ''0 0 1 * *''), (''@weekly'', ''0 0 * * 0''), (''@daily'', ''0 0 * * *''),
     (''@midnight'', ''0 0 * * *''), (''@hourly'', ''0 * * * *'')]"

lemmas field_specs = MINUTE_def HOUR_def DAY_OF_MONTH_def MONTH_def DAY_OF_WEEK_def

section \<open>Expanding one component\<close>

definition resolveValue :: "string \<Rightarrow> FieldSpec \<Rightarrow> nat option" where
  "resolveValue text spec =
     (case map_of (names spec) (toUpperCase text) of
        Some named \<Rightarrow> Some named
      | None \<Rightarrow> if all_digits text then Some (number_of_digits text) else None)"

text \<open>
  The loop \<open>for (value = lo; value <= hi; value += step) into.add(value)\<close>.  Every caller
  passes a positive step; a zero step, which the loop would never leave, stops here.
\<close>

function add_range :: "nat \<Rightarrow> nat \<Rightarrow> nat \<Rightarrow> nat list \<Rightarrow> nat list" where
  "add_range v hi step into =
     (if v \<le> hi \<and> 0 < step then add_range (v + step) hi step (set_add v into) else into)"
  by pat_completeness auto
termination
  by (relation "measure (\<lambda>(v, hi, step, into). Suc hi - v)") auto

declare add_range.simps [simp del]

definition parseStep :: "string \<Rightarrow> string \<Rightarrow> string option \<Rightarrow> cron_reason + nat" where
  "parseStep component bodyText stepText =
     (case stepText of
        None \<Rightarrow> Inr 1
      | Some t \<Rightarrow>
          if \<not> all_digits t \<or> number_of_digits t = 0 then Inl (InvalidStep component)
          else Inr (number_of_digits t))"

definition expandRange ::
  "string \<Rightarrow> nat \<Rightarrow> FieldSpec \<Rightarrow> nat \<Rightarrow> nat list \<Rightarrow> cron_reason + nat list" where
  "expandRange body dash spec step into =
     (let lowText = take dash body; highText = drop (dash + 1) body in
      case resolveValue lowText spec of
        None \<Rightarrow> Inl (NotAValue lowText)
      | Some low \<Rightarrow>
        (case resolveValue highText spec of
           None \<Rightarrow> Inl (NotAValue highText)
         | Some high \<Rightarrow>
             if low < fmin spec \<or> low > fmax spec \<or> high < fmin spec \<or> high > fmax spec
             then Inl (OutOfRange body (fmin spec) (fmax spec))
             else if high < low then Inl (InvertedRange body)
             else Inr (add_range low high step into)))"

definition expandSingle ::
  "string \<Rightarrow> bool \<Rightarrow> FieldSpec \<Rightarrow> nat \<Rightarrow> nat list \<Rightarrow> cron_reason + nat list" where
  "expandSingle body hasStep spec step into =
     (case resolveValue body spec of
        None \<Rightarrow> Inl (NotAValue body)
      | Some single \<Rightarrow>
          if single < fmin spec \<or> single > fmax spec
          then Inl (OutOfRange body (fmin spec) (fmax spec))
          else if hasStep then Inr (add_range single (fmax spec) step into)
          else Inr (set_add single into))"

definition expandBody ::
  "string \<Rightarrow> bool \<Rightarrow> FieldSpec \<Rightarrow> nat \<Rightarrow> nat list \<Rightarrow> cron_reason + nat list" where
  "expandBody body hasStep spec step into =
     (if body = ''*'' \<or> (body = ''?'' \<and> allowsAny spec)
      then Inr (add_range (fmin spec) (fmax spec) step into)
      else if body = ''?'' then Inl AnyNotAllowed
      else case index_of (CHR ''-'') body of
             Some dash \<Rightarrow> if 0 < dash then expandRange body dash spec step into
                         else expandSingle body hasStep spec step into
           | None \<Rightarrow> expandSingle body hasStep spec step into)"

definition expandComponent ::
  "string \<Rightarrow> FieldSpec \<Rightarrow> nat list \<Rightarrow> cron_reason + nat list" where
  "expandComponent component spec into =
     (case split_on (CHR ''/'') component of
        [] \<Rightarrow> Inr into
      | [bodyText] \<Rightarrow>
          bindE (parseStep component bodyText None) (\<lambda>step. expandBody bodyText False spec step into)
      | [bodyText, stepText] \<Rightarrow>
          bindE (parseStep component bodyText (Some stepText))
            (\<lambda>step. expandBody bodyText True spec step into)
      | _ \<Rightarrow> Inl (ManySteps component))"

section \<open>Compiling a field\<close>

record CompiledField =
  cvalues :: "nat list"
  restricted :: bool

record CompiledDayOfMonth = CompiledField +
  last_day :: bool

definition isUnrestricted :: "string \<Rightarrow> FieldSpec \<Rightarrow> bool" where
  "isUnrestricted field spec = (field = ''*'' \<or> (allowsAny spec \<and> field = ''?''))"

fun expandComponents ::
  "string \<Rightarrow> FieldSpec \<Rightarrow> string list \<Rightarrow> nat list \<Rightarrow> cron_reason + nat list" where
  "expandComponents field spec [] into = Inr into"
| "expandComponents field spec (c # cs) into =
     (if c = [] then Inl (EmptyComponent field)
      else bindE (expandComponent c spec into) (expandComponents field spec cs))"

definition compileField :: "string \<Rightarrow> FieldSpec \<Rightarrow> string \<Rightarrow> cron_error + CompiledField" where
  "compileField field spec expression =
     (case expandComponents field spec (split_on (CHR '','') field) [] of
        Inl r \<Rightarrow> Inl (FieldError expression (label spec) r)
      | Inr vs \<Rightarrow> Inr \<lparr>cvalues = vs, restricted = \<not> isUnrestricted field spec\<rparr>)"

fun expandDomComponents ::
  "string \<Rightarrow> string list \<Rightarrow> nat list \<Rightarrow> bool \<Rightarrow> cron_reason + (nat list \<times> bool)" where
  "expandDomComponents field [] into l = Inr (into, l)"
| "expandDomComponents field (c # cs) into l =
     (if toUpperCase c = ''L'' then expandDomComponents field cs into True
      else if c = [] then Inl (EmptyComponent field)
      else bindE (expandComponent c DAY_OF_MONTH into)
             (\<lambda>into'. expandDomComponents field cs into' l))"

definition compileDayOfMonth :: "string \<Rightarrow> string \<Rightarrow> cron_error + CompiledDayOfMonth" where
  "compileDayOfMonth field expression =
     (case expandDomComponents field (split_on (CHR '','') field) [] False of
        Inl r \<Rightarrow> Inl (FieldError expression ''day-of-month'' r)
      | Inr (vs, l) \<Rightarrow>
          Inr \<lparr>cvalues = vs, restricted = \<not> isUnrestricted field DAY_OF_MONTH, last_day = l\<rparr>)"

section \<open>Parsing an expression\<close>

record CompiledCron =
  expression :: string
  cron_fields :: "string list"
  minute :: CompiledField
  hour :: CompiledField
  dayOfMonth :: CompiledDayOfMonth
  month :: CompiledField
  dayOfWeek :: CompiledField

definition expandAlias :: "string \<Rightarrow> string \<Rightarrow> cron_error + string" where
  "expandAlias original trimmed =
     (case map_of ALIASES (toLowerCase trimmed) of
        Some alias \<Rightarrow> Inr alias
      | None \<Rightarrow> if toLowerCase trimmed = ''@reboot'' then Inl (RebootAlias original)
                else Inl (UnknownAlias original))"

text \<open>The loop that maps weekday 7 to 0 while copying the set.\<close>

definition normaliseSunday :: "nat list \<Rightarrow> nat list" where
  "normaliseSunday vs = foldl (\<lambda>acc v. set_add (if v = 7 then 0 else v) acc) [] vs"

definition compileFields ::
  "string \<Rightarrow> string list \<Rightarrow> string \<times> string \<times> string \<times> string \<times> string
   \<Rightarrow> cron_error + CompiledCron" where
  "compileFields expr fs = (\<lambda>(minuteField, hourField, domField, monthField, dowField).
     bindE (compileField dowField DAY_OF_WEEK expr) (\<lambda>dow.
     bindE (compileField minuteField MINUTE expr) (\<lambda>mi.
     bindE (compileField hourField HOUR expr) (\<lambda>h.
     bindE (compileDayOfMonth domField expr) (\<lambda>d.
     bindE (compileField monthField MONTH expr) (\<lambda>mo.
       Inr \<lparr>expression = join_with '' '' fs, cron_fields = fs, minute = mi, hour = h,
            dayOfMonth = d, month = mo,
            dayOfWeek = \<lparr>cvalues = normaliseSunday (cvalues dow),
                         restricted = restricted dow\<rparr>\<rparr>))))))"

definition compileExpression :: "string \<Rightarrow> cron_error + CompiledCron" where
  "compileExpression expr =
     (let trimmed = trim expr in
      bindE (if starts_with trimmed ''@'' then expandAlias expr trimmed else Inr trimmed)
        (\<lambda>expanded.
           let fs = split_ws expanded in
           case fs of
             [mi, h, d, mo, w] \<Rightarrow> compileFields expr fs (mi, h, d, mo, w)
           | _ \<Rightarrow> Inl (FieldCount expr (length fs))))"

text \<open>
  The module's memo, a \<open>Map\<close> from source text to compiled form that is cleared when it has
  reached its limit.
\<close>

type_synonym cron_memo = "(string \<times> CompiledCron) list"

definition COMPILE_CACHE_LIMIT :: nat where
  "COMPILE_CACHE_LIMIT = 500"

definition parseCronExpression ::
  "string \<Rightarrow> cron_memo \<Rightarrow> (cron_error + CompiledCron) \<times> cron_memo" where
  "parseCronExpression expr compiled =
     (case map_of compiled expr of
        Some cached \<Rightarrow> (Inr cached, compiled)
      | None \<Rightarrow>
        (case compileExpression expr of
           Inl e \<Rightarrow> (Inl e, compiled)
         | Inr result \<Rightarrow>
             let kept = (if length compiled \<ge> COMPILE_CACHE_LIMIT then [] else compiled)
             in (Inr result, map_put expr result kept)))"

definition validateCronExpression ::
  "string \<Rightarrow> cron_memo \<Rightarrow> (cron_error + unit) \<times> cron_memo" where
  "validateCronExpression expr compiled =
     (let (r, m) = parseCronExpression expr compiled in
      (case r of Inl e \<Rightarrow> Inl e | Inr _ \<Rightarrow> Inr (), m))"


section \<open>The wall clock of a zone\<close>

record DateParts =
  p_minute :: nat
  p_hour :: nat
  p_dayOfMonth :: nat
  p_month :: nat
  p_dayOfWeek :: nat
  p_lastDayOfMonth :: nat

definition MINUTE_MS :: int where
  "MINUTE_MS = 60000"

definition DAY_MS :: int where
  "DAY_MS = 86400000"

definition leap_year :: "int \<Rightarrow> bool" where
  "leap_year y = (y mod 4 = 0 \<and> (y mod 100 \<noteq> 0 \<or> y mod 400 = 0))"

text \<open>
  \<open>new Date(year, month, 0).getDate()\<close>; the \<open>Date\<close> constructor reads a year from 0 to 99 as
  1900 to 1999.
\<close>

definition daysInMonth :: "int \<Rightarrow> nat \<Rightarrow> nat" where
  "daysInMonth year m =
     (let y = (if 0 \<le> year \<and> year \<le> 99 then 1900 + year else year) in
      if m = 2 then (if leap_year y then 29 else 28)
      else if m \<in> {4, 6, 9, 11} then 30 else 31)"

text \<open>Year, month and day of a day number (days since 1970-01-01), proleptic Gregorian.\<close>

definition civil_of_day :: "int \<Rightarrow> int \<times> nat \<times> nat" where
  "civil_of_day z0 =
     (let z = z0 + 719468;
          era = z div 146097;
          doe = z mod 146097;
          yoe = (doe - doe div 1460 + doe div 36524 - doe div 146096) div 365;
          doy = doe - (365 * yoe + yoe div 4 - yoe div 100);
          mp = (5 * doy + 2) div 153;
          d = doy - (153 * mp + 2) div 5 + 1;
          m = (if mp < 10 then mp + 3 else mp - 9);
          y = yoe + era * 400 + (if m \<le> 2 then 1 else 0)
      in (y, nat m, nat d))"

definition local_day :: "(int \<Rightarrow> int) \<Rightarrow> int \<Rightarrow> int" where
  "local_day off t = (t + off t) div DAY_MS"

definition local_minute :: "(int \<Rightarrow> int) \<Rightarrow> int \<Rightarrow> int" where
  "local_minute off t = (t + off t) mod DAY_MS div MINUTE_MS"

definition extractParts :: "(int \<Rightarrow> int) \<Rightarrow> int \<Rightarrow> DateParts" where
  "extractParts off t =
     (let (year, mo, d) = civil_of_day (local_day off t) in
      \<lparr>p_minute = nat (local_minute off t mod 60),
       p_hour = nat (local_minute off t div 60),
       p_dayOfMonth = d,
       p_month = mo,
       p_dayOfWeek = nat ((local_day off t + 4) mod 7),
       p_lastDayOfMonth = daysInMonth year mo\<rparr>)"

section \<open>Matching\<close>

definition dayMatches :: "CompiledCron \<Rightarrow> DateParts \<Rightarrow> bool" where
  "dayMatches cron parts =
     (if p_month parts \<notin> set (cvalues (month cron)) then False
      else let domMatches = (p_dayOfMonth parts \<in> set (cvalues (dayOfMonth cron)) \<or>
                             (last_day (dayOfMonth cron) \<and>
                              p_dayOfMonth parts = p_lastDayOfMonth parts));
               dowMatches = (p_dayOfWeek parts \<in> set (cvalues (dayOfWeek cron)))
           in if restricted (dayOfMonth cron) \<and> restricted (dayOfWeek cron)
              then domMatches \<or> dowMatches
              else domMatches \<and> dowMatches)"

definition isCompiledCronDue :: "CompiledCron \<Rightarrow> int \<Rightarrow> (int \<Rightarrow> int) \<Rightarrow> bool" where
  "isCompiledCronDue cron t off =
     (let parts = extractParts off t in
      if p_minute parts \<notin> set (cvalues (minute cron)) then False
      else if p_hour parts \<notin> set (cvalues (hour cron)) then False
      else dayMatches cron parts)"

definition isCronDue ::
  "string \<Rightarrow> int \<Rightarrow> (int \<Rightarrow> int) \<Rightarrow> cron_memo \<Rightarrow> (cron_error + bool) \<times> cron_memo" where
  "isCronDue expr t off compiled =
     (let (r, m) = parseCronExpression expr compiled in
      (case r of Inl e \<Rightarrow> Inl e | Inr cron \<Rightarrow> Inr (isCompiledCronDue cron t off), m))"

section \<open>The next run\<close>

lemma local_minute_bounds: "0 \<le> local_minute off t" "local_minute off t < 1440"
proof -
  have "0 \<le> (t + off t) mod DAY_MS" "(t + off t) mod DAY_MS < DAY_MS"
    by (simp_all add: DAY_MS_def)
  then show "0 \<le> local_minute off t" "local_minute off t < 1440"
    by (simp_all add: local_minute_def MINUTE_MS_def DAY_MS_def)
qed

lemma parts_minute: "int (p_minute (extractParts off t)) = local_minute off t mod 60"
  by (simp add: extractParts_def split_def Let_def)

lemma parts_hour: "int (p_hour (extractParts off t)) = local_minute off t div 60"
  using local_minute_bounds [of off t] by (simp add: extractParts_def split_def Let_def)

lemma parts_minute_less: "p_minute (extractParts off t) < 60"
  by (simp add: extractParts_def split_def Let_def nat_less_iff)

function nextScan :: "CompiledCron \<Rightarrow> (int \<Rightarrow> int) \<Rightarrow> int \<Rightarrow> int \<Rightarrow> int option" where
  "nextScan cron off cursor deadline =
     (if cursor > deadline then None
      else let parts = extractParts off cursor in
        if \<not> dayMatches cron parts then
          (let minutesLeftInDay = 24 * 60 - (int (p_hour parts) * 60 + int (p_minute parts))
           in nextScan cron off (cursor + max 1 (minutesLeftInDay - 60) * MINUTE_MS) deadline)
        else if p_hour parts \<notin> set (cvalues (hour cron)) then
          nextScan cron off (cursor + (60 - int (p_minute parts)) * MINUTE_MS) deadline
        else if p_minute parts \<in> set (cvalues (minute cron)) then Some cursor
        else nextScan cron off (cursor + MINUTE_MS) deadline)"
  by pat_completeness auto
termination
proof (relation "measure (\<lambda>(cron, off, cursor, deadline). nat (deadline + 1 - cursor))",
    simp, goal_cases)
  case (1 cron off cursor deadline parts)
  then show ?case by (simp add: MINUTE_MS_def)
next
  case (2 cron off cursor deadline parts)
  then have "int (p_minute parts) < 60"
    using parts_minute_less [of off cursor] by simp
  with 2 show ?case by (simp add: MINUTE_MS_def)
next
  case (3 cron off cursor deadline parts)
  then show ?case by (simp add: MINUTE_MS_def)
qed

declare nextScan.simps [simp del]

definition scan_start :: "int \<Rightarrow> int" where
  "scan_start from = from div MINUTE_MS * MINUTE_MS + MINUTE_MS"

definition nextCronRun ::
  "CompiledCron \<Rightarrow> int \<Rightarrow> (int \<Rightarrow> int) \<Rightarrow> int \<Rightarrow> int option" where
  "nextCronRun cron from off withinDays =
     (let cursor = scan_start from;
          deadline = cursor + withinDays * 24 * 60 * MINUTE_MS
      in nextScan cron off cursor deadline)"


section \<open>Correctness of the search\<close>

text \<open>
  What the search relies on of the tz database: an offset change falls on a whole local hour,
  and over the next 24 hours the offset grows by at most one hour (the slack the code leaves)
  and the calendar day never runs backwards.
\<close>

definition regular_zone :: "(int \<Rightarrow> int) \<Rightarrow> bool" where
  "regular_zone off \<longleftrightarrow>
     (\<forall>t k. 0 \<le> k \<and> k < 60 - local_minute off t mod 60 \<longrightarrow>
            off (t + k * MINUTE_MS) = off t) \<and>
     (\<forall>t k. 0 \<le> k \<and> k < 1440 \<longrightarrow>
            off (t + k * MINUTE_MS) - off t \<le> 60 * MINUTE_MS \<and>
            local_day off t \<le> local_day off (t + k * MINUTE_MS))"

definition minute_aligned :: "int \<Rightarrow> bool" where
  "minute_aligned t \<longleftrightarrow> t mod MINUTE_MS = 0"

text \<open>The last instant the search may return.\<close>

definition scan_deadline :: "int \<Rightarrow> int \<Rightarrow> int" where
  "scan_deadline from withinDays = scan_start from + withinDays * 24 * 60 * MINUTE_MS"

text \<open>\<open>r\<close> is the first of \<open>cursor, cursor + 1min, \<dots>\<close> up to the deadline to satisfy \<open>due\<close>.\<close>

definition first_due :: "(int \<Rightarrow> bool) \<Rightarrow> int \<Rightarrow> int \<Rightarrow> int option \<Rightarrow> bool" where
  "first_due due cursor deadline r =
     (case r of
        None \<Rightarrow> \<forall>k::nat. cursor + int k * MINUTE_MS \<le> deadline \<longrightarrow> \<not> due (cursor + int k * MINUTE_MS)
      | Some d \<Rightarrow> \<exists>k::nat. d = cursor + int k * MINUTE_MS \<and> d \<le> deadline \<and> due d \<and>
                    (\<forall>j<k. \<not> due (cursor + int j * MINUTE_MS)))"

lemma first_due_beyond: "deadline < cursor \<Longrightarrow> first_due due cursor deadline None"
  by (auto simp: first_due_def MINUTE_MS_def)

lemma first_due_here: "cursor \<le> deadline \<Longrightarrow> due cursor \<Longrightarrow> first_due due cursor deadline (Some cursor)"
  unfolding first_due_def option.case by (rule exI [of _ 0]) simp

lemma steps_split:
  "n \<le> k \<Longrightarrow> c + int k * MINUTE_MS = c + int n * MINUTE_MS + int (k - n) * MINUTE_MS"
  by (simp add: of_nat_diff left_diff_distrib)

lemma first_due_skip:
  assumes skip: "\<And>j. j < n \<Longrightarrow> \<not> due (cursor + int j * MINUTE_MS)"
    and rest: "first_due due (cursor + int n * MINUTE_MS) deadline r"
  shows "first_due due cursor deadline r"
proof (cases r)
  case None
  have "\<not> due (cursor + int k * MINUTE_MS)" if "cursor + int k * MINUTE_MS \<le> deadline" for k
  proof (cases "k < n")
    case False
    then have eq: "cursor + int k * MINUTE_MS = cursor + int n * MINUTE_MS + int (k - n) * MINUTE_MS"
      by (intro steps_split) simp
    have "\<And>i. cursor + int n * MINUTE_MS + int i * MINUTE_MS \<le> deadline \<Longrightarrow>
        \<not> due (cursor + int n * MINUTE_MS + int i * MINUTE_MS)"
      using rest None by (simp add: first_due_def)
    with that show ?thesis unfolding eq by blast
  qed (rule skip)
  with None show ?thesis by (simp add: first_due_def)
next
  case (Some d)
  with rest obtain k where k: "d = cursor + int n * MINUTE_MS + int k * MINUTE_MS" "d \<le> deadline"
    "due d" "\<And>j. j < k \<Longrightarrow> \<not> due (cursor + int n * MINUTE_MS + int j * MINUTE_MS)"
    by (auto simp: first_due_def)
  have "\<not> due (cursor + int j * MINUTE_MS)" if "j < n + k" for j
  proof (cases "j < n")
    case False
    then have eq: "cursor + int j * MINUTE_MS = cursor + int n * MINUTE_MS + int (j - n) * MINUTE_MS"
      by (intro steps_split) simp
    show ?thesis unfolding eq using False that by (intro k(4)) simp
  qed (rule skip)
  moreover have "d = cursor + int (n + k) * MINUTE_MS"
    using k(1) steps_split [of n "n + k" cursor] by simp
  ultimately show ?thesis
    using k(2,3) Some unfolding first_due_def by (auto intro!: exI [of _ "n + k"])
qed

text \<open>Day fields depend on the local day alone.\<close>

lemma dayMatches_local_day:
  "local_day off t = local_day off' t' \<Longrightarrow>
   dayMatches cron (extractParts off t) = dayMatches cron (extractParts off' t')"
  by (simp add: dayMatches_def extractParts_def split_def Let_def)

lemma regular_zoneD1:
  "regular_zone off \<Longrightarrow> 0 \<le> k \<Longrightarrow> k < 60 - local_minute off t mod 60 \<Longrightarrow>
   off (t + k * MINUTE_MS) = off t"
  by (simp add: regular_zone_def)

lemma regular_zoneD2:
  "regular_zone off \<Longrightarrow> 0 \<le> k \<Longrightarrow> k < 1440 \<Longrightarrow>
   off (t + k * MINUTE_MS) - off t \<le> 60 * MINUTE_MS \<and>
   local_day off t \<le> local_day off (t + k * MINUTE_MS)"
  by (simp add: regular_zone_def)

lemma same_local_day:
  assumes "regular_zone off" and "0 \<le> k" and "k < 1440 - local_minute off t - 60"
  shows "local_day off (t + k * MINUTE_MS) = local_day off t"
proof -
  let ?L = "t + off t" and ?L' = "t + k * MINUTE_MS + off (t + k * MINUTE_MS)"
  have k: "k < 1440" using assms(3) local_minute_bounds [of off t] by simp
  then have grow: "?L' \<le> ?L + (k + 60) * MINUTE_MS" and mono: "?L div DAY_MS \<le> ?L' div DAY_MS"
    using regular_zoneD2 [OF assms(1,2), of t] by (auto simp: local_day_def distrib_right)
  have "?L mod DAY_MS div MINUTE_MS + k + 60 < 1440"
    using assms(3) by (simp add: local_minute_def)
  then have "?L mod DAY_MS + (k + 60) * MINUTE_MS < DAY_MS"
    by (simp add: DAY_MS_def MINUTE_MS_def)
  moreover have "?L = ?L div DAY_MS * DAY_MS + ?L mod DAY_MS" by simp
  ultimately have "?L + (k + 60) * MINUTE_MS < (?L div DAY_MS + 1) * DAY_MS"
    unfolding distrib_right by linarith
  with grow have "?L' < (?L div DAY_MS + 1) * DAY_MS" by simp
  then have "?L' div DAY_MS < ?L div DAY_MS + 1"
    by (simp add: DAY_MS_def)
  with mono show ?thesis by (simp add: local_day_def)
qed

lemma local_minute_add:
  assumes "off t' = off t" and "t' = t + k * MINUTE_MS" and "0 \<le> k"
    and "local_minute off t + k < 1440"
  shows "local_minute off t' = local_minute off t + k"
proof -
  let ?q = "(t + off t) mod DAY_MS"
  have "?q div MINUTE_MS + k < 1440" using assms(4) by (simp add: local_minute_def)
  then have small: "?q + k * MINUTE_MS < DAY_MS" by (simp add: DAY_MS_def MINUTE_MS_def)
  have "0 \<le> ?q" by (simp add: DAY_MS_def)
  then have "(?q + k * MINUTE_MS) mod DAY_MS = ?q + k * MINUTE_MS"
    using small assms(3) by (simp add: MINUTE_MS_def)
  then have "(t + off t + k * MINUTE_MS) mod DAY_MS = ?q + k * MINUTE_MS"
    by (metis mod_add_left_eq)
  then have "local_minute off t' = (?q + k * MINUTE_MS) div MINUTE_MS"
    using assms(1,2) by (simp add: local_minute_def algebra_simps)
  then show ?thesis by (simp add: local_minute_def MINUTE_MS_def)
qed

lemma within_hour:
  fixes m k :: int
  assumes "m < 1440" and "0 \<le> k" and "k < 60 - m mod 60"
  shows "m + k < 1440" and "(m + k) div 60 = m div 60"
proof -
  have m: "m = 60 * (m div 60) + m mod 60" by simp
  have "m div 60 < 24" using assms(1) zdiv_mono1 [of m 1439 60] by simp
  with m assms(3) show "m + k < 1440" by linarith
  have "0 \<le> m mod 60 + k" "m mod 60 + k < 60" using assms(2,3) by simp_all
  then have "(m mod 60 + k) div 60 = 0" by simp
  with m show "(m + k) div 60 = m div 60"
    by (metis add.assoc add.right_neutral div_mult_self4 zero_neq_numeral)
qed

lemma same_local_hour:
  assumes "regular_zone off" and "0 \<le> k" and "k < 60 - local_minute off t mod 60"
  shows "p_hour (extractParts off (t + k * MINUTE_MS)) = p_hour (extractParts off t)"
proof -
  have m: "local_minute off t + k < 1440"
    using within_hour(1) [OF local_minute_bounds(2) assms(2,3)] .
  have "local_minute off (t + k * MINUTE_MS) = local_minute off t + k"
    using regular_zoneD1 [OF assms] assms(2) m by (intro local_minute_add) simp_all
  moreover have "(local_minute off t + k) div 60 = local_minute off t div 60"
    using within_hour(2) [OF local_minute_bounds(2) assms(2,3)] .
  ultimately have "int (p_hour (extractParts off (t + k * MINUTE_MS))) = int (p_hour (extractParts off t))"
    unfolding parts_hour by simp
  then show ?thesis by simp
qed


lemma nextScan_first_due:
  assumes "regular_zone off"
  shows "first_due (\<lambda>t. isCompiledCronDue cron t off) cursor deadline
           (nextScan cron off cursor deadline)"
  using assms
proof (induction cron off cursor deadline rule: nextScan.induct)
  case (1 cron off cursor deadline)
  note zone = "1.prems"
  let ?parts = "extractParts off cursor" and ?due = "\<lambda>t. isCompiledCronDue cron t off"
  let ?m = "int (p_minute ?parts)" and ?h = "int (p_hour ?parts)"
  have now: "local_minute off cursor = ?h * 60 + ?m"
    by (simp add: parts_minute parts_hour)
  have m: "?m < 60" using parts_minute_less [of off cursor] by simp
  have one: "\<not> ?due cursor \<Longrightarrow> first_due ?due (cursor + MINUTE_MS) deadline r \<Longrightarrow>
      first_due ?due cursor deadline r" for r
    using first_due_skip [of 1 ?due cursor deadline r] by simp
  show ?case
  proof (cases "cursor > deadline")
    case True
    then show ?thesis by (simp add: nextScan.simps first_due_beyond)
  next
    case soon: False
    show ?thesis
    proof (cases "dayMatches cron ?parts")
      case False
      define n where "n = nat (max 1 (24 * 60 - (?h * 60 + ?m) - 60))"
      have n: "int n = max 1 (24 * 60 - (?h * 60 + ?m) - 60)" by (simp add: n_def)
      have "\<not> ?due (cursor + int j * MINUTE_MS)" if "j < n" for j
      proof (cases "j = 0")
        case True
        with False show ?thesis by (simp add: isCompiledCronDue_def Let_def)
      next
        case pos: False
        with that have "local_day off (cursor + int j * MINUTE_MS) = local_day off cursor"
          using zone by (intro same_local_day) (auto simp: n_def now)
        then have "dayMatches cron (extractParts off (cursor + int j * MINUTE_MS)) =
            dayMatches cron ?parts"
          by (rule dayMatches_local_day)
        with False show ?thesis by (simp add: isCompiledCronDue_def Let_def)
      qed
      moreover have "first_due ?due (cursor + int n * MINUTE_MS) deadline
          (nextScan cron off (cursor + int n * MINUTE_MS) deadline)"
        unfolding n by (rule "1.IH"(1) [OF soon refl False refl zone])
      ultimately have "first_due ?due cursor deadline
          (nextScan cron off (cursor + int n * MINUTE_MS) deadline)"
        by (rule first_due_skip)
      with soon False show ?thesis
        by (subst nextScan.simps) (simp add: Let_def n)
    next
      case day: True
      show ?thesis
      proof (cases "p_hour ?parts \<in> set (cvalues (hour cron))")
        case False
        define n where "n = nat (60 - ?m)"
        have n: "int n = 60 - ?m" using m by (simp add: n_def)
        have "\<not> ?due (cursor + int j * MINUTE_MS)" if "j < n" for j
        proof -
          have "p_hour (extractParts off (cursor + int j * MINUTE_MS)) = p_hour ?parts"
            using zone that by (intro same_local_hour) (auto simp: n_def parts_minute)
          with False show ?thesis by (simp add: isCompiledCronDue_def Let_def)
        qed
        moreover have "first_due ?due (cursor + int n * MINUTE_MS) deadline
            (nextScan cron off (cursor + int n * MINUTE_MS) deadline)"
          unfolding n by (rule "1.IH"(2) [OF soon refl _ False zone]) (simp add: day)
        ultimately have "first_due ?due cursor deadline
            (nextScan cron off (cursor + int n * MINUTE_MS) deadline)"
          by (rule first_due_skip)
        with soon day False m show ?thesis
          by (subst nextScan.simps) (simp add: Let_def n)
      next
        case hour: True
        show ?thesis
        proof (cases "p_minute ?parts \<in> set (cvalues (minute cron))")
          case True
          with soon day hour show ?thesis
            by (subst nextScan.simps)
              (simp add: Let_def first_due_here isCompiledCronDue_def)
        next
          case False
          then have "\<not> ?due cursor" by (simp add: isCompiledCronDue_def Let_def)
          with False soon day hour show ?thesis
            using one [OF _ "1.IH"(3) [OF soon refl _ _ False zone]]
            by (subst nextScan.simps) (simp add: Let_def)
        qed
      qed
    qed
  qed
qed


lemma aligned_after_scan_start:
  assumes "minute_aligned t" and "from < t"
  shows "\<exists>k::nat. t = scan_start from + int k * MINUTE_MS"
proof (intro exI [of _ "nat (t div MINUTE_MS - (from div MINUTE_MS + 1))"])
  have t: "t = t div MINUTE_MS * MINUTE_MS"
    using assms(1) div_mult_mod_eq [of t MINUTE_MS] by (simp add: minute_aligned_def)
  with assms(2) have "from div MINUTE_MS < t div MINUTE_MS"
    by (simp add: MINUTE_MS_def)
  then show "t = scan_start from +
      int (nat (t div MINUTE_MS - (from div MINUTE_MS + 1))) * MINUTE_MS"
    using t by (simp add: scan_start_def algebra_simps)
qed

lemma scan_start_aligned: "minute_aligned (scan_start from + int k * MINUTE_MS)"
  by (simp add: minute_aligned_def scan_start_def mod_simps)

lemma scan_start_after: "from < scan_start from + int k * MINUTE_MS"
  using pos_mod_bound [of MINUTE_MS "from"] div_mult_mod_eq [of "from" MINUTE_MS]
  by (simp add: scan_start_def MINUTE_MS_def)

text \<open>
  C1. The search for the next run is total, and correct on every zone whose transitions are
  regular: the instant it returns is a whole minute, strictly after \<open>from\<close>, due, and no
  earlier whole minute is due; when it returns nothing, no whole minute up to the deadline
  is due.  The day and hour skips never jump over a due minute.
\<close>

theorem nextCronRun_correct:
  assumes "regular_zone off"
  shows "case nextCronRun cron from off withinDays of
           Some d \<Rightarrow> minute_aligned d \<and> from < d \<and> d \<le> scan_deadline from withinDays \<and>
                     isCompiledCronDue cron d off \<and>
                     (\<forall>t. minute_aligned t \<and> from < t \<and> t < d \<longrightarrow> \<not> isCompiledCronDue cron t off)
         | None \<Rightarrow> (\<forall>t. minute_aligned t \<and> from < t \<and> t \<le> scan_deadline from withinDays \<longrightarrow>
                       \<not> isCompiledCronDue cron t off)"
proof -
  let ?due = "\<lambda>t. isCompiledCronDue cron t off"
  have first: "first_due ?due (scan_start from) (scan_deadline from withinDays)
      (nextCronRun cron from off withinDays)"
    using nextScan_first_due [OF assms, of cron "scan_start from" "scan_deadline from withinDays"]
    by (simp add: nextCronRun_def scan_deadline_def Let_def)
  show ?thesis
  proof (cases "nextCronRun cron from off withinDays")
    case None
    with first show ?thesis
      by (auto simp: first_due_def dest!: aligned_after_scan_start)
  next
    case (Some d)
    with first obtain k where k: "d = scan_start from + int k * MINUTE_MS"
      "d \<le> scan_deadline from withinDays" "?due d"
      "\<And>j. j < k \<Longrightarrow> \<not> ?due (scan_start from + int j * MINUTE_MS)"
      by (auto simp: first_due_def)
    have "\<not> ?due t" if "minute_aligned t" "from < t" "t < d" for t
      using aligned_after_scan_start [OF that(1,2)] that(3) k(1,4) by (auto simp: MINUTE_MS_def)
    with k Some show ?thesis
      by (simp add: scan_start_aligned scan_start_after)
  qed
qed


definition utc :: "int \<Rightarrow> int" where
  "utc t = 0"

lemma regular_zone_utc: "regular_zone utc"
  by (auto simp: regular_zone_def utc_def local_day_def MINUTE_MS_def DAY_MS_def
      intro!: zdiv_mono1)

definition every_monday_nine :: CompiledCron where
  "every_monday_nine =
     \<lparr>expression = ''0 9 * * 1'', cron_fields = [''0'', ''9'', ''*'', ''*'', ''1''],
      minute = \<lparr>cvalues = [0], restricted = True\<rparr>,
      hour = \<lparr>cvalues = [9], restricted = True\<rparr>,
      dayOfMonth = \<lparr>cvalues = [1..<32], restricted = False, last_day = False\<rparr>,
      month = \<lparr>cvalues = [1..<13], restricted = False\<rparr>,
      dayOfWeek = \<lparr>cvalues = [1], restricted = True\<rparr>\<rparr>"

theorem nextCronRun_correct_witness:
  "case nextCronRun every_monday_nine 0 utc 366 of
     Some d \<Rightarrow> minute_aligned d \<and> 0 < d \<and> d \<le> scan_deadline 0 366 \<and>
               isCompiledCronDue every_monday_nine d utc \<and>
               (\<forall>t. minute_aligned t \<and> 0 < t \<and> t < d \<longrightarrow>
                    \<not> isCompiledCronDue every_monday_nine t utc)
   | None \<Rightarrow> (\<forall>t. minute_aligned t \<and> 0 < t \<and> t \<le> scan_deadline 0 366 \<longrightarrow>
                 \<not> isCompiledCronDue every_monday_nine t utc)"
  by (rule nextCronRun_correct [OF regular_zone_utc])

section \<open>Correctness of the parser\<close>

lemma set_add_range:
  "0 < step \<Longrightarrow> set (add_range v hi step into) =
     set into \<union> {x. v \<le> x \<and> x \<le> hi \<and> step dvd (x - v)}"
proof (induction v hi step into rule: add_range.induct)
  case (1 v hi step into)
  show ?case
  proof (cases "v \<le> hi")
    case True
    have "{x. v \<le> x \<and> x \<le> hi \<and> step dvd (x - v)} =
        insert v {x. v + step \<le> x \<and> x \<le> hi \<and> step dvd (x - (v + step))}" (is "?A = insert v ?B")
    proof (intro equalityI subsetI)
      fix x assume x: "x \<in> ?A"
      then obtain q where q: "x - v = step * q" by (auto simp: dvd_def)
      show "x \<in> insert v ?B"
      proof (cases q)
        case 0
        with x q show ?thesis by simp
      next
        case (Suc r)
        from x have "v \<le> x" by simp
        with q have "x = v + step * q" by linarith
        with Suc have "x = v + step + step * r" by simp
        with x show ?thesis by simp
      qed
    next
      fix x assume "x \<in> insert v ?B"
      then consider "x = v" | "x \<in> ?B" by blast
      then show "x \<in> ?A"
      proof cases
        case 1
        with True show ?thesis by simp
      next
        case 2
        then obtain q where q: "x - (v + step) = step * q" by (auto simp: dvd_def)
        from 2 have "v + step \<le> x" by simp
        with q have "x - v = step + step * q" by linarith
        then have "x - v = step * Suc q" by simp
        with 2 show ?thesis by (metis (mono_tags, lifting) add_leD1 dvd_triv_left mem_Collect_eq)
      qed
    qed
    with True 1 show ?thesis by (subst add_range.simps) auto
  next
    case False
    then show ?thesis by (subst add_range.simps) auto
  qed
qed

lemma expandBody_bounds:
  "expandBody body hs spec step into = Inr vs \<Longrightarrow> 0 < step \<Longrightarrow>
   set into \<subseteq> set vs \<and> set vs \<subseteq> set into \<union> {fmin spec..fmax spec}"
  by (auto simp: expandBody_def expandRange_def expandSingle_def Let_def set_add_range
      split: if_splits option.splits)

lemma parseStep_pos: "parseStep c b st = Inr step \<Longrightarrow> 0 < step"
  by (auto simp: parseStep_def split: option.splits if_splits)

lemma expandComponent_bounds:
  "expandComponent c spec into = Inr vs \<Longrightarrow> set vs \<subseteq> set into \<union> {fmin spec..fmax spec}"
  by (auto simp: expandComponent_def bindE_Inr_iff split: list.splits
      dest!: parseStep_pos dest: expandBody_bounds)

lemma expandComponents_bounds:
  "expandComponents f spec cs into = Inr vs \<Longrightarrow> set vs \<subseteq> set into \<union> {fmin spec..fmax spec}"
proof (induction cs arbitrary: into)
  case (Cons c cs)
  then obtain mid where "expandComponent c spec into = Inr mid"
    and "expandComponents f spec cs mid = Inr vs"
    by (auto simp: bindE_Inr_iff split: if_splits)
  with Cons.IH expandComponent_bounds show ?case by blast
qed simp

lemma expandDomComponents_bounds:
  "expandDomComponents f cs into l = Inr (vs, l') \<Longrightarrow> set vs \<subseteq> set into \<union> {1..31}"
proof (induction cs arbitrary: into l)
  case (Cons c cs)
  show ?case
  proof (cases "toUpperCase c = ''L''")
    case False
    with Cons.prems obtain mid where "expandComponent c DAY_OF_MONTH into = Inr mid"
      and "expandDomComponents f cs mid l = Inr (vs, l')"
      by (auto simp: bindE_Inr_iff split: if_splits)
    with Cons.IH expandComponent_bounds [of c DAY_OF_MONTH into mid] show ?thesis
      by (fastforce simp: DAY_OF_MONTH_def)
  qed (use Cons in auto)
qed simp

lemma compileField_bounds:
  "compileField f spec e = Inr cf \<Longrightarrow> set (cvalues cf) \<subseteq> {fmin spec..fmax spec}"
  by (auto simp: compileField_def split: sum.splits dest!: expandComponents_bounds)

lemma compileDayOfMonth_bounds:
  "compileDayOfMonth f e = Inr cf \<Longrightarrow> set (cvalues cf) \<subseteq> {1..31}"
  by (auto simp: compileDayOfMonth_def split: sum.splits dest!: expandDomComponents_bounds)

lemma set_normaliseSunday: "set (normaliseSunday vs) = (\<lambda>v. if v = 7 then 0 else v) ` set vs"
proof -
  have "set (foldl (\<lambda>acc v. set_add (if v = 7 then 0 else v) acc) acc vs) =
      set acc \<union> (\<lambda>v. if v = 7 then 0 else v) ` set vs" for acc
    by (induction vs arbitrary: acc) auto
  then show ?thesis by (simp add: normaliseSunday_def)
qed

definition wf_cron :: "CompiledCron \<Rightarrow> bool" where
  "wf_cron cron \<longleftrightarrow>
     set (cvalues (minute cron)) \<subseteq> {0..59} \<and> set (cvalues (hour cron)) \<subseteq> {0..23} \<and>
     set (cvalues (dayOfMonth cron)) \<subseteq> {1..31} \<and> set (cvalues (month cron)) \<subseteq> {1..12} \<and>
     set (cvalues (dayOfWeek cron)) \<subseteq> {0..6} \<and> length (cron_fields cron) = 5"

lemma compileFields_wf:
  assumes "compileFields e fs (mi, h, d, mo, w) = Inr cron" and "length fs = 5"
  shows "wf_cron cron"
proof -
  from assms(1) obtain cw cmi ch cd cmo where
    c: "compileField w DAY_OF_WEEK e = Inr cw" "compileField mi MINUTE e = Inr cmi"
       "compileField h HOUR e = Inr ch" "compileDayOfMonth d e = Inr cd"
       "compileField mo MONTH e = Inr cmo"
    and cron: "cron = \<lparr>expression = join_with '' '' fs, cron_fields = fs, minute = cmi,
      hour = ch, dayOfMonth = cd, month = cmo,
      dayOfWeek = \<lparr>cvalues = normaliseSunday (cvalues cw), restricted = restricted cw\<rparr>\<rparr>"
    by (auto simp: compileFields_def bindE_Inr_iff)
  have "set (normaliseSunday (cvalues cw)) \<subseteq> {0..6}"
    using compileField_bounds [OF c(1)]
    by (fastforce simp: set_normaliseSunday DAY_OF_WEEK_def)
  with cron assms(2) show ?thesis
    using compileField_bounds [OF c(2)] compileField_bounds [OF c(3)]
      compileDayOfMonth_bounds [OF c(4)] compileField_bounds [OF c(5)]
    by (simp add: wf_cron_def field_specs)
qed

lemma compileExpression_wf:
  assumes "compileExpression e = Inr cron"
  shows "wf_cron cron"
proof -
  from assms obtain expanded where
    "(case split_ws expanded of
        [mi, h, d, mo, w] \<Rightarrow> compileFields e (split_ws expanded) (mi, h, d, mo, w)
      | _ \<Rightarrow> Inl (FieldCount e (length (split_ws expanded)))) = Inr cron"
    unfolding compileExpression_def Let_def bindE_Inr_iff by blast
  then obtain mi h d mo w where "split_ws expanded = [mi, h, d, mo, w]"
    and "compileFields e (split_ws expanded) (mi, h, d, mo, w) = Inr cron"
    by (auto split: list.splits)
  then show ?thesis by (simp add: compileFields_wf)
qed

text \<open>The memo only ever holds what compiling its keys gives, and stays within its limit.\<close>

definition memo_ok :: "cron_memo \<Rightarrow> bool" where
  "memo_ok compiled \<longleftrightarrow>
     (\<forall>expr cron. map_of compiled expr = Some cron \<longrightarrow> compileExpression expr = Inr cron) \<and>
     distinct (keys_of compiled) \<and> length compiled \<le> COMPILE_CACHE_LIMIT"

text \<open>
  The memo is transparent and bounded: from any state of it that parsing can reach,
  \<open>parseCronExpression\<close> returns what compiling the expression afresh would, error or not,
  and leaves the memo consistent and within its limit of 500 entries.
\<close>

lemma parseCronExpression_memo:
  assumes "memo_ok compiled"
  shows "fst (parseCronExpression expr compiled) = compileExpression expr \<and>
         memo_ok (snd (parseCronExpression expr compiled))"
proof (cases "map_of compiled expr")
  case (Some cron)
  with assms show ?thesis by (simp add: parseCronExpression_def memo_ok_def)
next
  case None
  show ?thesis
  proof (cases "compileExpression expr")
    case (Inl e)
    with None assms show ?thesis by (simp add: parseCronExpression_def)
  next
    case (Inr result)
    define kept where "kept = (if length compiled \<ge> COMPILE_CACHE_LIMIT then [] else compiled)"
    have "memo_ok (map_put expr result kept)"
      using assms Inr
      by (auto simp: kept_def memo_ok_def length_map_put COMPILE_CACHE_LIMIT_def split: if_splits)
    with None Inr show ?thesis by (simp add: parseCronExpression_def kept_def Let_def)
  qed
qed


text \<open>
  Whatever parses is well formed: the five compiled sets lie within the calendar's ranges,
  and weekday 7 has been folded into 0, so that matching need only consider 0 to 6.
\<close>

lemma parseCronExpression_wf:
  assumes "memo_ok compiled"
    and "fst (parseCronExpression expr compiled) = Inr cron"
  shows "wf_cron cron"
proof (cases "map_of compiled expr")
  case (Some c)
  with assms have "compileExpression expr = Inr cron"
    by (auto simp: parseCronExpression_def memo_ok_def)
  then show ?thesis by (rule compileExpression_wf)
next
  case None
  with assms(2) show ?thesis
    by (auto simp: parseCronExpression_def Let_def intro: compileExpression_wf split: sum.splits)
qed


definition sunday_nine :: CompiledCron where
  "sunday_nine =
     \<lparr>expression = ''0 9 * * 7'', cron_fields = [''0'', ''9'', ''*'', ''*'', ''7''],
      minute = \<lparr>cvalues = [0], restricted = True\<rparr>,
      hour = \<lparr>cvalues = [9], restricted = True\<rparr>,
      dayOfMonth = \<lparr>cvalues = [1..<32], restricted = False, last_day = False\<rparr>,
      month = \<lparr>cvalues = [1..<13], restricted = False\<rparr>,
      dayOfWeek = \<lparr>cvalues = [0], restricted = True\<rparr>\<rparr>"

lemma parse_sunday_nine: "fst (parseCronExpression ''0 9 * * 7'' []) = Inr sunday_nine"
  by code_simp


section \<open>The vocabulary of a field\<close>

text \<open>
  The components the documentation lists, their text and their meaning; a field is a
  comma-separated list of them.
\<close>

datatype cron_item =
    AnyItem
  | EveryItem nat
  | RangeItem nat nat
  | RangeStepItem nat nat nat
  | FromItem nat nat
  | ValueItem nat

fun show_item :: "cron_item \<Rightarrow> string" where
  "show_item AnyItem = ''*''"
| "show_item (EveryItem n) = ''*/'' @ string_of_nat n"
| "show_item (RangeItem a b) = string_of_nat a @ ''-'' @ string_of_nat b"
| "show_item (RangeStepItem a b n) = string_of_nat a @ ''-'' @ string_of_nat b @ ''/'' @ string_of_nat n"
| "show_item (FromItem a n) = string_of_nat a @ ''/'' @ string_of_nat n"
| "show_item (ValueItem a) = string_of_nat a"

fun item_ok :: "FieldSpec \<Rightarrow> cron_item \<Rightarrow> bool" where
  "item_ok spec AnyItem = True"
| "item_ok spec (EveryItem n) = (0 < n)"
| "item_ok spec (RangeItem a b) = (fmin spec \<le> a \<and> a \<le> b \<and> b \<le> fmax spec)"
| "item_ok spec (RangeStepItem a b n) = (fmin spec \<le> a \<and> a \<le> b \<and> b \<le> fmax spec \<and> 0 < n)"
| "item_ok spec (FromItem a n) = (fmin spec \<le> a \<and> a \<le> fmax spec \<and> 0 < n)"
| "item_ok spec (ValueItem a) = (fmin spec \<le> a \<and> a \<le> fmax spec)"

fun item_values :: "FieldSpec \<Rightarrow> cron_item \<Rightarrow> nat set" where
  "item_values spec AnyItem = {fmin spec..fmax spec}"
| "item_values spec (EveryItem n) = {x \<in> {fmin spec..fmax spec}. n dvd (x - fmin spec)}"
| "item_values spec (RangeItem a b) = {a..b}"
| "item_values spec (RangeStepItem a b n) = {x \<in> {a..b}. n dvd (x - a)}"
| "item_values spec (FromItem a n) = {x \<in> {a..fmax spec}. n dvd (x - a)}"
| "item_values spec (ValueItem a) = {a}"

definition cron_specs :: "FieldSpec list" where
  "cron_specs = [MINUTE, HOUR, DAY_OF_MONTH, MONTH, DAY_OF_WEEK]"

lemma digits_upper: "list_all is_digit s \<Longrightarrow> toUpperCase s = s"
  by (induction s) (auto simp: is_digit_def to_upper_def)

lemma names_not_digits:
  "list_all (\<lambda>spec. list_all (\<lambda>k. \<not> list_all is_digit k) (keys_of (names spec))) cron_specs"
  by code_simp

lemma names_no_digits:
  assumes "spec \<in> set cron_specs" and "all_digits s"
  shows "map_of (names spec) (toUpperCase s) = None"
proof -
  have "\<not> list_all is_digit k" if "k \<in> fst ` set (names spec)" for k
    using names_not_digits assms(1) that by (force simp: list_all_iff)
  moreover have "list_all is_digit (toUpperCase s)"
    using assms(2) by (simp add: all_digits_def digits_upper)
  ultimately show ?thesis by (auto simp: map_of_eq_None_iff)
qed

lemma resolveValue_number [simp]:
  "spec \<in> set cron_specs \<Longrightarrow> resolveValue (string_of_nat n) spec = Some n"
  by (simp add: resolveValue_def names_no_digits)

lemma no_sep_in_number [simp]:
  "CHR ''/'' \<notin> set (string_of_nat n)" "CHR ''-'' \<notin> set (string_of_nat n)"
  "CHR '','' \<notin> set (string_of_nat n)"
  using string_of_nat_digits [of "CHR ''/''" n] string_of_nat_digits [of "CHR ''-''" n]
    string_of_nat_digits [of "CHR '',''" n]
  by (auto simp: is_digit_def)

lemma number_not_symbol [simp]:
  "string_of_nat n \<noteq> ''*''" "string_of_nat n \<noteq> ''?''" "string_of_nat n \<noteq> []"
  using all_digits_string_of_nat [of n] by (auto simp: is_digit_def all_digits_def)

lemma number_not_prefix [simp]:
  "string_of_nat n @ s \<noteq> ''*''" "string_of_nat n @ s \<noteq> ''?''"
  using all_digits_string_of_nat [of n]
  by (cases "string_of_nat n"; auto simp: is_digit_def all_digits_def)+

lemma index_of_no: "c \<notin> set s \<Longrightarrow> index_of c s = None"
  by (simp add: index_of_None_iff)

lemma expandBody_range:
  assumes "spec \<in> set cron_specs" and "item_ok spec (RangeItem a b)" and "0 < step"
  shows "expandBody (string_of_nat a @ CHR ''-'' # string_of_nat b) hs spec step into =
           Inr (add_range a b step into)"
  using assms by (simp add: expandBody_def index_of_append expandRange_def)

lemma expandBody_value:
  assumes "spec \<in> set cron_specs" and "item_ok spec (ValueItem a)"
  shows "expandBody (string_of_nat a) hs spec step into =
           Inr (if hs then add_range a (fmax spec) step into else set_add a into)"
  using assms by (simp add: expandBody_def index_of_no expandSingle_def)

lemma expandComponent_item:
  assumes "spec \<in> set cron_specs" and "item_ok spec item"
  shows "\<exists>vs. expandComponent (show_item item) spec into = Inr vs \<and>
              set vs = set into \<union> item_values spec item"
proof -
  have parse1: "split_on (CHR ''/'') s = [s]" if "CHR ''/'' \<notin> set s" for s
    using that by (rule split_on_single)
  have parse2: "split_on (CHR ''/'') (s @ CHR ''/'' # string_of_nat n) = [s, string_of_nat n]"
    if "CHR ''/'' \<notin> set s" for s n
    using that by (simp add: split_on_append split_on_single)
  show ?thesis
  proof (cases item)
    case AnyItem
    then show ?thesis
      by (auto simp: expandComponent_def parse1 parseStep_def expandBody_def set_add_range)
  next
    case (EveryItem n)
    then show ?thesis using assms parse2 [of "''*''" n]
      by (auto simp: expandComponent_def parseStep_def expandBody_def set_add_range)
  next
    case (RangeItem a b)
    then show ?thesis using assms expandBody_range [of spec a b 1 False into]
      by (auto simp: expandComponent_def parse1 parseStep_def set_add_range)
  next
    case (RangeStepItem a b n)
    then show ?thesis
      using assms expandBody_range [of spec a b n True into]
        parse2 [of "string_of_nat a @ CHR ''-'' # string_of_nat b" n]
      by (auto simp: expandComponent_def parseStep_def set_add_range)
  next
    case (FromItem a n)
    then show ?thesis
      using assms expandBody_value [of spec a True n into] parse2 [of "string_of_nat a" n]
      by (auto simp: expandComponent_def parseStep_def set_add_range)
  next
    case (ValueItem a)
    then show ?thesis
      using assms expandBody_value [of spec a False 1 into]
      by (auto simp: expandComponent_def parse1 parseStep_def)
  qed
qed

lemma show_item_nonempty [simp]: "show_item item \<noteq> []"
  by (cases item) simp_all

lemma show_item_no_comma [simp]: "CHR '','' \<notin> set (show_item item)"
  by (cases item) simp_all

lemma expandComponents_items:
  assumes "spec \<in> set cron_specs" and "\<forall>item \<in> set items. item_ok spec item"
  shows "\<exists>vs. expandComponents f spec (map show_item items) into = Inr vs \<and>
              set vs = set into \<union> (\<Union>item \<in> set items. item_values spec item)"
  using assms(2)
proof (induction items arbitrary: into)
  case (Cons item items)
  then obtain mid where mid: "expandComponent (show_item item) spec into = Inr mid"
    "set mid = set into \<union> item_values spec item"
    using expandComponent_item [OF assms(1)] by (metis list.set_intros(1))
  from Cons obtain vs where "expandComponents f spec (map show_item items) mid = Inr vs"
    "set vs = set mid \<union> (\<Union>item \<in> set items. item_values spec item)"
    by (metis list.set_intros(2))
  with mid show ?case by (simp add: Un_assoc)
qed simp

lemma show_item_star: "show_item item = ''*'' \<longleftrightarrow> item = AnyItem"
  by (cases item) (auto simp: append_eq_Cons_conv)




section \<open>The search horizon\<close>

definition leap_day :: CompiledCron where
  "leap_day =
     \<lparr>expression = ''0 0 29 2 *'', cron_fields = [''0'', ''0'', ''29'', ''2'', ''*''],
      minute = \<lparr>cvalues = [0], restricted = True\<rparr>,
      hour = \<lparr>cvalues = [0], restricted = True\<rparr>,
      dayOfMonth = \<lparr>cvalues = [29], restricted = True, last_day = False\<rparr>,
      month = \<lparr>cvalues = [2], restricted = True\<rparr>,
      dayOfWeek = \<lparr>cvalues = [0, 1, 2, 3, 4, 5, 6], restricted = False\<rparr>\<rparr>"

lemma day_29_of_feb:
  fixes doy :: int
  assumes "(5 * doy + 2) div 153 = mp" and "nat (if mp < 10 then mp + 3 else mp - 9) = 2"
    and "nat (doy - (153 * mp + 2) div 5 + 1) = 29"
  shows "doy = 365 \<or> mp < 0"
proof -
  from assms(2) have "mp = 11 \<or> mp < 0" by (simp split: if_splits)
  with assms(3) show ?thesis by auto
qed

lemma no_leap_day:
  assumes "20148 \<le> d" and "d \<le> 20515"
  shows "\<not> (fst (snd (civil_of_day d)) = 2 \<and> snd (snd (civil_of_day d)) = 29)"
proof -
  define e where "e = d - 11017"
  have e: "9131 \<le> e" "e \<le> 9498" using assms by (simp_all add: e_def)
  have doe: "(d + 719468) mod 146097 = e"
    by (rule int_mod_pos_eq [of _ _ 5]) (use e in \<open>simp_all add: e_def\<close>)
  have q: "e div 1460 = 6" by (rule int_div_pos_eq [of _ _ _ "e - 8760"]) (use e in simp_all)
  have z: "e div 36524 = 0" "e div 146096 = 0" using e by simp_all
  define yoe where "yoe = (e - 6) div 365"
  have y: "yoe = (if e < 9496 then 25 else 26)" unfolding yoe_def
    by (rule int_div_pos_eq [of _ _ _ "e - 6 - 365 * (if e < 9496 then 25 else 26)"])
      (use e in simp_all)
  define doy where "doy = e - (365 * yoe + yoe div 4 - yoe div 100)"
  have doy: "0 \<le> doy" "doy < 365"
    using e by (simp_all add: doy_def y)
  define mp where "mp = (5 * doy + 2) div 153"
  have "0 \<le> mp" using doy by (simp add: mp_def)
  with doy have "\<not> (nat (if mp < 10 then mp + 3 else mp - 9) = 2 \<and>
      nat (doy - (153 * mp + 2) div 5 + 1) = 29)"
    using day_29_of_feb [of doy mp] by (auto simp: mp_def)
  then show ?thesis
    unfolding civil_of_day_def Let_def doe q z
    by (simp only: fst_conv snd_conv add_0_right diff_zero yoe_def [symmetric] doy_def [symmetric]
        mp_def [symmetric] simp_thms)
qed
lemma leap_day_due_date:
  "isCompiledCronDue leap_day t off \<Longrightarrow>
   fst (snd (civil_of_day (local_day off t))) = 2 \<and> snd (snd (civil_of_day (local_day off t))) = 29"
  by (auto simp: isCompiledCronDue_def dayMatches_def extractParts_def split_def Let_def leap_day_def
      split: if_splits)


end
