(* ===== verification/CacheStore.thy ===== *)
theory CacheStore
  imports JsPrelude
begin

text \<open>
  The cache: the in-memory store of \<open>framework/cache/src/stores/array-cache-store.ts\<close>, the
  shared helper \<open>remember\<close> of \<open>cache-store-helpers.ts\<close>, and the interface every store
  provides to the lock, the rate limiter and the queue.  Each operation takes the time at
  which it runs, in epoch milliseconds; the store's operations are synchronous, so one
  reading of the clock serves the whole operation.  TTLs are whole seconds.
\<close>

section \<open>Values and entries\<close>

text \<open>
  A cached value: the JavaScript values the framework itself stores and compares, and any
  other value by its serialised form.
\<close>

datatype cval = VUndef | VNull | VNum int | VStr string | VBool bool | VOther string

record Entry =
  evalue :: cval
  expiresAt :: "int option"

datatype cache_error = NotANumber string string cval

definition numericValue :: "string \<Rightarrow> string \<Rightarrow> cval \<Rightarrow> cache_error + int" where
  "numericValue store key v =
     (case v of
        VUndef \<Rightarrow> Inr 0
      | VNull \<Rightarrow> Inr 0
      | VNum n \<Rightarrow> Inr n
      | _ \<Rightarrow> Inl (NotANumber store key v))"

definition expired :: "int \<Rightarrow> Entry \<Rightarrow> bool" where
  "expired now e = (case expiresAt e of None \<Rightarrow> False | Some t \<Rightarrow> t < now)"

definition mk_entry :: "int \<Rightarrow> cval \<Rightarrow> int option \<Rightarrow> Entry" where
  "mk_entry now v ttlSeconds =
     \<lparr>evalue = v, expiresAt = map_option (\<lambda>s. now + s * 1000) ttlSeconds\<rparr>"

section \<open>The in-memory store\<close>

text \<open>The \<open>Map\<close> of entries, in insertion order.\<close>

type_synonym array_store = "(string \<times> Entry) list"

definition liveEntry :: "int \<Rightarrow> string \<Rightarrow> array_store \<Rightarrow> Entry option \<times> array_store" where
  "liveEntry now key st =
     (case map_of st key of
        None \<Rightarrow> (None, st)
      | Some entry \<Rightarrow>
          if expired now entry then (None, map_del key st) else (Some entry, st))"

definition array_get :: "int \<Rightarrow> string \<Rightarrow> array_store \<Rightarrow> cval \<times> array_store" where
  "array_get now key st =
     (let (e, st') = liveEntry now key st in
      (case e of None \<Rightarrow> VUndef | Some entry \<Rightarrow> evalue entry, st'))"

definition array_put ::
  "int \<Rightarrow> string \<Rightarrow> cval \<Rightarrow> int option \<Rightarrow> array_store \<Rightarrow> array_store" where
  "array_put now key v ttlSeconds st = map_put key (mk_entry now v ttlSeconds) st"

definition array_forget :: "int \<Rightarrow> string \<Rightarrow> array_store \<Rightarrow> array_store" where
  "array_forget now key st = map_del key st"

definition array_has :: "int \<Rightarrow> string \<Rightarrow> array_store \<Rightarrow> bool \<times> array_store" where
  "array_has now key st = (let (v, st') = array_get now key st in (v \<noteq> VUndef, st'))"

definition array_flush :: "array_store \<Rightarrow> array_store" where
  "array_flush st = []"

definition array_increment ::
  "int \<Rightarrow> string \<Rightarrow> int \<Rightarrow> array_store \<Rightarrow> (cache_error + int) \<times> array_store" where
  "array_increment now key amount st =
     (let (existing, st') = liveEntry now key st in
      case numericValue ''ArrayCacheStore'' key
             (case existing of None \<Rightarrow> VUndef | Some e \<Rightarrow> evalue e) of
        Inl err \<Rightarrow> (Inl err, st')
      | Inr current \<Rightarrow>
          (Inr (current + amount),
           map_put key \<lparr>evalue = VNum (current + amount),
                        expiresAt = (case existing of None \<Rightarrow> None | Some e \<Rightarrow> expiresAt e)\<rparr> st'))"

definition array_add ::
  "int \<Rightarrow> string \<Rightarrow> cval \<Rightarrow> int option \<Rightarrow> array_store \<Rightarrow> bool \<times> array_store" where
  "array_add now key v ttlSeconds st =
     (let (existing, st') = liveEntry now key st in
      if existing \<noteq> None then (False, st')
      else (True, map_put key (mk_entry now v ttlSeconds) st'))"

definition array_releaseLock ::
  "int \<Rightarrow> string \<Rightarrow> string \<Rightarrow> array_store \<Rightarrow> bool \<times> array_store" where
  "array_releaseLock now key owner st =
     (let (existing, st') = liveEntry now key st in
      if (case existing of None \<Rightarrow> VUndef | Some e \<Rightarrow> evalue e) \<noteq> VStr owner then (False, st')
      else (True, map_del key st'))"

definition array_prune :: "int \<Rightarrow> array_store \<Rightarrow> nat \<times> array_store" where
  "array_prune now st =
     (length (filter (\<lambda>(k, e). expired now e) st), filter (\<lambda>(k, e). \<not> expired now e) st)"

definition array_size :: "array_store \<Rightarrow> nat" where
  "array_size st = length st"

section \<open>The interface\<close>

text \<open>
  What a store offers its clients, as the code's \<open>CacheStore\<close>: the clients are written over
  any record of these operations.
\<close>

record 's CacheOps =
  op_get :: "int \<Rightarrow> string \<Rightarrow> 's \<Rightarrow> cval \<times> 's"
  op_put :: "int \<Rightarrow> string \<Rightarrow> cval \<Rightarrow> int option \<Rightarrow> 's \<Rightarrow> 's"
  op_forget :: "int \<Rightarrow> string \<Rightarrow> 's \<Rightarrow> 's"
  op_has :: "int \<Rightarrow> string \<Rightarrow> 's \<Rightarrow> bool \<times> 's"
  op_increment :: "int \<Rightarrow> string \<Rightarrow> int \<Rightarrow> 's \<Rightarrow> (cache_error + int) \<times> 's"
  op_add :: "int \<Rightarrow> string \<Rightarrow> cval \<Rightarrow> int option \<Rightarrow> 's \<Rightarrow> bool \<times> 's"
  op_releaseLock :: "int \<Rightarrow> string \<Rightarrow> string \<Rightarrow> 's \<Rightarrow> bool \<times> 's"

definition array_ops :: "array_store CacheOps" where
  "array_ops = \<lparr>op_get = array_get, op_put = array_put, op_forget = array_forget,
     op_has = array_has, op_increment = array_increment, op_add = array_add,
     op_releaseLock = array_releaseLock\<rparr>"

text \<open>
  The abstract store: a map of entries of which only the live ones can be observed.  Two maps
  agree from a time on when no observation at that time or later tells them apart.
\<close>

definition live :: "int \<Rightarrow> (string \<rightharpoonup> Entry) \<Rightarrow> (string \<rightharpoonup> Entry)" where
  "live now m k = (case m k of None \<Rightarrow> None | Some e \<Rightarrow> if expired now e then None else Some e)"

definition agree :: "int \<Rightarrow> (string \<rightharpoonup> Entry) \<Rightarrow> (string \<rightharpoonup> Entry) \<Rightarrow> bool" where
  "agree now m m' \<longleftrightarrow> (\<forall>t \<ge> now. live t m = live t m')"

definition value_of :: "Entry option \<Rightarrow> cval" where
  "value_of e = (case e of None \<Rightarrow> VUndef | Some x \<Rightarrow> evalue x)"

lemma value_of_simps [simp]: "value_of None = VUndef" "value_of (Some e) = evalue e"
  by (simp_all add: value_of_def)

lemma expired_mono: "expired t e \<Longrightarrow> t \<le> t' \<Longrightarrow> expired t' e"
  by (auto simp: expired_def split: option.splits)

lemma agree_refl [simp]: "agree now m m"
  by (simp add: agree_def)

lemma agree_trans [trans]: "agree now m m' \<Longrightarrow> agree now m' m'' \<Longrightarrow> agree now m m''"
  by (simp add: agree_def)

lemma agree_later: "agree now m m' \<Longrightarrow> now \<le> t \<Longrightarrow> agree t m m'"
  by (simp add: agree_def)

lemma agree_live: "agree now m m' \<Longrightarrow> now \<le> t \<Longrightarrow> live t m = live t m'"
  by (simp add: agree_def)

lemma agree_upd: "agree now m m' \<Longrightarrow> agree now (m(k := e)) (m'(k := e))"
  by (auto simp: agree_def live_def fun_eq_iff)

lemma agree_del_expired: "live now m k = None \<Longrightarrow> agree now (m(k := None)) m"
  using expired_mono by (auto simp: agree_def live_def fun_eq_iff split: option.splits if_splits)

lemma live_upd [simp]:
  "live t (m(k := Some e)) = (live t m)(k := (if expired t e then None else Some e))"
  "live t (m(k := None)) = (live t m)(k := None)"
  by (auto simp: live_def fun_eq_iff)

lemma live_later_None: "live t m k = None \<Longrightarrow> t \<le> t' \<Longrightarrow> live t' m k = None"
  using expired_mono by (auto simp: live_def split: option.splits if_splits)

lemma live_later_Some: "live t m k = Some e \<Longrightarrow> t \<le> t' \<Longrightarrow>
    live t' m k = (if expired t' e then None else Some e)"
  by (auto simp: live_def split: option.splits if_splits)

lemma expired_mk_entry: "expired t (mk_entry now v ttl) \<longleftrightarrow> (\<exists>s. ttl = Some s \<and> now + s * 1000 < t)"
  by (auto simp: expired_def mk_entry_def split: option.splits)

lemma evalue_mk_entry [simp]: "evalue (mk_entry now v ttl) = v"
  by (simp add: mk_entry_def)

text \<open>
  The contract: over the live entries, \<open>get\<close> reads, \<open>put\<close> overwrites, \<open>forget\<close> removes,
  \<open>add\<close> writes exactly when there is no live entry, \<open>increment\<close> keeps the expiry of the live
  entry, and \<open>releaseLock\<close> removes the entry exactly when it holds the owner.
\<close>

locale cache_store =
  fixes ops :: "'s CacheOps"
    and peek :: "'s \<Rightarrow> (string \<rightharpoonup> Entry)"
  assumes get_value: "fst (op_get ops now k s) = value_of (live now (peek s) k)"
    and get_frame: "agree now (peek (snd (op_get ops now k s))) (peek s)"
    and has_value: "fst (op_has ops now k s) \<longleftrightarrow> value_of (live now (peek s) k) \<noteq> VUndef"
    and has_frame: "agree now (peek (snd (op_has ops now k s))) (peek s)"
    and put_effect: "agree now (peek (op_put ops now k v ttl s)) ((peek s)(k \<mapsto> mk_entry now v ttl))"
    and forget_effect: "agree now (peek (op_forget ops now k s)) ((peek s)(k := None))"
    and add_result: "fst (op_add ops now k v ttl s) \<longleftrightarrow> live now (peek s) k = None"
    and add_effect: "agree now (peek (snd (op_add ops now k v ttl s)))
          (if live now (peek s) k = None then (peek s)(k \<mapsto> mk_entry now v ttl) else peek s)"
    and increment_result: "(\<exists>err. numericValue name k (value_of (live now (peek s) k)) = Inl err) \<Longrightarrow>
          (\<exists>err. fst (op_increment ops now k a s) = Inl err) \<and>
          agree now (peek (snd (op_increment ops now k a s))) (peek s)"
    and increment_effect: "numericValue name k (value_of (live now (peek s) k)) = Inr n \<Longrightarrow>
          fst (op_increment ops now k a s) = Inr (n + a) \<and>
          agree now (peek (snd (op_increment ops now k a s)))
            ((peek s)(k \<mapsto> \<lparr>evalue = VNum (n + a),
               expiresAt = (case live now (peek s) k of None \<Rightarrow> None | Some e \<Rightarrow> expiresAt e)\<rparr>))"
    and release_result: "fst (op_releaseLock ops now k owner s) \<longleftrightarrow>
          value_of (live now (peek s) k) = VStr owner"
    and release_effect: "agree now (peek (snd (op_releaseLock ops now k owner s)))
          (if value_of (live now (peek s) k) = VStr owner then (peek s)(k := None) else peek s)"
begin

lemma get_live: "live t (peek (snd (op_get ops now k s))) = live t (peek s)" if "now \<le> t"
  using get_frame that by (rule agree_live)

lemma has_live: "live t (peek (snd (op_has ops now k s))) = live t (peek s)" if "now \<le> t"
  using has_frame that by (rule agree_live)

lemma put_live: "now \<le> t \<Longrightarrow> live t (peek (op_put ops now k v ttl s)) =
    (live t (peek s))(k := (if expired t (mk_entry now v ttl) then None else Some (mk_entry now v ttl)))"
  using agree_live [OF put_effect] by simp

lemma forget_live: "now \<le> t \<Longrightarrow> live t (peek (op_forget ops now k s)) = (live t (peek s))(k := None)"
  using agree_live [OF forget_effect] by simp

lemma add_live: "now \<le> t \<Longrightarrow> live t (peek (snd (op_add ops now k v ttl s))) =
    (if live now (peek s) k = None
     then (live t (peek s))(k := (if expired t (mk_entry now v ttl) then None
                                  else Some (mk_entry now v ttl)))
     else live t (peek s))"
  using agree_live [OF add_effect, of now t k v ttl s] by (simp split: if_splits)

lemma release_live: "now \<le> t \<Longrightarrow> live t (peek (snd (op_releaseLock ops now k owner s))) =
    (if value_of (live now (peek s) k) = VStr owner then (live t (peek s))(k := None)
     else live t (peek s))"
  using agree_live [OF release_effect, of now t k owner s] by (simp split: if_splits)

end

section \<open>The in-memory store meets the contract\<close>

lemma liveEntry_fst: "fst (liveEntry now k st) = live now (map_of st) k"
  by (simp add: liveEntry_def live_def split: option.splits)

lemma liveEntry_snd: "agree now (map_of (snd (liveEntry now k st))) (map_of st)"
proof (cases "live now (map_of st) k = None")
  case True
  then show ?thesis
    using agree_del_expired [OF True] by (auto simp: liveEntry_def split: option.splits)
next
  case False
  then show ?thesis by (auto simp: liveEntry_def live_def split: option.splits if_splits)
qed

lemma liveEntry_cases:
  obtains st' where "liveEntry now k st = (live now (map_of st) k, st')"
    and "agree now (map_of st') (map_of st)"
  using liveEntry_fst [of now k st] liveEntry_snd [of now k st] by (metis prod.collapse)

interpretation array: cache_store array_ops map_of
proof (unfold_locales, goal_cases)
  case (1 now k s)
  show ?case by (rule liveEntry_cases [of now k s]) (simp add: array_ops_def array_get_def value_of_def)
next
  case (2 now k s)
  show ?case by (rule liveEntry_cases [of now k s]) (simp add: array_ops_def array_get_def)
next
  case (3 now k s)
  show ?case
    by (rule liveEntry_cases [of now k s])
      (simp add: array_ops_def array_has_def array_get_def value_of_def)
next
  case (4 now k s)
  show ?case
    by (rule liveEntry_cases [of now k s]) (simp add: array_ops_def array_has_def array_get_def)
next
  case (5 now k v ttl s)
  show ?case by (simp add: array_ops_def array_put_def)
next
  case (6 now k s)
  show ?case by (simp add: array_ops_def array_forget_def)
next
  case (7 now k v ttl s)
  show ?case by (rule liveEntry_cases [of now k s]) (auto simp: array_ops_def array_add_def)
next
  case (8 now k v ttl s)
  show ?case
    by (rule liveEntry_cases [of now k s]) (auto simp: array_ops_def array_add_def agree_upd)
next
  case (9 name k now s a)
  show ?case
    using 9 by (rule_tac liveEntry_cases [of now k s])
      (auto simp: array_ops_def array_increment_def numericValue_def value_of_def
        split: cval.splits option.splits)
next
  case (10 name k now s n a)
  show ?case
    using 10 by (rule_tac liveEntry_cases [of now k s])
      (auto simp: array_ops_def array_increment_def numericValue_def value_of_def agree_upd
        split: cval.splits option.splits)
next
  case (11 now k owner s)
  show ?case
    by (rule liveEntry_cases [of now k s])
      (auto simp: array_ops_def array_releaseLock_def value_of_def)
next
  case (12 now k owner s)
  show ?case
    by (rule liveEntry_cases [of now k s])
      (auto simp: array_ops_def array_releaseLock_def value_of_def agree_upd)
qed

section \<open>Properties\<close>

lemma map_of_filter_live:
  "distinct (keys_of st) \<Longrightarrow>
    map_of (filter (\<lambda>(k, e). \<not> expired now e) st) k = live now (map_of st) k"
  by (induction st) (auto simp: live_def image_iff split: option.splits dest: map_of_SomeD)

lemma agree_live_self: "agree now (live now m) m"
  using expired_mono by (auto simp: agree_def live_def fun_eq_iff split: option.splits)

text \<open>
  The sweep of the in-memory store cannot be noticed: after \<open>prune\<close>, every observation at
  that time or later is the same, every resident entry is live, and the count it returns is
  the number of entries by which the store shrank.
\<close>

lemma array_prune_invisible:
  assumes "distinct (keys_of st)"
  shows "agree now (map_of (snd (array_prune now st))) (map_of st) \<and>
    list_all (\<lambda>(k, e). \<not> expired now e) (snd (array_prune now st)) \<and>
    array_size (snd (array_prune now st)) + fst (array_prune now st) = array_size st"
proof -
  have "map_of (snd (array_prune now st)) = live now (map_of st)"
    using map_of_filter_live [OF assms] by (simp add: array_prune_def fun_eq_iff)
  then show ?thesis
    using sum_length_filter_compl [of "\<lambda>(k, e). expired now e" st] agree_live_self
    by (auto simp: array_prune_def array_size_def list_all_iff case_prod_unfold)
qed

lemma snd_liveEntry_keys: "distinct (keys_of st) \<Longrightarrow> distinct (keys_of (snd (liveEntry now k st)))"
  by (auto simp: liveEntry_def distinct_keys_map_del split: option.splits)

end
