(* ===== verification/CacheLock.thy ===== *)
theory CacheLock
  imports CacheStore Complex_Main
begin

text \<open>
  The cache lock of \<open>framework/cache/src/locking/lock.ts\<close> and the two helpers of
  \<open>cache-store-helpers.ts\<close>, over the operations of any store.  One lock's
  \<open>acquire\<close> runs in an environment that says, for each round of its loop, how long the
  store took to answer, how much longer than asked the sleep lasted, and what the other
  participants did to the store meanwhile.  Several locks on one store are a step relation.
\<close>

section \<open>The lock\<close>

record LockOptions =
  lo_key :: string
  automaticReleaseAfterSeconds :: rat
  maximumWaitForSeconds :: "int option"
  lo_retryEvery :: "int option"

record Lock =
  lock_name :: string
  lockKey :: string
  owner :: string
  automaticRelease :: rat
  maximumWaitForMs :: "int option"
  retryEvery :: int
  held :: bool

text \<open>The constructor; the random owner token is an argument.  No wait bound is infinity.\<close>

definition new_lock :: "string \<Rightarrow> LockOptions \<Rightarrow> Lock" where
  "new_lock uuid options =
     \<lparr>lock_name = lo_key options, lockKey = lo_key options @ ''_lock'', owner = uuid,
      automaticRelease = automaticReleaseAfterSeconds options,
      maximumWaitForMs = map_option (\<lambda>s. s * 1000) (maximumWaitForSeconds options),
      retryEvery = nullish (lo_retryEvery options) 250, held = False\<rparr>"

definition lock_ttl :: "Lock \<Rightarrow> int" where
  "lock_ttl lk = max 1 \<lceil>automaticRelease lk\<rceil>"

text \<open>One round's share of the environment.  Node's timers wait at least one millisecond.\<close>

record 's Env =
  latency :: "nat \<Rightarrow> nat"
  oversleep :: "nat \<Rightarrow> nat"
  others :: "nat \<Rightarrow> 's \<Rightarrow> 's"

definition sleep_ms :: "int \<Rightarrow> int" where
  "sleep_ms ms = max 1 ms"

definition retry_sleep :: "Lock \<Rightarrow> int option \<Rightarrow> int \<Rightarrow> int" where
  "retry_sleep lk deadline now =
     (case deadline of
        None \<Rightarrow> retryEvery lk
      | Some d \<Rightarrow> min (retryEvery lk) (max 0 (d - now)))"

datatype lock_error = LockTimeout string

text \<open>One attempt: the atomic set-if-absent of the owner token under the lock's key.\<close>

definition attempt :: "'s CacheOps \<Rightarrow> int \<Rightarrow> Lock \<Rightarrow> 's \<Rightarrow> bool \<times> 's" where
  "attempt ops now lk s = op_add ops now (lockKey lk) (VStr (owner lk)) (Some (lock_ttl lk)) s"

partial_function (option) acquire_loop ::
  "'s CacheOps \<Rightarrow> 's Env \<Rightarrow> Lock \<Rightarrow> int option \<Rightarrow> nat \<Rightarrow> int \<Rightarrow> 's
     \<Rightarrow> ((lock_error + Lock) \<times> int \<times> 's) option" where
  "acquire_loop ops env lk deadline n now s =
     (let (acquired, s1) = attempt ops now lk s;
          now1 = now + int (latency env n) in
      if acquired then Some (Inr (lk\<lparr>held := True\<rparr>), now1, s1)
      else if (case deadline of None \<Rightarrow> False | Some d \<Rightarrow> d \<le> now1)
      then Some (Inl (LockTimeout (lock_name lk)), now1, s1)
      else acquire_loop ops env lk deadline (Suc n)
             (now1 + sleep_ms (retry_sleep lk deadline now1) + int (oversleep env n))
             (others env n s1))"

definition acquire ::
  "'s CacheOps \<Rightarrow> 's Env \<Rightarrow> Lock \<Rightarrow> int \<Rightarrow> 's \<Rightarrow> ((lock_error + Lock) \<times> int \<times> 's) option" where
  "acquire ops env lk now s =
     acquire_loop ops env lk (map_option (\<lambda>w. now + w) (maximumWaitForMs lk)) 0 now s"

text \<open>
  \<open>release\<close>; \<open>atomic\<close> says whether the store has \<open>releaseLock\<close>.  The portable path makes two
  calls, at two times.
\<close>

definition release ::
  "'s CacheOps \<Rightarrow> bool \<Rightarrow> int \<Rightarrow> int \<Rightarrow> Lock \<Rightarrow> 's \<Rightarrow> Lock \<times> 's" where
  "release ops atomic now now' lk s =
     (if \<not> held lk then (lk, s)
      else let lk' = lk\<lparr>held := False\<rparr> in
        if atomic then (lk', snd (op_releaseLock ops now (lockKey lk) (owner lk) s))
        else let (currentOwner, s1) = op_get ops now (lockKey lk) s in
          if currentOwner = VStr (owner lk) then (lk', op_forget ops now' (lockKey lk) s1)
          else (lk', s1))"

definition forceRelease :: "'s CacheOps \<Rightarrow> int \<Rightarrow> Lock \<Rightarrow> 's \<Rightarrow> Lock \<times> 's" where
  "forceRelease ops now lk s = (lk\<lparr>held := False\<rparr>, op_forget ops now (lockKey lk) s)"

text \<open>
  A callback runs at a time on the store and ends later with a value or an error.
\<close>

type_synonym ('s, 'e, 'v) callback = "int \<Rightarrow> 's \<Rightarrow> ('e + 'v) \<times> int \<times> 's"

datatype 'e lock_run_error = LockFailed lock_error | CallbackFailed 'e

definition lock_get ::
  "'s CacheOps \<Rightarrow> 's Env \<Rightarrow> bool \<Rightarrow> Lock \<Rightarrow> ('s, 'e, 'v) callback \<Rightarrow> int \<Rightarrow> 's
     \<Rightarrow> (('e lock_run_error + 'v) \<times> Lock \<times> int \<times> 's) option" where
  "lock_get ops env atomic lk callback now s =
     (case acquire ops env lk now s of
        None \<Rightarrow> None
      | Some (Inl e, now1, s1) \<Rightarrow> Some (Inl (LockFailed e), lk, now1, s1)
      | Some (Inr lk1, now1, s1) \<Rightarrow>
          (let (r, now2, s2) = callback now1 s1;
               (lk3, s3) = release ops atomic now2 now2 lk1 s2 in
           Some (case r of Inl e \<Rightarrow> Inl (CallbackFailed e) | Inr v \<Rightarrow> Inr v, lk3, now2, s3)))"

section \<open>The helpers every store shares\<close>

definition compute_and_put ::
  "'s CacheOps \<Rightarrow> string \<Rightarrow> ('s, 'e, cval) callback \<Rightarrow> int option \<Rightarrow> int \<Rightarrow> 's
     \<Rightarrow> ('e + cval) \<times> int \<times> 's" where
  "compute_and_put ops key callback ttlSeconds now s =
     (let (r, now1, s1) = callback now s in
      case r of
        Inl e \<Rightarrow> (Inl e, now1, s1)
      | Inr computed \<Rightarrow> (Inr computed, now1, op_put ops now1 key computed ttlSeconds s1))"

definition remember ::
  "'s CacheOps \<Rightarrow> string \<Rightarrow> ('s, 'e, cval) callback \<Rightarrow> int option \<Rightarrow> int \<Rightarrow> 's
     \<Rightarrow> ('e + cval) \<times> int \<times> 's" where
  "remember ops key callback ttlSeconds now s =
     (let (v, s1) = op_get ops now key s in
      if v \<noteq> VUndef then (Inr v, now, s1)
      else compute_and_put ops key callback ttlSeconds now s1)"

definition REMEMBER_LOCK_TTL_SECONDS :: rat where "REMEMBER_LOCK_TTL_SECONDS = 30"

definition REMEMBER_LOCK_WAIT_SECONDS :: int where "REMEMBER_LOCK_WAIT_SECONDS = 10"

definition rememberViaLock ::
  "'s CacheOps \<Rightarrow> 's Env \<Rightarrow> bool \<Rightarrow> string \<Rightarrow> string \<Rightarrow> ('s, 'e, cval) callback \<Rightarrow> int option
     \<Rightarrow> rat option \<Rightarrow> int option \<Rightarrow> int \<Rightarrow> 's \<Rightarrow> (('e + cval) \<times> int \<times> 's) option" where
  "rememberViaLock ops env atomic uuid key callback ttlSeconds lockTtl lockWait now s =
     (let (v, s1) = op_get ops now key s in
      if v \<noteq> VUndef then Some (Inr v, now, s1)
      else
        let lk = new_lock uuid \<lparr>lo_key = key,
              automaticReleaseAfterSeconds = nullish lockTtl REMEMBER_LOCK_TTL_SECONDS,
              maximumWaitForSeconds = Some (nullish lockWait REMEMBER_LOCK_WAIT_SECONDS),
              lo_retryEvery = None\<rparr> in
        case acquire ops env lk now s1 of
          None \<Rightarrow> None
        | Some (Inl _, now2, s2) \<Rightarrow>
            (let (v2, s3) = op_get ops now2 key s2 in
             Some (if v2 \<noteq> VUndef then (Inr v2, now2, s3)
                   else compute_and_put ops key callback ttlSeconds now2 s3))
        | Some (Inr lk1, now2, s2) \<Rightarrow>
            (let (v2, s3) = op_get ops now2 key s2;
                 (r, now4, s4) =
                   (if v2 \<noteq> VUndef then (Inr v2, now2, s3)
                    else compute_and_put ops key callback ttlSeconds now2 s3) in
             Some (r, now4, snd (release ops atomic now4 now4 lk1 s4))))"

section \<open>Acquiring terminates\<close>

lemma acquire_loop_returns:
  "\<exists>r. acquire_loop ops env lk (Some d) n now s = Some r"
proof (induction "nat (d - now)" arbitrary: n now s rule: less_induct)
  case less
  obtain a s1 where add: "attempt ops now lk s = (a, s1)"
    by force
  define now1 where "now1 = now + int (latency env n)"
  define now2 where "now2 = now1 + sleep_ms (retry_sleep lk (Some d) now1) + int (oversleep env n)"
  have step: "acquire_loop ops env lk (Some d) n now s =
     (if a then Some (Inr (lk\<lparr>held := True\<rparr>), now1, s1)
      else if d \<le> now1 then Some (Inl (LockTimeout (lock_name lk)), now1, s1)
      else acquire_loop ops env lk (Some d) (Suc n) now2 (others env n s1))"
    by (subst acquire_loop.simps) (simp add: add Let_def now1_def now2_def)
  show ?case
  proof (cases "a \<or> d \<le> now1")
    case True
    then show ?thesis by (auto simp: step)
  next
    case False
    then have "now < d" "now < now2" by (auto simp: now1_def now2_def sleep_ms_def)
    then have "nat (d - now2) < nat (d - now)" by simp
    from less [OF this] show ?thesis using False by (simp add: step)
  qed
qed

text \<open>
  What a finished \<open>acquire\<close> says: a success wrote this lock's entry at some time of the run; a
  timeout is never reported before the deadline.
\<close>

lemma acquire_loop_outcome:
  assumes "acquire_loop ops env lk d n now s = Some r"
  shows "case r of
      (Inl e, now', s') \<Rightarrow> e = LockTimeout (lock_name lk) \<and> (\<exists>dl. d = Some dl \<and> dl \<le> now')
    | (Inr lk', now', s') \<Rightarrow> lk' = lk\<lparr>held := True\<rparr> \<and>
        (\<exists>t s0. now \<le> t \<and> t \<le> now' \<and>
           attempt ops t lk s0 = (True, s'))"
  using assms
proof (induction rule: acquire_loop.raw_induct [rotated, consumes 1, case_names step])
  case (step rec ops env lk d n now s r)
  obtain a s1 where add: "attempt ops now lk s = (a, s1)"
    by force
  let ?now1 = "now + int (latency env n)"
  let ?now2 = "?now1 + sleep_ms (retry_sleep lk d ?now1) + int (oversleep env n)"
  have le: "now \<le> ?now2" by (simp add: sleep_ms_def)
  show ?case
  proof (cases "a \<or> (case d of None \<Rightarrow> False | Some d \<Rightarrow> d \<le> ?now1)")
    case True
    then show ?thesis using step(2) add
      by (cases a) (auto simp: Let_def attempt_def intro!: exI [of _ now] split: option.splits)
  next
    case False
    then have "rec ops env lk d (Suc n) ?now2 (others env n s1) = Some r"
      using step(2) add by (simp add: Let_def split: if_splits)
    from step(1) [OF this] show ?thesis
      by (auto split: sum.splits prod.splits) (meson le order_trans)
  qed
qed

section \<open>Several locks on one store\<close>

text \<open>
  The participants of one store: lock instances, and clients that use other keys.  The ghost
  field \<open>since\<close> is the time of an instance's last successful attempt.  Steps interleave
  arbitrarily; each is one store operation, which is atomic, or the passing of time.
\<close>

record 's LockWorld =
  ws :: 's
  clock :: int
  insts :: "nat \<Rightarrow> Lock"
  since :: "nat \<Rightarrow> int"

inductive lock_step :: "'s CacheOps \<Rightarrow> 's LockWorld \<Rightarrow> 's LockWorld \<Rightarrow> bool" for ops where
  tick: "0 \<le> d \<Longrightarrow> lock_step ops w (w\<lparr>clock := clock w + d\<rparr>)"
| got: "attempt ops (clock w) (insts w i) (ws w) = (True, s') \<Longrightarrow>
    lock_step ops w (w\<lparr>ws := s', insts := (insts w)(i := (insts w i)\<lparr>held := True\<rparr>),
                      since := (since w)(i := clock w)\<rparr>)"
| missed: "attempt ops (clock w) (insts w i) (ws w) = (False, s') \<Longrightarrow>
    lock_step ops w (w\<lparr>ws := s'\<rparr>)"
| released: "release ops True (clock w) (clock w) (insts w i) (ws w) = (lk', s') \<Longrightarrow>
    lock_step ops w (w\<lparr>ws := s', insts := (insts w)(i := lk')\<rparr>)"
| client_put: "\<forall>i. lockKey (insts w i) \<noteq> k \<Longrightarrow>
    lock_step ops w (w\<lparr>ws := op_put ops (clock w) k v ttl (ws w)\<rparr>)"
| client_forget: "\<forall>i. lockKey (insts w i) \<noteq> k \<Longrightarrow>
    lock_step ops w (w\<lparr>ws := op_forget ops (clock w) k (ws w)\<rparr>)"
| client_get: "lock_step ops w (w\<lparr>ws := snd (op_get ops (clock w) k (ws w))\<rparr>)"

text \<open>An instance holds its lock as long as it has not released it and its TTL has not passed.\<close>

definition holds :: "'s LockWorld \<Rightarrow> nat \<Rightarrow> bool" where
  "holds w i = (held (insts w i) \<and> clock w \<le> since w i + lock_ttl (insts w i) * 1000)"

definition lock_inv :: "('s \<Rightarrow> (string \<rightharpoonup> Entry)) \<Rightarrow> 's LockWorld \<Rightarrow> bool" where
  "lock_inv peek w \<longleftrightarrow> inj (\<lambda>i. owner (insts w i)) \<and>
     (\<forall>i. holds w i \<longrightarrow> live (clock w) (peek (ws w)) (lockKey (insts w i)) =
        Some (mk_entry (since w i) (VStr (owner (insts w i))) (Some (lock_ttl (insts w i)))))"

lemma lock_ttl_held [simp]: "lock_ttl (lk\<lparr>held := b\<rparr>) = lock_ttl lk"
  by (simp add: lock_ttl_def)

lemma lock_ttl_pos: "1 \<le> lock_ttl lk"
  by (simp add: lock_ttl_def)

lemma release_held:
  "fst (release ops atomic now now' lk s) = lk\<lparr>held := False\<rparr>"
  by (cases "held lk") (auto simp: release_def Let_def split: prod.splits)

context cache_store
begin

lemma attempt_True:
  assumes "attempt ops now lk s = (True, s')"
  shows "live now (peek s) (lockKey lk) = None"
    and "live now (peek s') = (live now (peek s))(lockKey lk :=
           Some (mk_entry now (VStr (owner lk)) (Some (lock_ttl lk))))"
proof -
  have add: "op_add ops now (lockKey lk) (VStr (owner lk)) (Some (lock_ttl lk)) s = (True, s')"
    using assms by (simp add: attempt_def)
  show free: "live now (peek s) (lockKey lk) = None"
    using add_result [of now "lockKey lk" "VStr (owner lk)" "Some (lock_ttl lk)" s] by (simp add: add)
  show "live now (peek s') = (live now (peek s))(lockKey lk :=
           Some (mk_entry now (VStr (owner lk)) (Some (lock_ttl lk))))"
    using add_live [of now now "lockKey lk" "VStr (owner lk)" "Some (lock_ttl lk)" s]
      lock_ttl_pos [of lk]
    by (simp add: add free expired_mk_entry)
qed

lemma attempt_False:
  assumes "attempt ops now lk s = (False, s')"
  shows "live now (peek s) (lockKey lk) \<noteq> None" and "live now (peek s') = live now (peek s)"
proof -
  have add: "op_add ops now (lockKey lk) (VStr (owner lk)) (Some (lock_ttl lk)) s = (False, s')"
    using assms by (simp add: attempt_def)
  show taken: "live now (peek s) (lockKey lk) \<noteq> None"
    using add_result [of now "lockKey lk" "VStr (owner lk)" "Some (lock_ttl lk)" s] by (simp add: add)
  then show "live now (peek s') = live now (peek s)"
    using add_live [of now now "lockKey lk" "VStr (owner lk)" "Some (lock_ttl lk)" s]
    by (auto simp: add)
qed

lemma release_atomic_live:
  assumes "release ops True now now' lk s = (lk', s')"
  shows "lk' = lk\<lparr>held := False\<rparr>"
    and "now \<le> t \<Longrightarrow> live t (peek s') =
      (if held lk \<and> value_of (live now (peek s) (lockKey lk)) = VStr (owner lk)
       then (live t (peek s))(lockKey lk := None) else live t (peek s))"
  using assms release_held [of ops True now now' lk s]
    release_live [of now t "lockKey lk" "owner lk" s]
  by (auto simp: release_def Let_def split: if_splits)

lemma lock_inv_step:
  assumes "lock_step ops w w'" "lock_inv peek w"
  shows "lock_inv peek w'"
  using assms
proof (induction rule: lock_step.induct)
  case (tick d w)
  let ?e = "\<lambda>i. mk_entry (since w i) (VStr (owner (insts w i))) (Some (lock_ttl (insts w i)))"
  have "live (clock w + d) (peek (ws w)) (lockKey (insts w i)) = Some (?e i)"
    if *: "held (insts w i)" "clock w + d \<le> since w i + lock_ttl (insts w i) * 1000" for i
  proof -
    have "holds w i" using * tick.hyps by (simp add: holds_def)
    then have "live (clock w) (peek (ws w)) (lockKey (insts w i)) = Some (?e i)"
      using tick.prems by (simp add: lock_inv_def)
    from live_later_Some [OF this, of "clock w + d"] tick.hyps show ?thesis
      using * by (simp add: expired_mk_entry)
  qed
  then show ?case using tick.prems by (simp add: lock_inv_def holds_def)
next
  case (got w i s')
  note s' = attempt_True [OF got.hyps]
  have "lockKey (insts w j) \<noteq> lockKey (insts w i) \<and> live (clock w) (peek (ws w)) (lockKey (insts w j)) =
      Some (mk_entry (since w j) (VStr (owner (insts w j))) (Some (lock_ttl (insts w j))))"
    if "holds w j" for j
  proof -
    have e: "live (clock w) (peek (ws w)) (lockKey (insts w j)) =
        Some (mk_entry (since w j) (VStr (owner (insts w j))) (Some (lock_ttl (insts w j))))"
      using got.prems that by (simp add: lock_inv_def)
    then have "lockKey (insts w j) \<noteq> lockKey (insts w i)" using s'(1) by auto
    then show ?thesis by (simp add: e)
  qed
  moreover have "(\<lambda>j. owner (if j = i then (insts w i)\<lparr>held := True\<rparr> else insts w j)) =
      (\<lambda>j. owner (insts w j))" by auto
  ultimately show ?case
    using got.prems by (auto simp: lock_inv_def holds_def s'(2))
next
  case (missed w i s')
  show ?case
    using missed.prems by (simp add: lock_inv_def holds_def attempt_False [OF missed.hyps])
next
  case (released w i lk' s')
  note r = release_atomic_live [OF released.hyps]
  note s' = r(2) [OF order_refl]
  have "live (clock w) (peek s') (lockKey (insts w j)) =
      Some (mk_entry (since w j) (VStr (owner (insts w j))) (Some (lock_ttl (insts w j))))"
    if "holds w j" "j \<noteq> i" for j
  proof -
    have e: "live (clock w) (peek (ws w)) (lockKey (insts w j)) =
        Some (mk_entry (since w j) (VStr (owner (insts w j))) (Some (lock_ttl (insts w j))))"
      using released.prems that by (simp add: lock_inv_def)
    have "owner (insts w j) \<noteq> owner (insts w i)"
      using released.prems that(2) by (auto simp: lock_inv_def dest: injD)
    then show ?thesis using e by (auto simp: s')
  qed
  moreover have "(\<lambda>j. owner (if j = i then (insts w i)\<lparr>held := False\<rparr> else insts w j)) =
      (\<lambda>j. owner (insts w j))" by auto
  ultimately show ?case
    using released.prems by (simp add: lock_inv_def holds_def r(1))
next
  case (client_put w k v ttl)
  then show ?case by (auto simp: lock_inv_def holds_def put_live)
next
  case (client_forget w k)
  then show ?case by (auto simp: lock_inv_def holds_def forget_live)
next
  case (client_get w k)
  then show ?case by (auto simp: lock_inv_def holds_def get_live)
qed

lemma lock_inv_reachable:
  assumes "(lock_step ops)\<^sup>*\<^sup>* w w'" "lock_inv peek w"
  shows "lock_inv peek w'"
  using assms by (induction rule: rtranclp_induct) (auto intro: lock_inv_step)

lemma mutual_exclusion:
  assumes "(lock_step ops)\<^sup>*\<^sup>* w w'" "\<forall>i. \<not> held (insts w i)" "inj (\<lambda>i. owner (insts w i))"
    and "holds w' i"
  shows "fst (op_get ops (clock w') (lockKey (insts w' i)) (ws w')) = VStr (owner (insts w' i))"
    and "lockKey (insts w' j) = lockKey (insts w' i) \<Longrightarrow> holds w' j \<Longrightarrow> j = i"
proof -
  have inv: "lock_inv peek w'"
    using assms(1) by (rule lock_inv_reachable) (use assms(2,3) in \<open>simp add: lock_inv_def holds_def\<close>)
  then show "fst (op_get ops (clock w') (lockKey (insts w' i)) (ws w')) = VStr (owner (insts w' i))"
    using assms(4) by (simp add: lock_inv_def get_value)
  assume same: "lockKey (insts w' j) = lockKey (insts w' i)" "holds w' j"
  then have "owner (insts w' j) = owner (insts w' i)"
    using inv assms(4) unfolding lock_inv_def
    by (metis cval.inject(2) evalue_mk_entry option.inject)
  then show "j = i"
    using inv by (auto simp: lock_inv_def dest: injD)
qed

end

section \<open>Properties of the lock on the in-memory store\<close>

lemma array_agree_release:
  "agree now (map_of (snd (release array_ops atomic now now lk st)))
     (if held lk \<and> value_of (live now (map_of st) (lockKey lk)) = VStr (owner lk)
      then (map_of st)(lockKey lk := None) else map_of st)"
proof (cases "atomic")
  case True
  then show ?thesis
    using array.release_effect [of now "lockKey lk" "owner lk" st]
    by (auto simp: release_def Let_def)
next
  case False
  obtain v s1 where get: "op_get array_ops now (lockKey lk) st = (v, s1)" by force
  have v: "v = value_of (live now (map_of st) (lockKey lk))"
    using array.get_value [of now "lockKey lk" st] by (simp add: get)
  have s1: "agree now (map_of s1) (map_of st)"
    using array.get_frame [of now "lockKey lk" st] by (simp add: get)
  then have "agree now (map_of (op_forget array_ops now (lockKey lk) s1)) ((map_of st)(lockKey lk := None))"
    by (rule agree_trans [OF array.forget_effect agree_upd])
  then show ?thesis using False s1 by (simp add: release_def get v)
qed

lemma release_value_not_owner:
  "held lk \<Longrightarrow> value_of (live now (map_of (snd (release array_ops atomic now now lk st))) (lockKey lk))
     \<noteq> VStr (owner lk)"
  using agree_live [OF array_agree_release order_refl, of now atomic lk st] by auto

text \<open>
  C4. At every moment of every interleaving of any number of lock instances (and clients that
  use other keys) on the in-memory store, two instances of one lock key never hold it at the
  same time, and while an instance holds the lock the store answers its owner token.  An
  instance holds from a successful attempt until it releases or its TTL passes.
\<close>

theorem lock_excludes:
  assumes "(lock_step array_ops)\<^sup>*\<^sup>* w w'"
    and "\<forall>i. \<not> held (insts w i)" and "inj (\<lambda>i. owner (insts w i))"
    and "holds w' i" and "holds w' j" and "lockKey (insts w' i) = lockKey (insts w' j)"
  shows "i = j \<and> fst (array_get (clock w') (lockKey (insts w' i)) (ws w')) = VStr (owner (insts w' i))"
  using array.mutual_exclusion(1) [OF assms(1-4)]
    array.mutual_exclusion(2) [OF assms(1-3,5)] assms(4-6)
  by (auto simp: array_ops_def)

definition demo_world :: "array_store LockWorld" where
  "demo_world = \<lparr>ws = [], clock = 0,
     insts = (\<lambda>i. new_lock (replicate i CHR ''x'') \<lparr>lo_key = ''jobs'', automaticReleaseAfterSeconds = 5,
       maximumWaitForSeconds = None, lo_retryEvery = None\<rparr>), since = (\<lambda>_. 0)\<rparr>"

definition demo_held :: "array_store LockWorld" where
  "demo_held = demo_world\<lparr>ws := snd (attempt array_ops 0 (insts demo_world 1) []),
     insts := (insts demo_world)(1 := (insts demo_world 1)\<lparr>held := True\<rparr>),
     since := (since demo_world)(1 := 0)\<rparr>"

lemma demo_attempt: "fst (attempt array_ops 0 (insts demo_world 1) [])"
  by (simp add: attempt_def array_ops_def array_add_def liveEntry_def demo_world_def)

theorem lock_excludes_witness:
  "fst (array_get (clock demo_held) (lockKey (insts demo_held 1)) (ws demo_held))
     = VStr (owner (insts demo_held 1))"
proof -
  have "lock_step array_ops demo_world demo_held"
    using lock_step.got [of array_ops demo_world 1 "snd (attempt array_ops 0 (insts demo_world 1) [])"]
      demo_attempt by (simp add: demo_held_def prod_eq_iff demo_world_def)
  then have "(lock_step array_ops)\<^sup>*\<^sup>* demo_world demo_held" by (rule r_into_rtranclp)
  moreover have "holds demo_held 1"
    by (simp add: holds_def demo_held_def demo_world_def lock_ttl_def new_lock_def)
  moreover have "inj (\<lambda>i. owner (insts demo_world i))"
    by (auto simp: inj_def demo_world_def new_lock_def)
  moreover have "\<forall>i. \<not> held (insts demo_world i)"
    by (simp add: demo_world_def new_lock_def)
  ultimately show ?thesis
    using lock_excludes [of demo_world demo_held 1 1] by simp
qed

text \<open>
  A bounded \<open>acquire\<close> always ends, whatever the store answers, the delays are and the other
  participants do: it either took the lock in one of its attempts, or reports a timeout, and
  never before the wait budget has passed.
\<close>

lemma acquire_terminates:
  assumes "maximumWaitForMs lk = Some w"
  shows "\<exists>r now' s'. acquire ops env lk now s = Some (r, now', s') \<and>
    (case r of
       Inl e \<Rightarrow> e = LockTimeout (lock_name lk) \<and> now + w \<le> now'
     | Inr lk' \<Rightarrow> lk' = lk\<lparr>held := True\<rparr> \<and>
         (\<exists>t s0. now \<le> t \<and> t \<le> now' \<and> attempt ops t lk s0 = (True, s')))"
proof -
  obtain r now' s' where "acquire_loop ops env lk (Some (now + w)) 0 now s = Some (r, now', s')"
    using acquire_loop_returns by (metis prod_cases3)
  then show ?thesis
    using acquire_loop_outcome [of ops env lk "Some (now + w)" 0 now s "(r, now', s')"] assms
    by (auto simp: acquire_def split: sum.splits)
qed


text \<open>
  \<open>release\<close> frees the lock exactly when this instance holds the flag and the live entry is
  its own, and otherwise leaves every observation of the store unchanged: it never releases
  another holder's lock.  Without interleaving the atomic and the portable path agree.
\<close>

lemma release_own_only:
  "fst (release array_ops atomic now now lk st) = lk\<lparr>held := False\<rparr> \<and>
   agree now (map_of (snd (release array_ops atomic now now lk st)))
     (if held lk \<and> value_of (live now (map_of st) (lockKey lk)) = VStr (owner lk)
      then (map_of st)(lockKey lk := None) else map_of st)"
  using array_agree_release release_held by auto

lemma compute_and_put_cached:
  assumes "compute_and_put array_ops key callback ttl now st = (Inr v, now', st')"
    and "\<forall>s. ttl = Some s \<longrightarrow> 0 \<le> s"
  shows "value_of (live now' (map_of st') key) = v"
proof -
  obtain st1 where st': "st' = op_put array_ops now' key v ttl st1"
    using assms(1) by (auto simp: compute_and_put_def split: prod.splits sum.splits)
  then show ?thesis
    using array.put_live [OF order_refl, of now' key v ttl st1] assms(2)
    by (auto simp: expired_mk_entry)
qed

lemma get_cached:
  assumes "op_get array_ops now key st = (v, st')"
  shows "value_of (live now (map_of st') key) = v" and "live now (map_of st') = live now (map_of st)"
  using array.get_value [of now key st] array.get_live [OF order_refl, of now key st] assms by auto

text \<open>
  \<open>rememberViaLock\<close> always returns, with every schedule of the other participants.  A value
  that is cached is returned as it is, without running the callback.  Whenever a value is
  returned, on whichever path (computed under the lock, found after waiting, computed after a
  timeout), that value is what the cache then holds for the key.
\<close>

lemma rememberViaLock_caches:
  assumes "\<forall>s. ttl = Some s \<longrightarrow> 0 \<le> s"
  shows "\<exists>r now' st'. rememberViaLock array_ops env atomic uuid key callback ttl lockTtl lockWait now st
           = Some (r, now', st') \<and>
         (\<forall>v. r = Inr v \<longrightarrow> value_of (live now' (map_of st') key) = v) \<and>
         (value_of (live now (map_of st) key) \<noteq> VUndef \<longrightarrow>
            r = Inr (value_of (live now (map_of st) key)) \<and> now' = now \<and> agree now (map_of st') (map_of st))"
proof -
  obtain v0 s0 where get0: "op_get array_ops now key st = (v0, s0)" by force
  note v0 = get_cached [OF get0]
  have agree0: "agree now (map_of s0) (map_of st)"
    using array.get_frame [of now key st] by (simp add: get0)
  show ?thesis
  proof (cases "v0 \<noteq> VUndef")
    case True
    then show ?thesis
      using v0 agree0 by (auto simp: rememberViaLock_def get0)
  next
    case False
    define lk where "lk = new_lock uuid \<lparr>lo_key = key,
        automaticReleaseAfterSeconds = nullish lockTtl REMEMBER_LOCK_TTL_SECONDS,
        maximumWaitForSeconds = Some (nullish lockWait REMEMBER_LOCK_WAIT_SECONDS),
        lo_retryEvery = None\<rparr>"
    have key: "lockKey lk \<noteq> key" by (simp add: lk_def new_lock_def)
    obtain w where w: "maximumWaitForMs lk = Some w" by (simp add: lk_def new_lock_def)
    obtain r1 now2 s2 where acq: "acquire array_ops env lk now s0 = Some (r1, now2, s2)"
      and r1: "case r1 of Inl _ \<Rightarrow> True | Inr lk' \<Rightarrow> lk' = lk\<lparr>held := True\<rparr>"
      using acquire_loop_returns [of array_ops env lk "now + w" 0 now s0]
        acquire_loop_outcome [of array_ops env lk "Some (now + w)" 0 now s0] w
      by (fastforce simp: acquire_def split: sum.splits)
    obtain v2 s3 where get2: "op_get array_ops now2 key s2 = (v2, s3)" by force
    define out where "out = (if v2 \<noteq> VUndef then (Inr v2, now2, s3)
        else compute_and_put array_ops key callback ttl now2 s3)"
    obtain r now4 s4 where out': "out = (r, now4, s4)" by (metis prod_cases3)
    have cached: "value_of (live now4 (map_of s4) key) = v" if "r = Inr v" for v
      using out' that get_cached(1) [OF get2] compute_and_put_cached [OF _ assms]
      by (auto simp: out_def split: if_splits)
    show ?thesis
    proof (cases r1)
      case (Inl e)
      then have "rememberViaLock array_ops env atomic uuid key callback ttl lockTtl lockWait now st
          = Some (r, now4, s4)"
        using False acq get2 out' by (simp add: rememberViaLock_def get0 lk_def out_def)
      then show ?thesis using cached False v0 by auto
    next
      case (Inr lk1)
      define s5 where "s5 = snd (release array_ops atomic now4 now4 lk1 s4)"
      have run: "rememberViaLock array_ops env atomic uuid key callback ttl lockTtl lockWait now st
          = Some (r, now4, s5)"
        using False acq get2 out' Inr by (simp add: rememberViaLock_def get0 lk_def out_def s5_def)
      have "lockKey lk1 \<noteq> key" using r1 Inr key by simp
      then have "live now4 (map_of s5) key = live now4 (map_of s4) key"
        using agree_live [OF array_agree_release order_refl, of now4 atomic lk1 s4]
        by (auto simp: s5_def)
      then show ?thesis using run cached False v0 by auto
    qed
  qed
qed


end
