(* ===== verification/RateLimiting.thy ===== *)
theory RateLimiting
  imports CacheStore
begin

text \<open>
  The rate limiter of \<open>framework/cache/src/rate-limiting/\<close>: the limits (\<open>limit.ts\<close>), the
  named limiters with their duplicate-key resolution, and the counters over a cache store
  (\<open>rate-limiter.ts\<close>).  The limiter awaits the store between its operations, so \<open>increment\<close> is
  a sequence of store operations that other callers can interleave: a phase machine whose
  step is one store operation.  Run alone it is the sequential method; several machines over
  one store are a step relation.  The hooks \<open>after\<close> and \<open>response\<close> are only stored by this
  package and are left out.
\<close>

section \<open>Limits and named limiters\<close>

datatype limit_kind = KLimit | KGlobalLimit | KUnlimited

record Limit =
  key :: string
  maxAttempts :: nat
  decaySeconds :: nat
  kind :: limit_kind

definition Limit_new :: "string \<Rightarrow> nat \<Rightarrow> nat \<Rightarrow> Limit" where
  "Limit_new k m d = \<lparr>key = k, maxAttempts = m, decaySeconds = d, kind = KLimit\<rparr>"

definition perSecond :: "nat \<Rightarrow> nat \<Rightarrow> Limit" where
  "perSecond m d = Limit_new [] m d"

definition perMinute :: "nat \<Rightarrow> nat \<Rightarrow> Limit" where
  "perMinute m decayMinutes = Limit_new [] m (60 * decayMinutes)"

definition perHour :: "nat \<Rightarrow> nat \<Rightarrow> Limit" where
  "perHour m decayHours = Limit_new [] m (60 * 60 * decayHours)"

definition perDay :: "nat \<Rightarrow> nat \<Rightarrow> Limit" where
  "perDay m decayDays = Limit_new [] m (60 * 60 * 24 * decayDays)"

definition GlobalLimit_new :: "nat \<Rightarrow> nat \<Rightarrow> Limit" where
  "GlobalLimit_new m d = \<lparr>key = [], maxAttempts = m, decaySeconds = d, kind = KGlobalLimit\<rparr>"

definition Unlimited_new :: Limit where
  "Unlimited_new = (GlobalLimit_new 9007199254740991 60)\<lparr>kind := KUnlimited\<rparr>"

definition by_key :: "string \<Rightarrow> Limit \<Rightarrow> Limit" where
  "by_key k l = l\<lparr>key := k\<rparr>"

definition fallbackKey :: "Limit \<Rightarrow> string" where
  "fallbackKey l =
     (if key l = [] then [] else key l @ '':'') @ ''attempts:'' @ string_of_nat (maxAttempts l)
       @ '':decay:'' @ string_of_nat (decaySeconds l)"

definition duplicateKeys :: "Limit list \<Rightarrow> string set" where
  "duplicateKeys limits = {k \<in> set (map key limits). 1 < length (filter (\<lambda>l. key l = k) limits)}"

definition resolve_limits :: "Limit list \<Rightarrow> Limit list" where
  "resolve_limits limits =
     (if duplicateKeys limits = {} then limits
      else map (\<lambda>l. if key l \<in> duplicateKeys limits then l\<lparr>key := fallbackKey l\<rparr> else l) limits)"

text \<open>The registry: \<open>for\<close> overwrites, \<open>limiter\<close> resolves the limits of the registered callback.\<close>

type_synonym 'a limiters = "string \<rightharpoonup> ('a \<Rightarrow> Limit list)"

definition register :: "string \<Rightarrow> ('a \<Rightarrow> Limit list) \<Rightarrow> 'a limiters \<Rightarrow> 'a limiters" where
  "register name callback ls = ls(name \<mapsto> callback)"

definition limiter :: "string \<Rightarrow> 'a limiters \<Rightarrow> ('a \<Rightarrow> Limit list) option" where
  "limiter name ls = map_option (\<lambda>registered args. resolve_limits (registered args)) (ls name)"

section \<open>Counters\<close>

definition timer_key :: "string \<Rightarrow> string" where
  "timer_key k = k @ '':timer''"

definition currentTime :: "int \<Rightarrow> int" where
  "currentTime now = now div 1000"

definition availableAt :: "int \<Rightarrow> int \<Rightarrow> int" where
  "availableAt now delaySeconds = currentTime now + delaySeconds"

datatype phase = SeedTimer | SeedCounter | Count | Pin int | Counted int | CountFailed cache_error

text \<open>One store operation of \<open>increment\<close>, at the time it runs.\<close>

fun increment_step ::
  "'s CacheOps \<Rightarrow> string \<Rightarrow> int \<Rightarrow> int \<Rightarrow> int \<Rightarrow> phase \<Rightarrow> 's \<Rightarrow> phase \<times> 's" where
  "increment_step ops k decay amount now SeedTimer s =
     (SeedCounter, snd (op_add ops now (timer_key k) (VNum (availableAt now decay)) (Some decay) s))"
| "increment_step ops k decay amount now SeedCounter s =
     (Count, snd (op_add ops now k (VNum 0) (Some decay) s))"
| "increment_step ops k decay amount now Count s =
     (case op_increment ops now k amount s of
        (Inl err, s') \<Rightarrow> (CountFailed err, s')
      | (Inr hits, s') \<Rightarrow> (if hits = amount then Pin hits else Counted hits, s'))"
| "increment_step ops k decay amount now (Pin hits) s =
     (Counted hits, op_put ops now k (VNum hits) (Some decay) s)"
| "increment_step ops k decay amount now (Counted hits) s = (Counted hits, s)"
| "increment_step ops k decay amount now (CountFailed err) s = (CountFailed err, s)"

text \<open>The method run without interleaving; its four operations run at four times.\<close>

type_synonym times4 = "int \<times> int \<times> int \<times> int"

fun increment :: "'s CacheOps \<Rightarrow> string \<Rightarrow> int \<Rightarrow> int \<Rightarrow> times4 \<Rightarrow> 's \<Rightarrow> phase \<times> 's" where
  "increment ops k decay amount (t1, t2, t3, t4) s =
     (let (p1, s1) = increment_step ops k decay amount t1 SeedTimer s;
          (p2, s2) = increment_step ops k decay amount t2 p1 s1;
          (p3, s3) = increment_step ops k decay amount t3 p2 s2 in
      increment_step ops k decay amount t4 p3 s3)"

definition hit :: "'s CacheOps \<Rightarrow> string \<Rightarrow> int \<Rightarrow> times4 \<Rightarrow> 's \<Rightarrow> phase \<times> 's" where
  "hit ops k decay ts s = increment ops k decay 1 ts s"

definition decrement :: "'s CacheOps \<Rightarrow> string \<Rightarrow> int \<Rightarrow> int \<Rightarrow> times4 \<Rightarrow> 's \<Rightarrow> phase \<times> 's" where
  "decrement ops k decay amount ts s = increment ops k decay (amount * -1) ts s"

definition hitAndCheck ::
  "'s CacheOps \<Rightarrow> string \<Rightarrow> int \<Rightarrow> int \<Rightarrow> times4 \<Rightarrow> 's \<Rightarrow> (cache_error + int \<times> bool) \<times> 's" where
  "hitAndCheck ops k m decay ts s =
     (case increment ops k decay 1 ts s of
        (Counted hits, s') \<Rightarrow> (Inr (hits, hits > m), s')
      | (CountFailed err, s') \<Rightarrow> (Inl err, s')
      | (_, s') \<Rightarrow> (Inr (0, False), s'))"

text \<open>
  The counter as a number; the counter's key is written by this class only, so a value that is
  not a number stands for the missing counter.
\<close>

definition as_number :: "cval \<Rightarrow> int" where
  "as_number v = (case v of VNum n \<Rightarrow> n | _ \<Rightarrow> 0)"

definition attempts :: "'s CacheOps \<Rightarrow> string \<Rightarrow> int \<Rightarrow> 's \<Rightarrow> int \<times> 's" where
  "attempts ops k now s = (let (v, s') = op_get ops now k s in (as_number v, s'))"

definition resetAttempts :: "'s CacheOps \<Rightarrow> string \<Rightarrow> int \<Rightarrow> 's \<Rightarrow> 's" where
  "resetAttempts ops k now s = op_forget ops now k s"

definition tooManyAttempts :: "'s CacheOps \<Rightarrow> string \<Rightarrow> int \<Rightarrow> int \<Rightarrow> 's \<Rightarrow> bool \<times> 's" where
  "tooManyAttempts ops k m now s =
     (let (n, s1) = attempts ops k now s in
      if n \<ge> m then
        let (timer, s2) = op_has ops now (timer_key k) s1 in
        if timer then (True, s2) else (False, resetAttempts ops k now s2)
      else (False, s1))"

text \<open>
  \<open>attempt\<close>: the callback runs between the check and the hit.  The result is \<open>None\<close> when the key
  is limited (the code's \<open>false\<close>) and the callback's value otherwise; an error it throws skips
  the hit.
\<close>

definition attempt ::
  "'s CacheOps \<Rightarrow> string \<Rightarrow> int \<Rightarrow> (int \<Rightarrow> 's \<Rightarrow> ('e + 'v) \<times> 's) \<Rightarrow> int \<Rightarrow> int \<Rightarrow> times4 \<Rightarrow> 's
     \<Rightarrow> ('e + 'v option) \<times> 's" where
  "attempt ops k m callback decay now ts s =
     (let (limited, s1) = tooManyAttempts ops k m now s in
      if limited then (Inr None, s1)
      else let (r, s2) = callback now s1 in
        case r of
          Inl e \<Rightarrow> (Inl e, s2)
        | Inr v \<Rightarrow> (Inr (Some v), snd (hit ops k decay ts s2)))"

definition remaining :: "'s CacheOps \<Rightarrow> string \<Rightarrow> int \<Rightarrow> int \<Rightarrow> 's \<Rightarrow> int \<times> 's" where
  "remaining ops k m now s = (let (n, s') = attempts ops k now s in (max 0 (m - n), s'))"

definition clear :: "'s CacheOps \<Rightarrow> string \<Rightarrow> int \<Rightarrow> 's \<Rightarrow> 's" where
  "clear ops k now s = op_forget ops now (timer_key k) (resetAttempts ops k now s)"

definition availableIn :: "'s CacheOps \<Rightarrow> string \<Rightarrow> int \<Rightarrow> 's \<Rightarrow> int \<times> 's" where
  "availableIn ops k now s =
     (let (v, s') = op_get ops now (timer_key k) s in (max 0 (as_number v - currentTime now), s'))"

text \<open>Several calls, one after the other.\<close>

fun hitAndCheck_all ::
  "'s CacheOps \<Rightarrow> string \<Rightarrow> int \<Rightarrow> int \<Rightarrow> times4 list \<Rightarrow> 's \<Rightarrow> (cache_error + int \<times> bool) list \<times> 's" where
  "hitAndCheck_all ops k m decay [] s = ([], s)"
| "hitAndCheck_all ops k m decay (ts # tss) s =
     (let (r, s1) = hitAndCheck ops k m decay ts s;
          (rs, s2) = hitAndCheck_all ops k m decay tss s1 in (r # rs, s2))"

section \<open>Interleaved callers\<close>

text \<open>
  Any number of callers increment one key, each with its own decay and amount; another
  participant may clear the key at any time.
\<close>

record 's HitWorld =
  hw_store :: 's
  hw_clock :: int
  hw_phase :: "nat \<Rightarrow> phase"

inductive hit_world_step ::
  "'s CacheOps \<Rightarrow> string \<Rightarrow> (nat \<Rightarrow> int) \<Rightarrow> (nat \<Rightarrow> int) \<Rightarrow> 's HitWorld \<Rightarrow> 's HitWorld \<Rightarrow> bool"
  for ops k decay amount where
  tick: "0 \<le> d \<Longrightarrow> hit_world_step ops k decay amount w (w\<lparr>hw_clock := hw_clock w + d\<rparr>)"
| advance: "increment_step ops k (decay i) (amount i) (hw_clock w) (hw_phase w i) (hw_store w) = (p, s) \<Longrightarrow>
    hit_world_step ops k decay amount w (w\<lparr>hw_store := s, hw_phase := (hw_phase w)(i := p)\<rparr>)"
| cleared: "hit_world_step ops k decay amount w (w\<lparr>hw_store := clear ops k (hw_clock w) (hw_store w)\<rparr>)"

lemma timer_key_neq [simp]: "timer_key k \<noteq> k" "k \<noteq> timer_key k"
  by (auto simp: timer_key_def)

definition expires :: "Entry option \<Rightarrow> bool" where
  "expires e = (case e of None \<Rightarrow> True | Some x \<Rightarrow> expiresAt x \<noteq> None)"

text \<open>A counter without an expiry is about to be pinned by some caller.\<close>

definition pin_inv :: "('s \<Rightarrow> (string \<rightharpoonup> Entry)) \<Rightarrow> string \<Rightarrow> 's HitWorld \<Rightarrow> bool" where
  "pin_inv peek k w \<longleftrightarrow>
     expires (live (hw_clock w) (peek (hw_store w)) k) \<or> (\<exists>i hits. hw_phase w i = Pin hits)"

lemma expires_later: "expires (live t m k) \<Longrightarrow> t \<le> t' \<Longrightarrow> expires (live t' m k)"
  using live_later_None [of t m k t'] live_later_Some [of t m k _ t']
  by (cases "live t m k") (auto simp: expires_def)

lemma expires_mk_entry [simp]: "expires (Some (mk_entry now v (Some d)))"
  by (simp add: expires_def mk_entry_def)

definition counter_at :: "('s \<Rightarrow> (string \<rightharpoonup> Entry)) \<Rightarrow> string \<Rightarrow> int \<Rightarrow> int \<Rightarrow> int \<Rightarrow> 's \<Rightarrow> bool" where
  "counter_at peek k n D t s \<longleftrightarrow>
     (\<exists>x. live t (peek s) k = Some \<lparr>evalue = VNum n, expiresAt = Some x\<rparr> \<and> D \<le> x)"

text \<open>The calls' operations run in order, none after the end of the window.\<close>

fun in_window :: "int \<Rightarrow> times4 list \<Rightarrow> int \<Rightarrow> bool" where
  "in_window t0 [] D = True"
| "in_window t0 ((t1, t2, t3, t4) # tss) D =
     (t0 \<le> t1 \<and> t1 \<le> t2 \<and> t2 \<le> t3 \<and> t3 \<le> t4 \<and> t4 \<le> D \<and> in_window t4 tss D)"

context cache_store
begin

lemma increment_live:
  assumes "op_increment ops now k a s = (Inr n, s')"
  shows "live now (peek s') = (live now (peek s))(k :=
      (let e = \<lparr>evalue = VNum n, expiresAt = (case live now (peek s) k of None \<Rightarrow> None | Some e \<Rightarrow> expiresAt e)\<rparr>
       in if expired now e then None else Some e))"
    and "live now (peek s) k = None \<Longrightarrow> n = a"
    and "numericValue [] k (value_of (live now (peek s) k)) = Inr (n - a)"
proof -
  obtain m where num: "numericValue [] k (value_of (live now (peek s) k)) = Inr m"
    using increment_result [of "[]" k now s a] assms
    by (cases "numericValue [] k (value_of (live now (peek s) k))") auto
  note eff = increment_effect [OF num, of a]
  then show n: "numericValue [] k (value_of (live now (peek s) k)) = Inr (n - a)"
    using num assms by auto
  then show "live now (peek s) k = None \<Longrightarrow> n = a" by (simp add: numericValue_def)
  show "live now (peek s') = (live now (peek s))(k :=
      (let e = \<lparr>evalue = VNum n, expiresAt = (case live now (peek s) k of None \<Rightarrow> None | Some e \<Rightarrow> expiresAt e)\<rparr>
       in if expired now e then None else Some e))"
    using eff agree_live [OF conjunct2 [OF eff] order_refl] assms by (simp add: Let_def)
qed

lemma increment_failed_live:
  assumes "op_increment ops now k a s = (Inl err, s')"
  shows "live now (peek s') = live now (peek s)"
proof -
  have "\<exists>err. numericValue [] k (value_of (live now (peek s) k)) = Inl err"
    using increment_effect [of "[]" k now s _ a] assms
    by (cases "numericValue [] k (value_of (live now (peek s) k))") auto
  from increment_result [OF this, of a] show ?thesis
    using agree_live [of now "peek s'" "peek s" now] assms by simp
qed

lemma add_expires:
  assumes "expires (live now (peek s) k)"
  shows "expires (live now (peek (snd (op_add ops now k' v (Some d) s))) k)"
  using assms add_live [of now now k' v "Some d" s] by (auto simp: expires_def mk_entry_def)

lemma pin_inv_step:
  assumes "hit_world_step ops k decay amount w w'" "pin_inv peek k w"
  shows "pin_inv peek k w'"
  using assms
proof (induction rule: hit_world_step.induct)
  case (tick d w)
  then show ?case by (auto simp: pin_inv_def intro: expires_later [of "hw_clock w"])
next
  case (advance i w p s)
  let ?t = "hw_clock w"
  have goal: ?case if "expires (live ?t (peek s) k) \<or> (\<exists>j hits. j \<noteq> i \<and> hw_phase w j = Pin hits) \<or>
      (\<exists>hits. p = Pin hits)"
    using that by (auto simp: pin_inv_def)
  have old: "expires (live ?t (peek (hw_store w)) k) \<or> (\<exists>j hits. j \<noteq> i \<and> hw_phase w j = Pin hits)"
    if "\<forall>hits. hw_phase w i \<noteq> Pin hits"
    using advance.prems that unfolding pin_inv_def by metis
  show ?case
  proof (cases "hw_phase w i")
    case SeedTimer
    then have "s = snd (op_add ops ?t (timer_key k) (VNum (availableAt ?t (decay i))) (Some (decay i)) (hw_store w))"
      using advance.hyps by simp
    then show ?thesis
      using old SeedTimer add_expires [of ?t "hw_store w" k] by (intro goal) auto
  next
    case SeedCounter
    then have "s = snd (op_add ops ?t k (VNum 0) (Some (decay i)) (hw_store w))"
      using advance.hyps by simp
    then show ?thesis
      using old SeedCounter add_expires [of ?t "hw_store w" k] by (intro goal) auto
  next
    case Count
    obtain r s1 where inc: "op_increment ops ?t k (amount i) (hw_store w) = (r, s1)" by force
    show ?thesis
    proof (cases r)
      case (Inl err)
      then have "live ?t (peek s) = live ?t (peek (hw_store w))"
        using increment_failed_live [of ?t k "amount i" "hw_store w"] inc advance.hyps Count by auto
      then show ?thesis using old Count by (intro goal) auto
    next
      case (Inr n)
      have s: "s = s1" using advance.hyps Count inc Inr by (auto split: if_splits)
      note eff = increment_live [OF inc [unfolded Inr]]
      show ?thesis
      proof (cases "live ?t (peek (hw_store w)) k")
        case None
        then show ?thesis
          using eff(2) advance.hyps Count inc Inr by (intro goal) (auto split: if_splits)
      next
        case (Some e)
        then have "expires (live ?t (peek (hw_store w)) k) \<Longrightarrow> expires (live ?t (peek s) k)"
          by (simp add: s eff(1) Let_def expires_def)
        then show ?thesis using old Count by (intro goal) auto
      qed
    qed
  next
    case (Pin hits)
    then have "s = op_put ops ?t k (VNum hits) (Some (decay i)) (hw_store w)"
      using advance.hyps by simp
    then show ?thesis by (intro goal) (simp add: put_live expires_def mk_entry_def)
  next
    case (Counted n)
    then show ?thesis using advance old by (intro goal) auto
  next
    case (CountFailed err)
    then show ?thesis using advance old by (intro goal) auto
  qed
next
  case (cleared w)
  then show ?case
    by (simp add: pin_inv_def clear_def resetAttempts_def forget_live expires_def)
qed

lemma pin_inv_reachable:
  assumes "(hit_world_step ops k decay amount)\<^sup>*\<^sup>* w w'" "pin_inv peek k w"
  shows "pin_inv peek k w'"
  using assms by (induction rule: rtranclp_induct) (auto intro: pin_inv_step)

lemma hit_first:
  assumes free: "live t1 (peek s) k = None"
    and times: "t1 \<le> t2" "t2 \<le> t3" "t3 \<le> t4" "t4 \<le> D" "D \<le> t1 + decay * 1000"
  shows "\<exists>s'. increment ops k decay 1 (t1, t2, t3, t4) s = (Counted 1, s') \<and> counter_at peek k 1 D t4 s'"
proof -
  obtain r1 s1 where 1: "op_add ops t1 (timer_key k) (VNum (availableAt t1 decay)) (Some decay) s = (r1, s1)"
    by force
  have "live t2 (peek s) k = None" using live_later_None [OF free times(1)] .
  then have free2: "live t2 (peek s1) k = None"
    using add_live [OF times(1), of "timer_key k" "VNum (availableAt t1 decay)" "Some decay" s]
    by (auto simp: 1 split: if_splits)
  obtain r2 s2 where 2: "op_add ops t2 k (VNum 0) (Some decay) s1 = (r2, s2)" by force
  have live3: "live t3 (peek s2) k = Some (mk_entry t2 (VNum 0) (Some decay))"
    using add_live [OF times(2), of k "VNum 0" "Some decay" s1] free2 times
    by (simp add: 2 expired_mk_entry)
  obtain r3 s3 where 3: "op_increment ops t3 k 1 s2 = (r3, s3)" by force
  have "r3 = Inr 1"
    using increment_effect [of "[]" k t3 s2 0 1] by (simp add: live3 3 numericValue_def)
  then have "increment ops k decay 1 (t1, t2, t3, t4) s = (Counted 1, op_put ops t4 k (VNum 1) (Some decay) s3)"
    using 1 2 3 by simp
  then show ?thesis
    using put_live [OF order_refl, of t4 k "VNum 1" "Some decay" s3] times
    by (auto simp: counter_at_def mk_entry_def expired_def)
qed

lemma hit_next:
  assumes cnt: "counter_at peek k n D t0 s" and n: "1 \<le> n"
    and times: "t0 \<le> t1" "t1 \<le> t2" "t2 \<le> t3" "t3 \<le> t4" "t4 \<le> D"
  shows "\<exists>s'. increment ops k decay 1 (t1, t2, t3, t4) s = (Counted (n + 1), s') \<and>
    counter_at peek k (n + 1) D t4 s'"
proof -
  obtain x where x: "live t0 (peek s) k = Some \<lparr>evalue = VNum n, expiresAt = Some x\<rparr>" "D \<le> x"
    using cnt by (auto simp: counter_at_def)
  have at: "live t (peek s) k = Some \<lparr>evalue = VNum n, expiresAt = Some x\<rparr>" if "t0 \<le> t" "t \<le> D" for t
    using live_later_Some [OF x(1) that(1)] that x(2) by (simp add: expired_def)
  obtain r1 s1 where 1: "op_add ops t1 (timer_key k) (VNum (availableAt t1 decay)) (Some decay) s = (r1, s1)"
    by force
  have at1: "live t (peek s1) k = Some \<lparr>evalue = VNum n, expiresAt = Some x\<rparr>" if "t1 \<le> t" "t \<le> D" for t
    using add_live [OF that(1), of "timer_key k" "VNum (availableAt t1 decay)" "Some decay" s]
      at [of t] that times by (auto simp: 1)
  obtain r2 s2 where 2: "op_add ops t2 k (VNum 0) (Some decay) s1 = (r2, s2)" by force
  have at2: "live t (peek s2) k = Some \<lparr>evalue = VNum n, expiresAt = Some x\<rparr>" if "t2 \<le> t" "t \<le> D" for t
    using add_live [OF that(1), of k "VNum 0" "Some decay" s1] at1 [of t] at1 [of t2] that times
    by (auto simp: 2)
  obtain r3 s3 where 3: "op_increment ops t3 k 1 s2 = (r3, s3)" by force
  have live3: "live t3 (peek s2) k = Some \<lparr>evalue = VNum n, expiresAt = Some x\<rparr>"
    using at2 times by simp
  have eff: "r3 = Inr (n + 1)"
    "agree t3 (peek s3) ((peek s2)(k \<mapsto> \<lparr>evalue = VNum (n + 1), expiresAt = Some x\<rparr>))"
    using increment_effect [of "[]" k t3 s2 n 1] by (auto simp: live3 3 numericValue_def)
  have "live t4 (peek s3) k = Some \<lparr>evalue = VNum (n + 1), expiresAt = Some x\<rparr>"
    using agree_live [OF eff(2) times(4)] x(2) times by (simp add: expired_def)
  then have "counter_at peek k (n + 1) D t4 s3" using x(2) by (auto simp: counter_at_def)
  moreover have "increment ops k decay 1 (t1, t2, t3, t4) s = (Counted (n + 1), s3)"
    using 1 2 3 eff(1) n by simp
  ultimately show ?thesis by blast
qed

lemma hits_next:
  assumes "counter_at peek k n D t0 s" "1 \<le> n" "in_window t0 tss D"
  shows "fst (hitAndCheck_all ops k m decay tss s) =
    map (\<lambda>i. Inr (n + 1 + int i, n + 1 + int i > m)) [0..<length tss]"
  using assms
proof (induction tss arbitrary: n t0 s)
  case Nil
  then show ?case by simp
next
  case (Cons ts tss)
  obtain t1 t2 t3 t4 where ts: "ts = (t1, t2, t3, t4)" by (metis prod_cases4)
  obtain s1 where s1: "increment ops k decay 1 ts s = (Counted (n + 1), s1)" "counter_at peek k (n + 1) D t4 s1"
    using hit_next [OF Cons.prems(1,2), of t1 t2 t3 t4 decay] Cons.prems(3) ts by auto
  have "fst (hitAndCheck_all ops k m decay tss s1) =
      map (\<lambda>i. Inr (n + 1 + 1 + int i, n + 1 + 1 + int i > m)) [0..<length tss]"
    by (rule Cons.IH [OF s1(2)]) (use Cons.prems ts in auto)
  then show ?case
    by (simp add: hitAndCheck_def s1(1) map_upt_Suc split_beta del: upt_Suc) (simp add: algebra_simps)
qed

lemma hits_from_fresh:
  assumes "live start (peek s) k = None" "in_window start tss (start + decay * 1000)"
  shows "fst (hitAndCheck_all ops k m decay tss s) =
    map (\<lambda>i. Inr (1 + int i, 1 + int i > m)) [0..<length tss]"
proof (cases tss)
  case Nil
  then show ?thesis by simp
next
  case (Cons ts tss')
  obtain t1 t2 t3 t4 where ts: "ts = (t1, t2, t3, t4)" by (metis prod_cases4)
  let ?D = "start + decay * 1000"
  have w: "start \<le> t1" "t1 \<le> t2" "t2 \<le> t3" "t3 \<le> t4" "t4 \<le> ?D" "in_window t4 tss' ?D"
    using assms(2) by (auto simp: Cons ts)
  have free: "live t1 (peek s) k = None" using live_later_None [OF assms(1) w(1)] .
  obtain s1 where s1: "increment ops k decay 1 ts s = (Counted 1, s1)" "counter_at peek k 1 ?D t4 s1"
    using hit_first [OF free w(2-5), of decay] w(1) ts by auto
  have "fst (hitAndCheck_all ops k m decay tss' s1) =
      map (\<lambda>i. Inr (1 + 1 + int i, 1 + 1 + int i > m)) [0..<length tss']"
    by (rule hits_next [OF s1(2) _ w(6)]) simp
  then show ?thesis
    by (simp add: Cons hitAndCheck_def s1(1) map_upt_Suc split_beta del: upt_Suc)
qed

lemma tooManyAttempts_live:
  defines "n \<equiv> \<lambda>s now k. as_number (value_of (live now (peek s) k))"
  assumes "tooManyAttempts ops k m now s = (b, s')"
  shows "b \<longleftrightarrow> m \<le> n s now k \<and> value_of (live now (peek s) (timer_key k)) \<noteq> VUndef"
    and "live now (peek s') = (if m \<le> n s now k \<and> \<not> b then (live now (peek s))(k := None)
           else live now (peek s))"
proof -
  obtain v s1 where get: "op_get ops now k s = (v, s1)" by force
  obtain t s2 where has: "op_has ops now (timer_key k) s1 = (t, s2)" by force
  have v: "v = value_of (live now (peek s) k)" using get_value [of now k s] by (simp add: get)
  have s1: "live now (peek s1) = live now (peek s)" using get_live [OF order_refl, of now k s] by (simp add: get)
  have t: "t \<longleftrightarrow> value_of (live now (peek s) (timer_key k)) \<noteq> VUndef"
    using has_value [of now "timer_key k" s1] by (simp add: has s1)
  have s2: "live now (peek s2) = live now (peek s)"
    using has_live [OF order_refl, of now "timer_key k" s1] by (simp add: has s1)
  show "b \<longleftrightarrow> m \<le> n s now k \<and> value_of (live now (peek s) (timer_key k)) \<noteq> VUndef"
    using assms(2) by (auto simp: tooManyAttempts_def attempts_def get has v t n_def split: if_splits)
  show "live now (peek s') = (if m \<le> n s now k \<and> \<not> b then (live now (peek s))(k := None)
           else live now (peek s))"
    using assms(2) forget_live [OF order_refl, of now k s2] s1 s2
    by (auto simp: tooManyAttempts_def attempts_def resetAttempts_def get has v n_def split: if_splits)
qed

lemma clear_resets:
  "fst (attempts ops k now (clear ops k now s)) = 0"
  "fst (availableIn ops k now (clear ops k now s)) = max 0 (- currentTime now)"
  "fst (remaining ops k m now (clear ops k now s)) = max 0 m"
  by (simp_all add: attempts_def remaining_def availableIn_def clear_def resetAttempts_def split_beta
      get_value forget_live as_number_def)

end

section \<open>Properties\<close>

text \<open>
  Calls of \<open>hitAndCheck\<close> that do not overlap, made within one window on a key whose counter
  is not live, are counted exactly: the i-th call reports i hits, and \<open>exceeded\<close> from the
  first call past the limit on, whatever the delays between the store operations of a call.
\<close>

lemma hits_are_counted:
  assumes "live start (map_of st) k = None" and "in_window start tss (start + decay * 1000)"
  shows "fst (hitAndCheck_all array_ops k m decay tss st) =
    map (\<lambda>i. Inr (1 + int i, 1 + int i > m)) [0..<length tss]"
  using assms by (rule array.hits_from_fresh)


text \<open>
  C5. With any number of overlapping callers, each of any decay and amount, and clears at any
  moment, a counter is never left without an expiry: whenever no caller is at its pinning
  step, the live counter has one.  No key can be locked out for ever.
\<close>

theorem counter_always_expires:
  assumes "(hit_world_step array_ops k decay amount)\<^sup>*\<^sup>* w w'"
    and "expires (live (hw_clock w) (map_of (hw_store w)) k)"
    and "\<forall>i hits. hw_phase w' i \<noteq> Pin hits"
  shows "expires (live (hw_clock w') (map_of (hw_store w')) k)"
  using array.pin_inv_reachable [OF assms(1)] assms(2,3) unfolding pin_inv_def by blast

definition hit_start :: "array_store HitWorld" where
  "hit_start = \<lparr>hw_store = [], hw_clock = 0, hw_phase = (\<lambda>_. SeedTimer)\<rparr>"

definition advance_caller ::
  "string \<Rightarrow> int \<Rightarrow> int \<Rightarrow> nat \<Rightarrow> array_store HitWorld \<Rightarrow> array_store HitWorld" where
  "advance_caller k decay amount i w =
     (let (p, s) = increment_step array_ops k decay amount (hw_clock w) (hw_phase w i) (hw_store w) in
      w\<lparr>hw_store := s, hw_phase := (hw_phase w)(i := p)\<rparr>)"

lemma advance_caller_step:
  "hit_world_step array_ops k (\<lambda>_. decay) (\<lambda>_. amount) w (advance_caller k decay amount i w)"
  using hit_world_step.advance [of array_ops k "\<lambda>_. decay" i "\<lambda>_. amount" w]
  by (simp add: advance_caller_def split_beta)

lemma schedule_reachable:
  "(hit_world_step array_ops k (\<lambda>_. decay) (\<lambda>_. amount))\<^sup>*\<^sup>* w (fold (advance_caller k decay amount) sched w)"
proof (induction sched arbitrary: w)
  case Nil
  then show ?case by simp
next
  case (Cons i sched)
  show ?case
    by simp (rule converse_rtranclp_into_rtranclp [OF advance_caller_step Cons.IH])
qed

lemmas advance_eval = advance_caller_def hit_start_def array_ops_def array_add_def array_put_def
  array_increment_def liveEntry_def numericValue_def mk_entry_def timer_key_def
  availableAt_def currentTime_def expired_def

theorem counter_always_expires_witness:
  "expires (live 0 (map_of (hw_store (fold (advance_caller ''k'' 60 1) [0, 0, 0, 0] hit_start))) ''k'')"
proof -
  have "\<forall>i hits. hw_phase (fold (advance_caller ''k'' 60 1) [0, 0, 0, 0] hit_start) i \<noteq> Pin hits"
    by (simp add: advance_eval)
  moreover have "hw_clock (fold (advance_caller ''k'' 60 1) [0, 0, 0, 0] hit_start) = 0"
    by (simp add: advance_eval)
  ultimately show ?thesis
    using counter_always_expires [OF schedule_reachable [of "''k''" 60 1 hit_start "[0, 0, 0, 0]"]]
    by (simp add: hit_start_def live_def expires_def)
qed

text \<open>
  The limit is not strict under overlapping callers: when the second caller counts between
  the first caller's count and its pinning write, the write sets the counter back to 1, and a
  third caller is admitted; three callers of one window are within a limit of two.
\<close>

lemma overlapping_hits_are_lost:
  "\<exists>w h0 h1 h2. (hit_world_step array_ops ''k'' (\<lambda>_. 60) (\<lambda>_. 1))\<^sup>*\<^sup>* hit_start w \<and> hw_clock w = 0 \<and>
     hw_phase w 0 = Counted h0 \<and> hw_phase w 1 = Counted h1 \<and> hw_phase w 2 = Counted h2 \<and>
     h0 \<le> 2 \<and> h1 \<le> 2 \<and> h2 \<le> 2"
proof -
  let ?w = "fold (advance_caller ''k'' 60 1) [0, 0, 1, 1, 0, 1, 0, 2, 2, 2] hit_start"
  have "hw_clock ?w = 0 \<and> hw_phase ?w 0 = Counted 1 \<and> hw_phase ?w 1 = Counted 2 \<and>
      hw_phase ?w 2 = Counted 2"
    by (simp add: advance_eval)
  moreover have "(hit_world_step array_ops ''k'' (\<lambda>_. 60) (\<lambda>_. 1))\<^sup>*\<^sup>* hit_start ?w"
    by (rule schedule_reachable)
  ultimately show ?thesis by (intro exI [of _ ?w]) simp
qed

text \<open>
  \<open>tooManyAttempts\<close> answers true exactly when the counter has reached the limit while the
  window's timer is live; a full counter whose timer is gone is dropped, and nothing else
  changes.  A limited \<open>attempt\<close> does not run its callback.
\<close>

lemma tooManyAttempts_spec:
  assumes "tooManyAttempts array_ops k m now st = (b, st')"
  shows "(b \<longleftrightarrow> m \<le> as_number (value_of (live now (map_of st) k)) \<and>
            value_of (live now (map_of st) (timer_key k)) \<noteq> VUndef) \<and>
    live now (map_of st') =
      (if m \<le> as_number (value_of (live now (map_of st) k)) \<and> \<not> b
       then (live now (map_of st))(k := None) else live now (map_of st)) \<and>
    (b \<longrightarrow> (\<forall>callback. attempt array_ops k m callback decay now ts st = (Inr None, st')))"
proof (intro conjI impI allI)
  show "attempt array_ops k m callback decay now ts st = (Inr None, st')" if b for callback
    using assms that by (simp add: attempt_def)
qed (use array.tooManyAttempts_live [OF assms] in auto)


section \<open>Named limiters never share a counter by accident\<close>

lemma digits_suffix_inject:
  assumes "a @ c # d = b @ c' # d'" and "\<not> is_digit c" "\<not> is_digit c'"
    and "\<forall>x \<in> set d. is_digit x" "\<forall>x \<in> set d'. is_digit x"
  shows "a = b \<and> c = c' \<and> d = d'"
proof -
  have rev_eq: "rev d @ c # rev a = rev d' @ c' # rev b"
    using arg_cong [OF assms(1), of rev] by simp
  have "takeWhile is_digit (rev d @ c # rev a) = rev d" "takeWhile is_digit (rev d' @ c' # rev b) = rev d'"
    using assms by (auto simp: takeWhile_append)
  then have "rev d = rev d'" using rev_eq by metis
  then show ?thesis using rev_eq by simp
qed

definition limit_tail :: "Limit \<Rightarrow> string" where
  "limit_tail l = ''attempts:'' @ string_of_nat (maxAttempts l) @ '':decay:'' @ string_of_nat (decaySeconds l)"

lemma limit_tail_inject:
  assumes "a @ limit_tail l = b @ limit_tail l'"
  shows "a = b \<and> maxAttempts l = maxAttempts l' \<and> decaySeconds l = decaySeconds l'"
proof -
  have 1: "(a @ ''attempts:'' @ string_of_nat (maxAttempts l) @ '':decay'') @ CHR '':'' # string_of_nat (decaySeconds l)
      = (b @ ''attempts:'' @ string_of_nat (maxAttempts l') @ '':decay'') @ CHR '':'' # string_of_nat (decaySeconds l')"
    using assms by (simp add: limit_tail_def)
  have nd: "\<not> is_digit CHR '':''" by (simp add: is_digit_def)
  from digits_suffix_inject [OF 1 nd nd]
  have d: "decaySeconds l = decaySeconds l'"
    and 2: "a @ ''attempts:'' @ string_of_nat (maxAttempts l) = b @ ''attempts:'' @ string_of_nat (maxAttempts l')"
    using string_of_nat_digits by auto
  from 2 have "(a @ ''attempts'') @ CHR '':'' # string_of_nat (maxAttempts l)
      = (b @ ''attempts'') @ CHR '':'' # string_of_nat (maxAttempts l')" by simp
  from digits_suffix_inject [OF this nd nd] string_of_nat_digits d show ?thesis by auto
qed

lemma fallbackKey_tail:
  "fallbackKey l = (if key l = [] then [] else key l @ '':'') @ limit_tail l"
  by (simp add: fallbackKey_def limit_tail_def)

lemma fallbackKey_inject:
  "fallbackKey l = fallbackKey l' \<longleftrightarrow>
     key l = key l' \<and> maxAttempts l = maxAttempts l' \<and> decaySeconds l = decaySeconds l'"
proof
  assume "fallbackKey l = fallbackKey l'"
  from limit_tail_inject [OF this [unfolded fallbackKey_tail]]
  show "key l = key l' \<and> maxAttempts l = maxAttempts l' \<and> decaySeconds l = decaySeconds l'"
    by (auto split: if_splits)
qed (simp add: fallbackKey_def)

lemma distinct_map_nthI:
  "(\<And>i j. i < length xs \<Longrightarrow> j < length xs \<Longrightarrow> f (xs ! i) = f (xs ! j) \<Longrightarrow> i = j) \<Longrightarrow>
    distinct (map f xs)"
  by (auto simp: distinct_conv_nth)

lemma duplicateKeys_nth:
  assumes "i < length ls" "j < length ls" "i \<noteq> j" "key (ls ! i) = key (ls ! j)"
  shows "key (ls ! i) \<in> duplicateKeys ls"
proof -
  have sub: "{i, j} \<subseteq> {n. n < length ls \<and> key (ls ! n) = key (ls ! i)}" using assms by auto
  have "card {i, j} \<le> card {n. n < length ls \<and> key (ls ! n) = key (ls ! i)}"
    by (rule card_mono [OF _ sub]) simp
  then have "1 < length (filter (\<lambda>l. key l = key (ls ! i)) ls)"
    using assms(3) by (simp add: length_filter_conv_card)
  then show ?thesis using assms(1) by (simp add: duplicateKeys_def)
qed

lemma resolve_limits_map:
  "resolve_limits ls = map (\<lambda>l. if key l \<in> duplicateKeys ls then l\<lparr>key := fallbackKey l\<rparr> else l) ls"
  by (simp add: resolve_limits_def)

text \<open>
  The limits a named limiter resolves have pairwise different counter keys, provided that
  those it returns with one key differ in their attempts or their decay, and that no explicit
  key looks like a generated one.
\<close>

lemma limiter_disambiguates:
  assumes "limiter name ls = Some f" and "ls name = Some registered"
    and "distinct (map (\<lambda>l. (key l, maxAttempts l, decaySeconds l)) (registered args))"
    and "\<forall>l \<in> set (registered args). \<forall>l' \<in> set (registered args). key l \<noteq> fallbackKey l'"
  shows "distinct (map key (f args))"
proof -
  let ?ls = "registered args"
  have f: "f args = resolve_limits ?ls" using assms(1,2) by (auto simp: limiter_def)
  let ?r = "\<lambda>l. if key l \<in> duplicateKeys ?ls then l\<lparr>key := fallbackKey l\<rparr> else l"
  have "distinct (map (\<lambda>l. key (?r l)) ?ls)"
  proof (rule distinct_map_nthI)
    fix i j assume ij: "i < length ?ls" "j < length ?ls" "key (?r (?ls ! i)) = key (?r (?ls ! j))"
    have neq: "key (?ls ! i) \<noteq> fallbackKey (?ls ! j)" "fallbackKey (?ls ! i) \<noteq> key (?ls ! j)"
      using assms(4) ij(1,2) nth_mem by metis+
    have same: "key (?ls ! i) = key (?ls ! j)" and dup: "key (?ls ! i) \<in> duplicateKeys ?ls \<Longrightarrow>
        maxAttempts (?ls ! i) = maxAttempts (?ls ! j) \<and> decaySeconds (?ls ! i) = decaySeconds (?ls ! j)"
      using ij(3) neq by (auto simp: fallbackKey_inject split: if_splits)
    show "i = j"
    proof (rule ccontr)
      assume "i \<noteq> j"
      from dup [OF duplicateKeys_nth [OF ij(1,2) this same]] same \<open>i \<noteq> j\<close>
      show False using assms(3) ij(1,2) by (auto simp: distinct_conv_nth)
    qed
  qed
  then show ?thesis by (simp add: f resolve_limits_map comp_def)
qed

text \<open>
  Two limits with the same key, attempts and decay still share one counter: the generated
  key is the same for both.
\<close>

lemma identical_limits_collide:
  "map key (resolve_limits [perMinute m d, perMinute m d])
     = replicate 2 (''attempts:'' @ string_of_nat m @ '':decay:'' @ string_of_nat (60 * d))"
  by (simp add: resolve_limits_map duplicateKeys_def perMinute_def Limit_new_def fallbackKey_def
      numeral_2_eq_2)

end
