(* ===== verification/QueueTables.thy ===== *)
theory QueueTables
  imports JsPrelude
begin

text \<open>
  The database queue driver of \<open>framework/queue/src/drivers/database-queue-driver.ts\<close> over
  the tables of \<open>migrations/0001_create_jobs_table.ts\<close> and \<open>0002_queue_reliability.ts\<close>.
  A table is a list of rows; \<open>jobs.id\<close> is auto-increment and \<open>failed_jobs.id\<close> is a primary key
  without one.  A statement is atomic, and so is a transaction; the SQLite reservation is
  several statements, which other workers may interleave.  Timestamps are whole epoch seconds:
  the code's fixed-width strings compare as they do.  A payload or chain column holds JSON
  text; it is modelled by the value itself, JSON being faithful on the plain data a job state
  consists of.
\<close>

section \<open>Tables\<close>

record 'p ChainedJob =
  cj_class :: string
  cj_state :: 'p

record 'p JobRow =
  jid :: nat
  jqueue :: string
  job_class :: string
  payload :: 'p
  jattempts :: nat
  available_at :: int
  reserved_at :: "int option"
  created_at :: int
  chain_json :: "'p ChainedJob list option"

record 'p FailedJobRow =
  fid :: nat
  fconnection :: "string option"
  fqueue :: "string option"
  fclass :: string
  fpayload :: 'p
  fchain_json :: "'p ChainedJob list option"
  ferror :: string
  failed_at :: int

record 'p QueueDb =
  jobs :: "'p JobRow list"
  next_id :: nat
  failed_jobs :: "'p FailedJobRow list"

datatype dialect = Sqlite | Mysql | Postgres

record Driver =
  queue :: string
  retryAfterSeconds :: int
  popBatchSize :: nat
  dialect :: dialect
  connectionName :: "string option"

text \<open>The constructor's defaults.\<close>

definition new_driver ::
  "dialect \<Rightarrow> string option \<Rightarrow> int option \<Rightarrow> nat option \<Rightarrow> string option \<Rightarrow> Driver" where
  "new_driver d q retryAfter batch conn =
     \<lparr>queue = nullish q ''default'', retryAfterSeconds = nullish retryAfter 90,
      popBatchSize = nullish batch 10, dialect = d, connectionName = conn\<rparr>"

record 'p QueuedJob =
  qid :: nat
  qclass :: string
  qstate :: 'p
  qattempts :: nat
  qqueue :: "string option"
  qchain :: "'p ChainedJob list"

datatype queue_error = DuplicateFailedId nat

definition timestamp :: "int \<Rightarrow> int" where
  "timestamp epochMs = epochMs div 1000"

definition encodeChain :: "'p ChainedJob list \<Rightarrow> 'p ChainedJob list option" where
  "encodeChain chain = (if chain = [] then None else Some chain)"

definition decodeChain :: "'p ChainedJob list option \<Rightarrow> 'p ChainedJob list" where
  "decodeChain c = nullish c []"

section \<open>Pushing and reserving\<close>

definition insert_job :: "'p JobRow \<Rightarrow> 'p QueueDb \<Rightarrow> 'p QueueDb" where
  "insert_job row db = db\<lparr>jobs := jobs db @ [row\<lparr>jid := next_id db\<rparr>], next_id := Suc (next_id db)\<rparr>"

definition push ::
  "Driver \<Rightarrow> int \<Rightarrow> string \<Rightarrow> 'p \<Rightarrow> int option \<Rightarrow> 'p ChainedJob list \<Rightarrow> string option
     \<Rightarrow> 'p QueueDb \<Rightarrow> 'p QueueDb" where
  "push drv now jobClass state delaySeconds chain q db =
     insert_job \<lparr>jid = 0, jqueue = nullish q (queue drv), job_class = jobClass, payload = state,
       jattempts = 0, available_at = timestamp (now + nullish delaySeconds 0 * 1000),
       reserved_at = None, created_at = timestamp now, chain_json = encodeChain chain\<rparr> db"

definition is_eligible :: "Driver \<Rightarrow> int \<Rightarrow> string \<Rightarrow> 'p JobRow \<Rightarrow> bool" where
  "is_eligible drv now q row \<longleftrightarrow>
     jqueue row = q \<and> available_at row \<le> timestamp now \<and>
     (case reserved_at row of
        None \<Rightarrow> True
      | Some r \<Rightarrow> r \<le> timestamp (now - retryAfterSeconds drv * 1000))"

text \<open>\<open>ORDER BY available_at, id\<close>.\<close>

definition eligible :: "Driver \<Rightarrow> int \<Rightarrow> string \<Rightarrow> 'p QueueDb \<Rightarrow> 'p JobRow list" where
  "eligible drv now q db =
     sort_key available_at (sort_key jid (filter (is_eligible drv now q) (jobs db)))"

definition toQueuedJob :: "'p JobRow \<Rightarrow> nat \<Rightarrow> 'p QueuedJob" where
  "toQueuedJob row n =
     \<lparr>qid = jid row, qclass = job_class row, qstate = payload row, qattempts = n,
      qqueue = Some (jqueue row), qchain = decodeChain (chain_json row)\<rparr>"

definition attempts_after :: "'p JobRow \<Rightarrow> nat" where
  "attempts_after row = (if reserved_at row \<noteq> None then jattempts row + 1 else jattempts row)"

definition update_job :: "nat \<Rightarrow> ('p JobRow \<Rightarrow> 'p JobRow) \<Rightarrow> 'p QueueDb \<Rightarrow> 'p QueueDb" where
  "update_job i f db = db\<lparr>jobs := map (\<lambda>r. if jid r = i then f r else r) (jobs db)\<rparr>"

text \<open>
  The reservation of the row that was read: it sets \<open>reserved_at\<close>, and \<open>attempts\<close> only when the
  row is reclaimed.
\<close>

definition reserve_row :: "'p JobRow \<Rightarrow> int \<Rightarrow> 'p JobRow \<Rightarrow> 'p JobRow" where
  "reserve_row c now r =
     (if reserved_at c \<noteq> None
      then r\<lparr>reserved_at := Some (timestamp now), jattempts := jattempts c + 1\<rparr>
      else r\<lparr>reserved_at := Some (timestamp now)\<rparr>)"

text \<open>MySQL and Postgres: one transaction, past the rows that other transactions have locked.\<close>

definition popBySkipLocked ::
  "Driver \<Rightarrow> nat set \<Rightarrow> int \<Rightarrow> string \<Rightarrow> 'p QueueDb \<Rightarrow> 'p QueuedJob option \<times> 'p QueueDb" where
  "popBySkipLocked drv locked now q db =
     (case filter (\<lambda>r. jid r \<notin> locked) (eligible drv now q db) of
        [] \<Rightarrow> (None, db)
      | row # _ \<Rightarrow>
          (Some (toQueuedJob row (attempts_after row)), update_job (jid row) (reserve_row row now) db))"

text \<open>
  SQLite: the candidates are one statement, each conditional update another.  \<open>try_reserve\<close> is
  the update, with the number of rows it matched.
\<close>

definition candidates :: "Driver \<Rightarrow> int \<Rightarrow> string \<Rightarrow> 'p QueueDb \<Rightarrow> 'p JobRow list" where
  "candidates drv now q db = take (popBatchSize drv) (eligible drv now q db)"

definition try_reserve :: "int \<Rightarrow> 'p JobRow \<Rightarrow> 'p QueueDb \<Rightarrow> nat \<times> 'p QueueDb" where
  "try_reserve now c db =
     (let hit = (\<lambda>r. jid r = jid c \<and> reserved_at r = reserved_at c) in
      (length (filter hit (jobs db)),
       db\<lparr>jobs := map (\<lambda>r. if hit r then reserve_row c now r else r) (jobs db)\<rparr>))"

fun reserve_first :: "int \<Rightarrow> 'p JobRow list \<Rightarrow> 'p QueueDb \<Rightarrow> 'p QueuedJob option \<times> 'p QueueDb" where
  "reserve_first now [] db = (None, db)"
| "reserve_first now (c # cs) db =
     (let (n, db') = try_reserve now c db in
      if n = 0 then reserve_first now cs db'
      else (Some (toQueuedJob c (attempts_after c)), db'))"

definition popByConditionalUpdate ::
  "Driver \<Rightarrow> int \<Rightarrow> string \<Rightarrow> 'p QueueDb \<Rightarrow> 'p QueuedJob option \<times> 'p QueueDb" where
  "popByConditionalUpdate drv now q db = reserve_first now (candidates drv now q db) db"

definition pop ::
  "Driver \<Rightarrow> nat set \<Rightarrow> int \<Rightarrow> string option \<Rightarrow> 'p QueueDb \<Rightarrow> 'p QueuedJob option \<times> 'p QueueDb" where
  "pop drv locked now q db =
     (if dialect drv = Sqlite then popByConditionalUpdate drv now (nullish q (queue drv)) db
      else popBySkipLocked drv locked now (nullish q (queue drv)) db)"

section \<open>Ending a job\<close>

definition release :: "int \<Rightarrow> int \<Rightarrow> 'p QueuedJob \<Rightarrow> 'p QueueDb \<Rightarrow> 'p QueueDb" where
  "release now delaySeconds job db =
     update_job (qid job) (\<lambda>r. r\<lparr>jattempts := qattempts job + 1,
       available_at := timestamp (now + delaySeconds * 1000), reserved_at := None\<rparr>) db"

definition delete_id :: "nat \<Rightarrow> 'p QueueDb \<Rightarrow> 'p QueueDb" where
  "delete_id i db = db\<lparr>jobs := filter (\<lambda>r. jid r \<noteq> i) (jobs db)\<rparr>"

definition delete :: "'p QueuedJob \<Rightarrow> 'p QueueDb \<Rightarrow> 'p QueueDb" where
  "delete job db = delete_id (qid job) db"

text \<open>A transaction: the insert violates the primary key when the id has failed before.\<close>

definition fail ::
  "Driver \<Rightarrow> int \<Rightarrow> 'p QueuedJob \<Rightarrow> string \<Rightarrow> 'p QueueDb \<Rightarrow> queue_error + 'p QueueDb" where
  "fail drv now job err db =
     (if qid job \<in> fid ` set (failed_jobs db) then Inl (DuplicateFailedId (qid job))
      else Inr (delete_id (qid job) (db\<lparr>failed_jobs := failed_jobs db @
        [\<lparr>fid = qid job, fconnection = connectionName drv,
          fqueue = Some (nullish (qqueue job) (queue drv)), fclass = qclass job,
          fpayload = qstate job, fchain_json = encodeChain (qchain job), ferror = err,
          failed_at = timestamp now\<rparr>]\<rparr>)))"

definition size :: "Driver \<Rightarrow> string option \<Rightarrow> 'p QueueDb \<Rightarrow> nat" where
  "size drv q db = length (filter (\<lambda>r. jqueue r = nullish q (queue drv)) (jobs db))"

definition clear :: "Driver \<Rightarrow> string option \<Rightarrow> 'p QueueDb \<Rightarrow> nat \<times> 'p QueueDb" where
  "clear drv q db =
     (size drv q db, db\<lparr>jobs := filter (\<lambda>r. jqueue r \<noteq> nullish q (queue drv)) (jobs db)\<rparr>)"

section \<open>Failed jobs\<close>

text \<open>A key that is not a decimal integer, or a negative one, matches no row.\<close>

definition failedJobKey :: "string \<Rightarrow> nat option" where
  "failedJobKey s = (if all_digits s then Some (number_of_digits s) else None)"

definition listFailed :: "'p QueueDb \<Rightarrow> 'p FailedJobRow list" where
  "listFailed db = sort_key (\<lambda>r. - failed_at r) (failed_jobs db)"

definition findFailed :: "string \<Rightarrow> 'p QueueDb \<Rightarrow> 'p FailedJobRow option" where
  "findFailed s db = find (\<lambda>r. Some (fid r) = failedJobKey s) (failed_jobs db)"

definition delete_failed :: "string \<Rightarrow> 'p QueueDb \<Rightarrow> 'p QueueDb" where
  "delete_failed s db = db\<lparr>failed_jobs := filter (\<lambda>r. Some (fid r) \<noteq> failedJobKey s) (failed_jobs db)\<rparr>"

definition retry :: "Driver \<Rightarrow> int \<Rightarrow> string \<Rightarrow> 'p QueueDb \<Rightarrow> bool \<times> 'p QueueDb" where
  "retry drv now s db =
     (case findFailed s db of
        None \<Rightarrow> (False, db)
      | Some row \<Rightarrow>
          (True, delete_failed s (insert_job \<lparr>jid = 0, jqueue = nullish (fqueue row) (queue drv),
             job_class = fclass row, payload = fpayload row, jattempts = 0,
             available_at = timestamp now, reserved_at = None, created_at = timestamp now,
             chain_json = fchain_json row\<rparr> db)))"

definition forget :: "string \<Rightarrow> 'p QueueDb \<Rightarrow> bool \<times> 'p QueueDb" where
  "forget s db = (findFailed s db \<noteq> None, delete_failed s db)"

definition flush :: "int option \<Rightarrow> int \<Rightarrow> 'p QueueDb \<Rightarrow> nat \<times> 'p QueueDb" where
  "flush olderThanHours now db =
     (let gone = (\<lambda>r. case olderThanHours of
          None \<Rightarrow> True
        | Some h \<Rightarrow> failed_at r < timestamp (now - h * 3600 * 1000)) in
      (length (filter gone (failed_jobs db)),
       db\<lparr>failed_jobs := filter (\<lambda>r. \<not> gone r) (failed_jobs db)\<rparr>))"

section \<open>Well-formed tables\<close>

definition db_wf :: "'p QueueDb \<Rightarrow> bool" where
  "db_wf db \<longleftrightarrow> distinct (map jid (jobs db)) \<and> (\<forall>r \<in> set (jobs db). jid r < next_id db) \<and>
     distinct (map fid (failed_jobs db)) \<and> (\<forall>r \<in> set (failed_jobs db). fid r < next_id db) \<and>
     (\<forall>r \<in> set (jobs db). \<forall>f \<in> set (failed_jobs db). jid r \<noteq> fid f)"

definition empty_db :: "'p QueueDb" where
  "empty_db = \<lparr>jobs = [], next_id = 1, failed_jobs = []\<rparr>"

lemma jid_reserve_row [simp]:
  "jid (reserve_row c now r) = jid r" "reserved_at (reserve_row c now r) = Some (timestamp now)"
  by (simp_all add: reserve_row_def)

lemma map_jid_if [simp]:
  "(\<And>r. jid (f r) = jid r) \<Longrightarrow> map jid (map (\<lambda>r. if P r then f r else r) rs) = map jid rs"
  by (induction rs) auto

lemma insert_job_wf: "db_wf db \<Longrightarrow> db_wf (insert_job row db)"
  by (force simp: db_wf_def insert_job_def)

lemma db_wf_map_jobs:
  assumes "db_wf db" "map jid js = map jid (jobs db)"
  shows "db_wf (db\<lparr>jobs := js\<rparr>)"
proof -
  have "jid ` set js = jid ` set (jobs db)" using arg_cong [OF assms(2), of set] by simp
  then have "\<exists>r' \<in> set (jobs db). jid r' = jid r" if "r \<in> set js" for r
    using that by (metis imageE imageI)
  then show ?thesis using assms unfolding db_wf_def by (simp) metis
qed

lemma update_job_wf: "db_wf db \<Longrightarrow> (\<And>r. jid (f r) = jid r) \<Longrightarrow> db_wf (update_job i f db)"
  unfolding update_job_def by (rule db_wf_map_jobs) simp_all

lemma db_wf_filter_jobs: "db_wf db \<Longrightarrow> db_wf (db\<lparr>jobs := filter P (jobs db)\<rparr>)"
  by (auto simp: db_wf_def distinct_map_filter)

lemma db_wf_filter_failed: "db_wf db \<Longrightarrow> db_wf (db\<lparr>failed_jobs := filter P (failed_jobs db)\<rparr>)"
  by (auto simp: db_wf_def distinct_map_filter)

lemma try_reserve_wf: "db_wf db \<Longrightarrow> db_wf (snd (try_reserve now c db))"
  by (simp add: try_reserve_def Let_def db_wf_map_jobs)

section \<open>Workers that interleave\<close>

text \<open>
  Any number of workers of one SQLite driver drain one queue.  A worker's pop is the select and
  then one conditional update per step; what it pops it later releases, deletes or fails.
  \<open>outstanding\<close> is a ghost: the last reservation of a job that nobody has ended, with its time.
\<close>

record 'p QueueWorld =
  qdb :: "'p QueueDb"
  qclock :: int
  cand :: "nat \<Rightarrow> 'p JobRow list"
  taken :: "nat \<Rightarrow> 'p QueuedJob option"
  outstanding :: "nat \<Rightarrow> (nat \<times> int) option"

definition queue_start :: "'p QueueWorld" where
  "queue_start = \<lparr>qdb = empty_db, qclock = 0, cand = (\<lambda>_. []), taken = (\<lambda>_. None),
     outstanding = (\<lambda>_. None)\<rparr>"

inductive queue_step :: "Driver \<Rightarrow> string \<Rightarrow> 'p QueueWorld \<Rightarrow> 'p QueueWorld \<Rightarrow> bool" for drv q where
  tick: "0 \<le> d \<Longrightarrow> queue_step drv q w (w\<lparr>qclock := qclock w + d\<rparr>)"
| pushed: "queue_step drv q w
    (w\<lparr>qdb := push drv (qclock w) jobClass state delay chain (Some q') (qdb w)\<rparr>)"
| selected: "taken w i = None \<Longrightarrow>
    queue_step drv q w (w\<lparr>cand := (cand w)(i := candidates drv (qclock w) q (qdb w))\<rparr>)"
| lost: "cand w i = c # cs \<Longrightarrow> try_reserve (qclock w) c (qdb w) = (0, db') \<Longrightarrow>
    queue_step drv q w (w\<lparr>qdb := db', cand := (cand w)(i := cs)\<rparr>)"
| won: "cand w i = c # cs \<Longrightarrow> try_reserve (qclock w) c (qdb w) = (Suc n, db') \<Longrightarrow>
    queue_step drv q w (w\<lparr>qdb := db', cand := (cand w)(i := []),
      taken := (taken w)(i := Some (toQueuedJob c (attempts_after c))),
      outstanding := (outstanding w)(jid c := Some (i, timestamp (qclock w)))\<rparr>)"
| released: "taken w i = Some job \<Longrightarrow>
    queue_step drv q w (w\<lparr>qdb := release (qclock w) delaySeconds job (qdb w),
      taken := (taken w)(i := None), outstanding := (outstanding w)(qid job := None)\<rparr>)"
| deleted: "taken w i = Some job \<Longrightarrow>
    queue_step drv q w (w\<lparr>qdb := delete job (qdb w),
      taken := (taken w)(i := None), outstanding := (outstanding w)(qid job := None)\<rparr>)"
| failed: "taken w i = Some job \<Longrightarrow> fail drv (qclock w) job err (qdb w) = Inr db' \<Longrightarrow>
    queue_step drv q w (w\<lparr>qdb := db',
      taken := (taken w)(i := None), outstanding := (outstanding w)(qid job := None)\<rparr>)"
| retried: "queue_step drv q w (w\<lparr>qdb := snd (retry drv (qclock w) s (qdb w))\<rparr>)"
| forgotten: "queue_step drv q w (w\<lparr>qdb := snd (forget s (qdb w))\<rparr>)"
| cleared: "queue_step drv q w (w\<lparr>qdb := snd (clear drv (Some q') (qdb w))\<rparr>)"
| flushed: "queue_step drv q w (w\<lparr>qdb := snd (flush hours (qclock w) (qdb w))\<rparr>)"

text \<open>The part of the invariant that speaks about the tables, and the part about the workers.\<close>

definition tables_inv :: "'p QueueDb \<Rightarrow> (nat \<Rightarrow> (nat \<times> int) option) \<Rightarrow> bool" where
  "tables_inv db out \<longleftrightarrow> db_wf db \<and>
     (\<forall>r \<in> set (jobs db). reserved_at r = map_option snd (out (jid r))) \<and>
     (\<forall>i \<ge> next_id db. out i = None)"

definition queue_inv :: "Driver \<Rightarrow> 'p QueueWorld \<Rightarrow> bool" where
  "queue_inv drv w \<longleftrightarrow> tables_inv (qdb w) (outstanding w) \<and>
     (\<forall>i. \<forall>c \<in> set (cand w i). jid c < next_id (qdb w) \<and>
        (\<forall>t. reserved_at c = Some t \<longrightarrow> t + retryAfterSeconds drv \<le> timestamp (qclock w))) \<and>
     (\<forall>i job. taken w i = Some job \<longrightarrow> qid job < next_id (qdb w))"

lemma timestamp_minus: "timestamp (now - s * 1000) = timestamp now - s"
  by (simp add: timestamp_def)

lemma timestamp_mono: "a \<le> b \<Longrightarrow> timestamp a \<le> timestamp b"
  by (simp add: timestamp_def zdiv_mono1)

lemma insert_job_inv:
  "tables_inv db out \<Longrightarrow> reserved_at row = None \<Longrightarrow> tables_inv (insert_job row db) out"
  by (auto simp: tables_inv_def insert_job_wf) (auto simp: insert_job_def)

lemma delete_id_inv: "tables_inv db out \<Longrightarrow> tables_inv (delete_id i db) (out(i := None))"
  by (auto simp: tables_inv_def delete_id_def db_wf_filter_jobs)

lemma next_id_ops [simp]:
  "next_id (delete_id i db) = next_id db" "next_id (update_job i f db) = next_id db"
  "next_id (delete_failed s db) = next_id db" "next_id (insert_job row db) = Suc (next_id db)"
  "next_id (snd (try_reserve now c db)) = next_id db"
  by (simp_all add: delete_id_def update_job_def delete_failed_def insert_job_def try_reserve_def Let_def)

lemma candidates_props:
  assumes "c \<in> set (candidates drv now q db)"
  shows "c \<in> set (jobs db)" and "is_eligible drv now q c"
  using assms by (auto simp: candidates_def eligible_def dest!: in_set_takeD)

lemma fail_wf:
  assumes "fail drv now job err db = Inr db'" "db_wf db" "qid job < next_id db"
  shows "db_wf db'"
  using assms by (auto simp: fail_def delete_id_def db_wf_def distinct_map_filter split: if_splits)

lemma fail_inv:
  assumes "fail drv now job err db = Inr db'" "tables_inv db out" "qid job < next_id db"
  shows "tables_inv db' (out(qid job := None))" and "next_id db' = next_id db"
  using assms
  by (auto simp: fail_def tables_inv_def delete_id_def db_wf_def distinct_map_filter split: if_splits)

lemma try_reserve_inv:
  assumes "try_reserve now c db = (n, db')" "tables_inv db out"
  shows "n = 0 \<Longrightarrow> tables_inv db' out"
    and "n \<noteq> 0 \<Longrightarrow> reserved_at c = map_option snd (out (jid c)) \<and>
      tables_inv db' (out(jid c := Some (i, timestamp now)))"
proof -
  let ?hit = "\<lambda>r. jid r = jid c \<and> reserved_at r = reserved_at c"
  have db': "db' = db\<lparr>jobs := map (\<lambda>r. if ?hit r then reserve_row c now r else r) (jobs db)\<rparr>"
    and n: "n = length (filter ?hit (jobs db))"
    using assms(1) by (auto simp: try_reserve_def Let_def)
  have wf: "db_wf db'" using assms try_reserve_wf [of db now c] by (simp add: tables_inv_def)
  show "tables_inv db' out" if "n = 0"
  proof -
    have "\<forall>r \<in> set (jobs db). \<not> ?hit r" using that n by (simp add: filter_empty_conv)
    then have "map (\<lambda>r. if ?hit r then reserve_row c now r else r) (jobs db) = jobs db"
      by (intro map_idI) auto
    then show ?thesis using assms(2) by (simp add: db')
  qed
  assume "n \<noteq> 0"
  then obtain r where r: "r \<in> set (jobs db)" "?hit r"
    using n by (auto simp: filter_empty_conv)
  have out: "reserved_at c = map_option snd (out (jid c))"
    using assms(2) r by (auto simp: tables_inv_def)
  have inj: "r' = r" if "r' \<in> set (jobs db)" "jid r' = jid c" for r'
    using assms(2) that r unfolding tables_inv_def db_wf_def distinct_map by (metis inj_onD)
  have "reserved_at (if ?hit r' then reserve_row c now r' else r')
      = map_option snd ((out(jid c := Some (i, timestamp now))) (jid r'))"
    if "r' \<in> set (jobs db)" for r'
    using assms(2) that inj [OF that] r(2) by (auto simp: tables_inv_def reserve_row_def)
  moreover have "jid c < next_id db" using assms(2) r by (auto simp: tables_inv_def db_wf_def)
  ultimately show "reserved_at c = map_option snd (out (jid c)) \<and>
      tables_inv db' (out(jid c := Some (i, timestamp now)))"
    using wf out assms(2) by (auto simp: tables_inv_def db')
qed

lemma release_inv:
  assumes "tables_inv db out"
  shows "tables_inv (release now d job db) (out(qid job := None))"
proof -
  have "db_wf (release now d job db)"
    using assms by (simp add: tables_inv_def release_def update_job_wf)
  then show ?thesis
    using assms by (auto simp: tables_inv_def) (auto simp: release_def update_job_def)
qed

lemma retry_inv:
  assumes "tables_inv db out"
  shows "tables_inv (snd (retry drv now s db)) out"
proof (cases "findFailed s db")
  case None
  then show ?thesis using assms by (simp add: retry_def)
next
  case (Some row)
  have "tables_inv (delete_failed s db') out" if "tables_inv db' out" for db' :: "'a QueueDb"
    using that by (auto simp: tables_inv_def delete_failed_def db_wf_filter_failed)
  then show ?thesis using Some insert_job_inv [OF assms] by (simp add: retry_def)
qed

lemma next_id_retry: "next_id db \<le> next_id (snd (retry drv now s db))"
  by (simp add: retry_def split: option.split)

lemma queue_inv_mono:
  assumes "queue_inv drv w" "tables_inv (qdb w') (outstanding w')"
    and "next_id (qdb w) \<le> next_id (qdb w')" "qclock w \<le> qclock w'"
    and "\<And>i. set (cand w' i) \<subseteq> set (cand w i)"
    and "\<And>i job. taken w' i = Some job \<Longrightarrow> taken w i = Some job \<or> qid job < next_id (qdb w)"
  shows "queue_inv drv w'"
proof -
  have "timestamp (qclock w) \<le> timestamp (qclock w')" using assms(4) by (rule timestamp_mono)
  then have "jid c < next_id (qdb w') \<and>
      (\<forall>t. reserved_at c = Some t \<longrightarrow> t + retryAfterSeconds drv \<le> timestamp (qclock w'))"
    if "c \<in> set (cand w' i)" for i c
    using assms(1,3) assms(5) [of i] that unfolding queue_inv_def by (meson order_trans order_less_le_trans subsetD)
  moreover have "qid job < next_id (qdb w')" if "taken w' i = Some job" for i job
    using assms(6) [OF that] assms(1,3) unfolding queue_inv_def by (meson order_less_le_trans)
  ultimately show ?thesis using assms(2) by (simp add: queue_inv_def)
qed

lemma queue_inv_tables: "queue_inv drv w \<Longrightarrow> tables_inv (qdb w) (outstanding w)"
  by (simp add: queue_inv_def)

lemma queue_inv_step:
  assumes "queue_step drv q w w'" "queue_inv drv w"
  shows "queue_inv drv w'"
  using assms
proof (induction rule: queue_step.induct)
  case (tick d w)
  show ?case by (rule queue_inv_mono [OF tick.prems]) (use tick queue_inv_tables in auto)
next
  case (pushed w jobClass state delay chain q')
  show ?case
    by (rule queue_inv_mono [OF pushed.prems])
      (use queue_inv_tables [OF pushed.prems] in \<open>auto simp: push_def intro: insert_job_inv\<close>)
next
  case (selected w i)
  have "jid c < next_id (qdb w) \<and>
      (\<forall>t. reserved_at c = Some t \<longrightarrow> t + retryAfterSeconds drv \<le> timestamp (qclock w))"
    if "c \<in> set (candidates drv (qclock w) q (qdb w))" for c
    using candidates_props [OF that] queue_inv_tables [OF selected.prems]
    by (auto simp: tables_inv_def db_wf_def is_eligible_def timestamp_minus)
  then show ?case using selected.prems by (simp add: queue_inv_def)
next
  case (lost w i c cs db')
  have id: "next_id db' = next_id (qdb w)" using next_id_ops(5) [of "qclock w" c "qdb w"] lost by simp
  have "tables_inv db' (outstanding w)"
    by (rule try_reserve_inv(1) [OF lost.hyps(2) queue_inv_tables [OF lost.prems]]) simp
  then show ?case by (intro queue_inv_mono [OF lost.prems]) (use id lost.hyps(1) in auto)
next
  case (won w i c cs n db')
  have id: "next_id db' = next_id (qdb w)" using next_id_ops(5) [of "qclock w" c "qdb w"] won by simp
  have "tables_inv db' ((outstanding w)(jid c := Some (i, timestamp (qclock w))))"
    using try_reserve_inv(2) [OF won.hyps(2) queue_inv_tables [OF won.prems]] by simp
  moreover have "jid c < next_id (qdb w)" using won.prems won.hyps(1) unfolding queue_inv_def by (metis list.set_intros(1))
  ultimately show ?case
    by (intro queue_inv_mono [OF won.prems])
      (use id won.hyps(1) in \<open>auto simp: toQueuedJob_def split: if_splits\<close>)
next
  case (released w i job d)
  show ?case
    by (rule queue_inv_mono [OF released.prems])
      (use release_inv [OF queue_inv_tables [OF released.prems]] in
        \<open>auto split: if_splits simp: release_def\<close>)
next
  case (deleted w i job)
  show ?case
    by (rule queue_inv_mono [OF deleted.prems])
      (use queue_inv_tables [OF deleted.prems] in \<open>auto simp: delete_def delete_id_inv split: if_splits\<close>)
next
  case (failed w i job err db')
  have "qid job < next_id (qdb w)" using failed by (simp add: queue_inv_def)
  note inv = fail_inv [OF failed.hyps(2) queue_inv_tables [OF failed.prems] this]
  show ?case
    by (rule queue_inv_mono [OF failed.prems]) (use inv in \<open>auto split: if_splits\<close>)
next
  case (retried w s)
  show ?case
    by (rule queue_inv_mono [OF retried.prems])
      (use queue_inv_tables [OF retried.prems] in \<open>auto simp: retry_inv next_id_retry\<close>)
next
  case (forgotten w s)
  show ?case
    by (rule queue_inv_mono [OF forgotten.prems])
      (use queue_inv_tables [OF forgotten.prems] in
        \<open>auto simp: forget_def tables_inv_def delete_failed_def db_wf_filter_failed\<close>)
next
  case (cleared w q')
  show ?case
    by (rule queue_inv_mono [OF cleared.prems])
      (use queue_inv_tables [OF cleared.prems] in
        \<open>auto simp: clear_def tables_inv_def db_wf_filter_jobs\<close>)
next
  case (flushed w hours)
  show ?case
    by (rule queue_inv_mono [OF flushed.prems])
      (use queue_inv_tables [OF flushed.prems] in
        \<open>auto simp: flush_def Let_def tables_inv_def db_wf_filter_failed\<close>)
qed

lemma queue_inv_reachable:
  assumes "(queue_step drv q)\<^sup>*\<^sup>* queue_start w"
  shows "queue_inv drv w"
  using assms
proof (induction rule: rtranclp_induct)
  case base
  show ?case by (simp add: queue_inv_def queue_start_def tables_inv_def db_wf_def empty_db_def)
next
  case (step y z)
  then show ?case by (blast intro: queue_inv_step)
qed

section \<open>Reserving without interleaving\<close>

lemma eligible_head:
  assumes "eligible drv now q db = e # es" "r \<in> set (jobs db)" "is_eligible drv now q r"
  shows "available_at e < available_at r \<or> (available_at e = available_at r \<and> jid e \<le> jid r)"
proof -
  let ?F = "filter (is_eligible drv now q) (jobs db)"
  let ?L = "sort_key jid ?F"
  have r: "r \<in> set ?L" using assms by simp
  have sorted: "sorted (map available_at (e # es))"
    using assms(1) by (metis eligible_def sorted_sort_key)
  have "r \<in> set (e # es)" using r assms(1) by (metis eligible_def set_sort)
  then have le: "available_at e \<le> available_at r" using sorted by auto
  show ?thesis
  proof (cases "available_at e = available_at r")
    case True
    have "filter (\<lambda>x. available_at x = available_at e) (e # es) = filter (\<lambda>x. available_at x = available_at e) ?L"
      using assms(1) sort_key_stable [of available_at "available_at e" ?L] by (simp add: eligible_def)
    then have xs: "filter (\<lambda>x. available_at x = available_at e) ?L =
        e # filter (\<lambda>x. available_at x = available_at e) es" by simp
    have "sorted (map jid (filter (\<lambda>x. available_at x = available_at e) ?L))"
      by (rule sorted_filter) simp
    then have s: "sorted (map jid (e # filter (\<lambda>x. available_at x = available_at e) es))"
      unfolding xs .
    have "r \<in> set (filter (\<lambda>x. available_at x = available_at e) ?L)" using r True by simp
    then have "r \<in> set (e # filter (\<lambda>x. available_at x = available_at e) es)" unfolding xs .
    then show ?thesis using True s by auto
  next
    case False
    then show ?thesis using le by simp
  qed
qed

lemma try_reserve_fresh:
  assumes "db_wf db" "c \<in> set (jobs db)"
  shows "\<exists>n. try_reserve now c db = (Suc n, update_job (jid c) (reserve_row c now) db)"
proof -
  have uniq: "r = c" if "r \<in> set (jobs db)" "jid r = jid c" for r
    using assms that unfolding db_wf_def distinct_map by (metis inj_onD)
  then have "jobs (update_job (jid c) (reserve_row c now) db) =
      map (\<lambda>r. if jid r = jid c \<and> reserved_at r = reserved_at c then reserve_row c now r else r) (jobs db)"
    by (auto simp: update_job_def)
  moreover have "filter (\<lambda>r. jid r = jid c \<and> reserved_at r = reserved_at c) (jobs db) \<noteq> []"
    using assms(2) by (auto simp: filter_empty_conv)
  ultimately show ?thesis
    by (cases "filter (\<lambda>r. jid r = jid c \<and> reserved_at r = reserved_at c) (jobs db)")
      (auto simp: try_reserve_def Let_def update_job_def)
qed

lemma pops_agree:
  assumes "db_wf db" "1 \<le> popBatchSize drv"
  shows "popByConditionalUpdate drv now q db = popBySkipLocked drv {} now q db"
proof (cases "eligible drv now q db")
  case Nil
  then show ?thesis by (simp add: popByConditionalUpdate_def popBySkipLocked_def candidates_def)
next
  case (Cons c cs)
  then obtain cs' where cand: "candidates drv now q db = c # cs'"
    using assms(2) by (cases "popBatchSize drv") (auto simp: candidates_def)
  have "c \<in> set (jobs db)" by (rule candidates_props(1) [of _ drv now q]) (simp add: cand)
  from try_reserve_fresh [OF assms(1) this, of now] show ?thesis
    by (auto simp: popByConditionalUpdate_def popBySkipLocked_def cand Cons)
qed

lemma pop_spec:
  assumes "popBySkipLocked drv {} now q db = (res, db')"
  shows "case res of
      None \<Rightarrow> db' = db \<and> (\<forall>r \<in> set (jobs db). \<not> is_eligible drv now q r)
    | Some job \<Rightarrow> \<exists>row \<in> set (jobs db). is_eligible drv now q row \<and>
        job = toQueuedJob row (attempts_after row) \<and>
        db' = update_job (jid row) (reserve_row row now) db \<and>
        (\<forall>r \<in> set (jobs db). is_eligible drv now q r \<longrightarrow>
           available_at row < available_at r \<or> (available_at row = available_at r \<and> jid row \<le> jid r))"
proof (cases "eligible drv now q db")
  case Nil
  then have "set (filter (is_eligible drv now q) (jobs db)) = {}"
    by (metis eligible_def set_sort list.set(1))
  then show ?thesis using assms Nil by (auto simp: popBySkipLocked_def)
next
  case (Cons c cs)
  have "c \<in> set (filter (is_eligible drv now q) (jobs db))"
    using Cons by (metis eligible_def set_sort list.set_intros(1))
  then show ?thesis
    using assms eligible_head [OF Cons] by (fastforce simp: popBySkipLocked_def Cons)
qed

definition demo_driver :: Driver where
  "demo_driver = new_driver Sqlite None None None None"

definition demo_job :: "unit JobRow" where
  "demo_job = \<lparr>jid = 1, jqueue = ''default'', job_class = ''J'', payload = (), jattempts = 0,
     available_at = 0, reserved_at = None, created_at = 0, chain_json = None\<rparr>"

lemmas demo_simps = queue_start_def empty_db_def push_def insert_job_def demo_driver_def new_driver_def
  timestamp_def nullish_def encodeChain_def try_reserve_def Let_def reserve_row_def
  toQueuedJob_def attempts_after_def release_def update_job_def decodeChain_def

section \<open>Properties\<close>



text \<open>
  The tables stay well formed in every run: ids are unique in each table, below the
  auto-increment counter, and no job is both live and failed.
\<close>

lemma tables_well_formed:
  assumes "(queue_step drv q)\<^sup>*\<^sup>* queue_start w"
  shows "distinct (map jid (jobs (qdb w))) \<and> distinct (map fid (failed_jobs (qdb w))) \<and>
    (\<forall>r \<in> set (jobs (qdb w)). jid r < next_id (qdb w)) \<and>
    jid ` set (jobs (qdb w)) \<inter> fid ` set (failed_jobs (qdb w)) = {}"
  using queue_inv_tables [OF queue_inv_reachable [OF assms]]
  by (auto simp: tables_inv_def db_wf_def)

text \<open>
  Run alone, every dialect's \<open>pop\<close> does the same: it takes the eligible row that comes
  first by due second and then by id (first in, first out), reserves it, counts an attempt
  exactly when it was reclaimed, and changes no other row; it answers nothing exactly when no
  row is eligible.
\<close>

lemma pop_takes_first:
  assumes "db_wf db" and "1 \<le> popBatchSize drv" and "pop drv {} now q db = (res, db')"
  shows "case res of
      None \<Rightarrow> db' = db \<and> (\<forall>r \<in> set (jobs db). \<not> is_eligible drv now (nullish q (queue drv)) r)
    | Some job \<Rightarrow> \<exists>row \<in> set (jobs db). is_eligible drv now (nullish q (queue drv)) row \<and>
        job = toQueuedJob row (attempts_after row) \<and>
        db' = update_job (jid row) (reserve_row row now) db \<and>
        (\<forall>r \<in> set (jobs db). is_eligible drv now (nullish q (queue drv)) r \<longrightarrow>
           available_at row < available_at r \<or> (available_at row = available_at r \<and> jid row \<le> jid r))"
proof -
  have "popBySkipLocked drv {} now (nullish q (queue drv)) db = (res, db')"
    using assms pops_agree [OF assms(1,2)] by (auto simp: pop_def split: if_splits)
  then show ?thesis by (rule pop_spec)
qed

text \<open>
  C9. Failing a reserved job and retrying it by its printed id puts it back on the same queue
  with the same class, state and chain, with a fresh id, no attempts and due at once, and
  leaves every other row of both tables as it was.
\<close>

theorem fail_retry_restores:
  assumes "db_wf db" and "row \<in> set (jobs db)" and "job = toQueuedJob row n"
    and "fail drv now job err db = Inr db1"
    and "retry drv' now' (string_of_nat (jid row)) db1 = (found, db2)"
  shows "found \<and> (\<exists>row'. db2 = \<lparr>jobs = filter (\<lambda>r. jid r \<noteq> jid row) (jobs db) @ [row'],
        next_id = Suc (next_id db), failed_jobs = failed_jobs db\<rparr> \<and>
      toQueuedJob row' 0 = job\<lparr>qid := next_id db, qattempts := 0\<rparr> \<and> jattempts row' = 0 \<and>
      reserved_at row' = None \<and> available_at row' = timestamp now')"
proof -
  let ?f = "\<lparr>fid = jid row, fconnection = connectionName drv, fqueue = Some (jqueue row),
      fclass = job_class row, fpayload = payload row,
      fchain_json = encodeChain (decodeChain (chain_json row)), ferror = err, failed_at = timestamp now\<rparr>"
  have new: "jid row \<notin> fid ` set (failed_jobs db)" using assms(1,2) by (auto simp: db_wf_def)
  then have db1: "db1 = db\<lparr>jobs := filter (\<lambda>r. jid r \<noteq> jid row) (jobs db), failed_jobs := failed_jobs db @ [?f]\<rparr>"
    using assms(3,4) by (auto simp: fail_def toQueuedJob_def delete_id_def nullish_def)
  have key: "failedJobKey (string_of_nat (jid row)) = Some (jid row)" by (simp add: failedJobKey_def)
  have old: "\<forall>r \<in> set (failed_jobs db). fid r \<noteq> jid row" using new by (metis imageI)
  have "find (\<lambda>r. fid r = i) (fs @ [f]) = Some f"
    if "\<forall>r \<in> set fs. fid r \<noteq> i" "fid f = i" for i fs and f :: "'a FailedJobRow"
    using that by (induction fs) auto
  from this [OF old, of ?f] have "find (\<lambda>r. fid r = jid row) (failed_jobs db @ [?f]) = Some ?f" by simp
  moreover have "filter (\<lambda>r. fid r \<noteq> jid row) (failed_jobs db) = failed_jobs db"
    using old by (simp add: filter_id_conv)
  moreover have "decodeChain (encodeChain c) = c" for c :: "'a ChainedJob list"
    by (simp add: decodeChain_def encodeChain_def nullish_def)
  ultimately show ?thesis
    using assms(3,5)
    by (cases db) (auto simp: retry_def findFailed_def key db1 delete_failed_def insert_job_def toQueuedJob_def
        nullish_def)
qed

theorem fail_retry_restores_witness:
  "\<exists>db1. fail demo_driver 0 (toQueuedJob demo_job 0) ''boom'' \<lparr>jobs = [demo_job], next_id = 2, failed_jobs = []\<rparr>
     = Inr db1 \<and> fst (retry demo_driver 5000 (string_of_nat 1) db1)"
proof -
  let ?db = "\<lparr>jobs = [demo_job], next_id = 2, failed_jobs = []\<rparr>"
  obtain db1 where db1: "fail demo_driver 0 (toQueuedJob demo_job 0) ''boom'' ?db = Inr db1"
    by (simp add: fail_def)
  have "db_wf ?db" by (simp add: db_wf_def demo_job_def)
  moreover obtain found db2 where "retry demo_driver 5000 (string_of_nat (jid demo_job)) db1 = (found, db2)"
    by force
  ultimately show ?thesis
    using fail_retry_restores [OF _ _ refl db1, of demo_driver 5000 found db2] db1
    by (simp add: demo_job_def)
qed

text \<open>
  A job that two workers hold (the first outlived \<open>retryAfterSeconds\<close>) can be failed only
  once: the second \<open>fail\<close> violates the primary key of \<open>failed_jobs\<close> and throws.
\<close>

lemma second_fail_throws:
  assumes "fail drv now job err db = Inr db1" and "qid job' = qid job"
  shows "fail drv' now' job' err' db1 = Inl (DuplicateFailedId (qid job))"
  using assms by (auto simp: fail_def delete_id_def split: if_splits)

text \<open>
  On SQLite a job can be taken although it has just been released for later: a worker that
  selected its candidates before another worker took and released the job still finds
  \<open>reserved_at\<close> unset.  It runs the job before it is due, and with the attempts of its stale
  read, so the released attempt is not counted.
\<close>

lemma stale_candidate_ignores_release:
  "\<exists>w job row. (queue_step demo_driver ''default'')\<^sup>*\<^sup>* (queue_start :: unit QueueWorld) w \<and>
     taken w 0 = Some job \<and> row \<in> set (jobs (qdb w)) \<and> jid row = qid job \<and>
     qattempts job < jattempts row \<and> timestamp (qclock w) < available_at row"
proof -
  note [simp] = demo_simps
  let ?R = "queue_step demo_driver ''default''"
  define job where "job = toQueuedJob demo_job 0"
  define w1 :: "unit QueueWorld" where
    "w1 = queue_start\<lparr>qdb := push demo_driver (qclock (queue_start :: unit QueueWorld)) ''J'' () None [] (Some ''default'') (qdb queue_start)\<rparr>"
  define w2 where "w2 = w1\<lparr>cand := (cand w1)(0 := candidates demo_driver (qclock w1) ''default'' (qdb w1))\<rparr>"
  define w3 where "w3 = w2\<lparr>cand := (cand w2)(1 := candidates demo_driver (qclock w2) ''default'' (qdb w2))\<rparr>"
  define w4 where "w4 = w3\<lparr>qdb := snd (try_reserve (qclock w3) demo_job (qdb w3)), cand := (cand w3)(1 := []),
      taken := (taken w3)(1 := Some (toQueuedJob demo_job (attempts_after demo_job))),
      outstanding := (outstanding w3)(jid demo_job := Some (1, timestamp (qclock w3)))\<rparr>"
  define w5 where "w5 = w4\<lparr>qdb := release (qclock w4) 600 job (qdb w4),
      taken := (taken w4)(1 := None), outstanding := (outstanding w4)(qid job := None)\<rparr>"
  define w6 where "w6 = w5\<lparr>qdb := snd (try_reserve (qclock w5) demo_job (qdb w5)), cand := (cand w5)(0 := []),
      taken := (taken w5)(0 := Some (toQueuedJob demo_job (attempts_after demo_job))),
      outstanding := (outstanding w5)(jid demo_job := Some (0, timestamp (qclock w5)))\<rparr>"
  have d1: "qdb w1 = \<lparr>jobs = [demo_job], next_id = 2, failed_jobs = []\<rparr>" "qclock w1 = 0"
    by (simp_all add: w1_def demo_job_def)
  have cand1: "candidates demo_driver 0 ''default'' (qdb w1) = [demo_job]"
    unfolding d1 by (simp add: candidates_def eligible_def is_eligible_def demo_job_def)
  have w2: "qclock w2 = 0" "qdb w2 = qdb w1" using d1(2) by (simp_all add: w2_def)
  have c1: "cand w3 1 = [demo_job]" unfolding w3_def w2 cand1 by simp
  have d3: "qdb w3 = qdb w1" "qclock w3 = 0" "cand w3 0 = [demo_job]"
    using cand1 d1(2) by (simp_all add: w2_def w3_def)
  have d5: "qdb w5 = \<lparr>jobs = [demo_job\<lparr>jattempts := 1, available_at := 600\<rparr>], next_id = 2, failed_jobs = []\<rparr>"
    "qclock w5 = 0" "cand w5 0 = [demo_job]"
    using d1 d3 by (simp_all add: w4_def w5_def job_def demo_job_def)
  have "?R queue_start w1" unfolding w1_def
    by (rule queue_step.pushed)
  moreover have "?R w1 w2" unfolding w2_def by (rule queue_step.selected) (simp add: w1_def)
  moreover have "?R w2 w3" unfolding w3_def by (rule queue_step.selected) (simp add: w1_def w2_def)
  moreover have "?R w3 w4" unfolding w4_def
    by (rule queue_step.won [where cs = "[]" and n = 0, OF c1]) (simp add: d3 d1)
  moreover have "?R w4 w5" unfolding w5_def
    by (rule queue_step.released) (simp add: w4_def job_def demo_job_def)
  moreover have "?R w5 w6" unfolding w6_def
    by (rule queue_step.won [where cs = "[]" and n = 0]) (simp_all add: d5 demo_job_def)
  ultimately have "?R\<^sup>*\<^sup>* queue_start w6"
    by (meson rtranclp.rtrancl_into_rtrancl rtranclp.rtrancl_refl)
  moreover have "taken w6 0 = Some job" "qclock w6 = 0"
    "qdb w6 = \<lparr>jobs = [demo_job\<lparr>jattempts := 1, available_at := 600, reserved_at := Some 0\<rparr>],
       next_id = 2, failed_jobs = []\<rparr>"
    using d5 by (simp_all add: w6_def job_def demo_job_def)
  ultimately show ?thesis
    by (intro exI [of _ w6] exI [of _ job]) (simp add: job_def demo_job_def)
qed

end
