(* ===== verification/QueueWorker.thy ===== *)
theory QueueWorker
  imports CacheLock QueueTables
begin

text \<open>
  The worker and the dispatcher of the queue: \<open>framework/queue/src/commands/queue-work.ts\<close>
  (\<open>processJob\<close> and what it calls), \<open>unique-jobs.ts\<close> and \<open>queue-manager.ts\<close>.  The driver is a
  record of operations that may throw; a thrown operation leaves its store as it was, since
  each is one statement or one transaction.  Job classes are the application's: whether a name
  is registered, how a state decodes, and what a run does are parameters.  Lifecycle events and
  hooks are a log; listeners and hooks that throw are swallowed by the code.
\<close>

section \<open>Jobs, drivers and the world\<close>

datatype unique_mode = UntilFinished | UntilProcessing

record JobInst =
  j_maxAttempts :: nat
  j_uniqueId :: "string option"
  j_uniqueFor :: "int option"
  j_backoff :: "(nat \<Rightarrow> int) option"
  j_retryUntil :: "int option"
  j_timeout :: "int option"

datatype decoded = Decoded JobInst | MissingModel JobInst | Undecodable string

datatype run_result = Ran | AskedRelease int | Threw string

datatype job_error =
    RunThrew string | ReleaseAsked int | TimedOut int
  | MaxAttemptsExceeded string nat nat
  | NotRegistered string | DecodeFailed string | DriverThrew string

datatype job_event =
    JobProcessing | JobProcessed | JobReleased int | FailedHook job_error | JobFailed job_error
  | ChainStopped string | ChainDropped string

record ('p, 's) DriverOps =
  d_push :: "string \<Rightarrow> 'p \<Rightarrow> 'p ChainedJob list \<Rightarrow> string option \<Rightarrow> 's \<Rightarrow> string + 's"
  d_release :: "'p QueuedJob \<Rightarrow> int \<Rightarrow> 's \<Rightarrow> string + 's"
  d_delete :: "'p QueuedJob \<Rightarrow> 's \<Rightarrow> string + 's"
  d_fail :: "'p QueuedJob \<Rightarrow> job_error \<Rightarrow> 's \<Rightarrow> string + 's"

text \<open>A run of a job through its middleware: a result, the milliseconds it took, the store.\<close>

record ('p, 's) App =
  registered :: "string \<Rightarrow> bool"
  uniqueModeOf :: "string \<Rightarrow> unique_mode option"
  decodeJob :: "string \<Rightarrow> 'p \<Rightarrow> decoded"
  runJob :: "JobInst \<Rightarrow> 's \<Rightarrow> run_result \<times> int \<times> 's"
  hasCache :: bool
  uniqueForDefault :: "int option"

record WorkerOpts =
  tries :: "nat option"
  timeoutSeconds :: "int option"
  backoffSeconds :: "int option"

record 's World =
  w_store :: 's
  w_cache :: array_store
  w_log :: "job_event list"

definition fire :: "job_event \<Rightarrow> 's World \<Rightarrow> 's World" where
  "fire e w = w\<lparr>w_log := w_log w @ [e]\<rparr>"

text \<open>A driver call: its error is thrown.\<close>

definition drive :: "('s \<Rightarrow> string + 's) \<Rightarrow> 's World \<Rightarrow> (job_error + unit) \<times> 's World" where
  "drive f w = (case f (w_store w) of
     Inl e \<Rightarrow> (Inl (DriverThrew e), w)
   | Inr s \<Rightarrow> (Inr (), w\<lparr>w_store := s\<rparr>))"

section \<open>Unique jobs\<close>

definition DEFAULT_UNIQUE_FOR_SECONDS :: int where "DEFAULT_UNIQUE_FOR_SECONDS = 3600"

definition uniqueLockKey :: "string \<Rightarrow> JobInst \<Rightarrow> string" where
  "uniqueLockKey registryName job = ''mahi:unique:'' @ registryName @ '':'' @ nullish (j_uniqueId job) []"

definition unique_lock :: "string \<Rightarrow> string \<Rightarrow> JobInst \<Rightarrow> int \<Rightarrow> int option \<Rightarrow> Lock" where
  "unique_lock uuid registryName job ttl wait =
     new_lock uuid \<lparr>lo_key = uniqueLockKey registryName job, automaticReleaseAfterSeconds = of_int ttl,
       maximumWaitForSeconds = wait, lo_retryEvery = None\<rparr>"

definition acquireUniqueLock ::
  "('p, 's) App \<Rightarrow> array_store Env \<Rightarrow> int \<Rightarrow> string \<Rightarrow> string \<Rightarrow> JobInst \<Rightarrow> array_store
     \<Rightarrow> bool \<times> array_store" where
  "acquireUniqueLock app env now uuid registryName job cache =
     (if uniqueModeOf app registryName = None then (True, cache)
      else if \<not> hasCache app then (True, cache)
      else
        let ttl = nullish (j_uniqueFor job) (nullish (uniqueForDefault app) DEFAULT_UNIQUE_FOR_SECONDS) in
        case acquire array_ops env (unique_lock uuid registryName job ttl (Some 0)) now cache of
          Some (Inr _, _, cache') \<Rightarrow> (True, cache')
        | Some (Inl _, _, cache') \<Rightarrow> (False, cache')
        | None \<Rightarrow> (False, cache))"

definition acquireUniqueLockForState ::
  "('p, 's) App \<Rightarrow> array_store Env \<Rightarrow> int \<Rightarrow> string \<Rightarrow> string \<Rightarrow> 'p \<Rightarrow> array_store
     \<Rightarrow> bool \<times> array_store" where
  "acquireUniqueLockForState app env now uuid registryName state cache =
     (if uniqueModeOf app registryName = None then (True, cache)
      else case decodeJob app registryName state of
        Decoded job \<Rightarrow> acquireUniqueLock app env now uuid registryName job cache
      | _ \<Rightarrow> (True, cache))"

definition releaseUniqueLock ::
  "('p, 's) App \<Rightarrow> int \<Rightarrow> string \<Rightarrow> JobInst \<Rightarrow> array_store \<Rightarrow> array_store" where
  "releaseUniqueLock app now registryName job cache =
     (if uniqueModeOf app registryName = None \<or> \<not> hasCache app then cache
      else snd (forceRelease array_ops now
        (unique_lock [] registryName job (nullish (j_uniqueFor job) DEFAULT_UNIQUE_FOR_SECONDS) None)
        cache))"

definition unlock_if ::
  "unique_mode \<Rightarrow> ('p, 's) App \<Rightarrow> int \<Rightarrow> string \<Rightarrow> JobInst \<Rightarrow> 's World \<Rightarrow> 's World" where
  "unlock_if mode app now name job w =
     (if uniqueModeOf app name = Some mode
      then w\<lparr>w_cache := releaseUniqueLock app now name job (w_cache w)\<rparr> else w)"

section \<open>Dispatching\<close>

text \<open>
  \<open>QueueManager.dispatch\<close> of an encoded job with its encoded chain, outside a transaction: the
  result says whether a job was pushed.
\<close>

definition dispatch ::
  "('p, 's) App \<Rightarrow> ('p, 's) DriverOps \<Rightarrow> array_store Env \<Rightarrow> int \<Rightarrow> string \<Rightarrow> string \<Rightarrow> JobInst \<Rightarrow> 'p
     \<Rightarrow> 'p ChainedJob list \<Rightarrow> string option \<Rightarrow> 's World \<Rightarrow> (job_error + bool) \<times> 's World" where
  "dispatch app ops env now uuid name job state chain q w =
     (if \<not> registered app name then (Inl (NotRegistered name), w)
      else
        let (acquired, cache) = acquireUniqueLock app env now uuid name job (w_cache w);
            w1 = w\<lparr>w_cache := cache\<rparr> in
        if \<not> acquired then (Inr False, w1)
        else case drive (d_push ops name state chain q) w1 of
          (Inl e, w2) \<Rightarrow> (Inl e, w2)
        | (Inr _, w2) \<Rightarrow> (Inr True, w2))"

section \<open>The worker\<close>

definition defaultBackoffSeconds :: "nat \<Rightarrow> int" where
  "defaultBackoffSeconds attempts = int attempts * 5"

text \<open>A run that ends when the timer fires counts as finished in time.\<close>

definition runWithTimeout ::
  "run_result \<times> int \<times> 's \<Rightarrow> int option \<Rightarrow> (job_error + unit) \<times> int \<times> 's" where
  "runWithTimeout work timeout =
     (let (r, ms, s) = work;
          result = (case r of Ran \<Rightarrow> Inr () | AskedRelease d \<Rightarrow> Inl (ReleaseAsked d) | Threw e \<Rightarrow> Inl (RunThrew e)) in
      case timeout of
        None \<Rightarrow> (result, ms, s)
      | Some t \<Rightarrow> if t \<le> 0 \<or> ms \<le> t * 1000 then (result, ms, s) else (Inl (TimedOut t), t * 1000, s))"

definition retryDeadlinePassed :: "int \<Rightarrow> JobInst \<Rightarrow> bool" where
  "retryDeadlinePassed now job = (case j_retryUntil job of None \<Rightarrow> False | Some deadline \<Rightarrow> deadline \<le> now)"

definition maxAttemptsFor :: "WorkerOpts \<Rightarrow> JobInst \<Rightarrow> nat" where
  "maxAttemptsFor opts job = nullish (tries opts) (j_maxAttempts job)"

definition failJob ::
  "('p, 's) App \<Rightarrow> ('p, 's) DriverOps \<Rightarrow> int \<Rightarrow> 'p QueuedJob \<Rightarrow> JobInst option \<Rightarrow> job_error \<Rightarrow> 's World
     \<Rightarrow> (job_error + unit) \<times> 's World" where
  "failJob app ops now queued job err w =
     (case drive (d_fail ops queued err) w of
        (Inl e, w1) \<Rightarrow> (Inl e, w1)
      | (Inr _, w1) \<Rightarrow>
          (Inr (), case job of
             None \<Rightarrow> w1
           | Some j \<Rightarrow> fire (JobFailed err) (fire (FailedHook err)
               (unlock_if UntilFinished app now (qclass queued) j w1))))"

definition dispatchNextInChain ::
  "('p, 's) App \<Rightarrow> ('p, 's) DriverOps \<Rightarrow> array_store Env \<Rightarrow> int \<Rightarrow> string \<Rightarrow> 'p QueuedJob \<Rightarrow> 's World
     \<Rightarrow> (job_error + unit) \<times> 's World" where
  "dispatchNextInChain app ops env now uuid queued w =
     (case qchain queued of
        [] \<Rightarrow> (Inr (), w)
      | link # rest \<Rightarrow>
          if \<not> registered app (cj_class link) then (Inr (), fire (ChainStopped (cj_class link)) w)
          else
            let (acquired, cache) =
                  acquireUniqueLockForState app env now uuid (cj_class link) (cj_state link) (w_cache w);
                w1 = w\<lparr>w_cache := cache\<rparr> in
            if \<not> acquired then (Inr (), fire (ChainDropped (cj_class link)) w1)
            else drive (d_push ops (cj_class link) (cj_state link) rest (qqueue queued)) w1)"

text \<open>The body of the \<open>try\<close>: run, delete, unlock, announce, advance the chain.\<close>

definition attempt_job ::
  "('p, 's) App \<Rightarrow> ('p, 's) DriverOps \<Rightarrow> WorkerOpts \<Rightarrow> array_store Env \<Rightarrow> int \<Rightarrow> string \<Rightarrow> 'p QueuedJob
     \<Rightarrow> JobInst \<Rightarrow> 's World \<Rightarrow> (job_error + unit) \<times> int \<times> 's World" where
  "attempt_job app ops opts env now uuid queued job w =
     (let timeout = (case j_timeout job of None \<Rightarrow> timeoutSeconds opts | t \<Rightarrow> t);
          (r, ms, s) = runWithTimeout (runJob app job (w_store w)) timeout;
          now1 = now + ms; w1 = w\<lparr>w_store := s\<rparr> in
      case r of
        Inl e \<Rightarrow> (Inl e, now1, w1)
      | Inr _ \<Rightarrow>
          (case drive (d_delete ops queued) w1 of
             (Inl e, w2) \<Rightarrow> (Inl e, now1, w2)
           | (Inr _, w2) \<Rightarrow>
               let w3 = fire JobProcessed (unlock_if UntilFinished app now1 (qclass queued) job w2) in
               case dispatchNextInChain app ops env now1 uuid queued w3 of
                 (r4, w4) \<Rightarrow> (r4, now1, w4)))"

text \<open>The \<open>catch\<close>.\<close>

definition release_job ::
  "('p, 's) DriverOps \<Rightarrow> 'p QueuedJob \<Rightarrow> int \<Rightarrow> 's World \<Rightarrow> (job_error + unit) \<times> 's World" where
  "release_job ops queued delay w =
     (case drive (d_release ops queued delay) w of
        (Inl e, w1) \<Rightarrow> (Inl e, w1)
      | (Inr _, w1) \<Rightarrow> (Inr (), fire (JobReleased delay) w1))"

definition handle_error ::
  "('p, 's) App \<Rightarrow> ('p, 's) DriverOps \<Rightarrow> WorkerOpts \<Rightarrow> int \<Rightarrow> 'p QueuedJob \<Rightarrow> JobInst \<Rightarrow> job_error
     \<Rightarrow> 's World \<Rightarrow> (job_error + unit) \<times> 's World" where
  "handle_error app ops opts now queued job err w =
     (let exhausted = maxAttemptsFor opts job \<le> qattempts queued + 1 in
      case err of
        ReleaseAsked d \<Rightarrow>
          if exhausted then failJob app ops now queued (Some job) err w
          else release_job ops queued d w
      | _ \<Rightarrow>
          if exhausted \<or> retryDeadlinePassed now job then failJob app ops now queued (Some job) err w
          else
            let attempt = qattempts queued + 1;
                delay = (case j_backoff job of
                    Some f \<Rightarrow> f attempt
                  | None \<Rightarrow> nullish (backoffSeconds opts) (defaultBackoffSeconds attempt)) in
            release_job ops queued delay w)"

definition processJob ::
  "('p, 's) App \<Rightarrow> ('p, 's) DriverOps \<Rightarrow> WorkerOpts \<Rightarrow> array_store Env \<Rightarrow> int \<Rightarrow> string \<Rightarrow> 'p QueuedJob
     \<Rightarrow> 's World \<Rightarrow> (job_error + unit) \<times> 's World" where
  "processJob app ops opts env now uuid queued w =
     (if \<not> registered app (qclass queued)
      then failJob app ops now queued None (NotRegistered (qclass queued)) w
      else case decodeJob app (qclass queued) (qstate queued) of
        MissingModel bare \<Rightarrow>
          (case drive (d_delete ops queued) w of
             (Inl e, w1) \<Rightarrow> (Inl e, w1)
           | (Inr _, w1) \<Rightarrow>
               (Inr (), w1\<lparr>w_cache := releaseUniqueLock app now (qclass queued) bare (w_cache w1)\<rparr>))
      | Undecodable e \<Rightarrow> failJob app ops now queued None (DecodeFailed e) w
      | Decoded job \<Rightarrow>
          let maxAttempts = maxAttemptsFor opts job in
          if maxAttempts \<le> qattempts queued
          then failJob app ops now queued (Some job)
                 (MaxAttemptsExceeded (qclass queued) (qattempts queued) maxAttempts) w
          else
            let w1 = fire JobProcessing (unlock_if UntilProcessing app now (qclass queued) job w) in
            case attempt_job app ops opts env now uuid queued job w1 of
              (Inr _, _, w2) \<Rightarrow> (Inr (), w2)
            | (Inl e, now2, w2) \<Rightarrow> handle_error app ops opts now2 queued job e w2)"

section \<open>Unique locks are taken once\<close>

lemma acquire_once:
  assumes "maximumWaitForMs lk = Some 0"
  shows "acquire ops env lk now s =
    (let (ok, s') = attempt ops now lk s in
     Some (if ok then Inr (lk\<lparr>held := True\<rparr>) else Inl (LockTimeout (lock_name lk)), now + int (latency env 0), s'))"
  using assms by (subst acquire_def, subst acquire_loop.simps) (simp add: Let_def split: prod.split)

lemma lock_ttl_unique: "lock_ttl (unique_lock uuid name job ttl wait) = max 1 ttl"
  by (simp add: lock_ttl_def unique_lock_def new_lock_def)

lemma acquireUniqueLock_attempt:
  assumes "uniqueModeOf app name \<noteq> None" "hasCache app"
  shows "acquireUniqueLock app env now uuid name job cache =
    attempt array_ops now (unique_lock uuid name job
      (nullish (j_uniqueFor job) (nullish (uniqueForDefault app) DEFAULT_UNIQUE_FOR_SECONDS)) (Some 0)) cache"
proof -
  have "maximumWaitForMs (unique_lock uuid name job ttl (Some 0)) = Some 0" for ttl
    by (simp add: unique_lock_def new_lock_def)
  then show ?thesis
    using assms by (auto simp: acquireUniqueLock_def acquire_once Let_def split: prod.split)
qed

lemma unique_lock_excludes:
  assumes "uniqueModeOf app name \<noteq> None" "hasCache app"
    and "acquireUniqueLock app env now uuid name job cache = (True, cache')"
    and "uniqueLockKey name job' = uniqueLockKey name job"
    and "now \<le> now'" "now' \<le> now + 1000 * max 1
      (nullish (j_uniqueFor job) (nullish (uniqueForDefault app) DEFAULT_UNIQUE_FOR_SECONDS))"
  shows "fst (acquireUniqueLock app env' now' uuid' name job' cache') = False"
proof -
  let ?ttl = "\<lambda>job. nullish (j_uniqueFor job) (nullish (uniqueForDefault app) DEFAULT_UNIQUE_FOR_SECONDS)"
  let ?lk = "unique_lock uuid name job (?ttl job) (Some 0)"
  let ?lk' = "unique_lock uuid' name job' (?ttl job') (Some 0)"
  have key: "lockKey ?lk' = lockKey ?lk"
    using assms(4) by (simp add: unique_lock_def new_lock_def)
  have "attempt array_ops now ?lk cache = (True, cache')"
    using acquireUniqueLock_attempt [OF assms(1,2)] assms(3) by metis
  from array.attempt_True(2) [OF this]
  have "live now (map_of cache') (lockKey ?lk) = Some (mk_entry now (VStr (owner ?lk)) (Some (lock_ttl ?lk)))"
    by simp
  from live_later_Some [OF this assms(5)] assms(6)
  have taken: "live now' (map_of cache') (lockKey ?lk') \<noteq> None"
    by (simp add: key expired_mk_entry lock_ttl_unique mult.commute)
  have "\<not> fst (attempt array_ops now' ?lk' cache')"
    using array.attempt_True(1) [of now' ?lk' cache'] taken by (metis prod.collapse)
  then show ?thesis using acquireUniqueLock_attempt [OF assms(1,2), of env' now' uuid' job' cache'] by simp
qed

section \<open>The interface of a driver\<close>

text \<open>
  What the worker relies on: on a store in good order, ending or releasing a live job does not
  throw, and does to the job's attempts (\<open>None\<close> when it is not live) and to the failed jobs
  what its name says; a push creates a job under an id never used before.
\<close>

locale queue_driver =
  fixes ops :: "('p, 's) DriverOps"
    and good :: "'s \<Rightarrow> bool"
    and attempts_of :: "'s \<Rightarrow> nat \<Rightarrow> nat option"
    and buried :: "'s \<Rightarrow> nat \<Rightarrow> bool"
    and used :: "'s \<Rightarrow> nat \<Rightarrow> bool"
  assumes live_used: "good s \<Longrightarrow> attempts_of s i \<noteq> None \<Longrightarrow> used s i \<and> \<not> buried s i"
    and delete_law: "good s \<Longrightarrow> attempts_of s (qid q) \<noteq> None \<Longrightarrow>
        \<exists>s'. d_delete ops q s = Inr s' \<and> good s' \<and> used s' = used s \<and>
          attempts_of s' = (attempts_of s)(qid q := None) \<and> buried s' = buried s"
    and release_law: "good s \<Longrightarrow> attempts_of s (qid q) \<noteq> None \<Longrightarrow>
        \<exists>s'. d_release ops q d s = Inr s' \<and> good s' \<and> used s' = used s \<and>
          attempts_of s' = (attempts_of s)(qid q \<mapsto> qattempts q + 1) \<and> buried s' = buried s"
    and fail_law: "good s \<Longrightarrow> attempts_of s (qid q) \<noteq> None \<Longrightarrow>
        \<exists>s'. d_fail ops q e s = Inr s' \<and> good s' \<and> used s' = used s \<and>
          attempts_of s' = (attempts_of s)(qid q := None) \<and> buried s' = (buried s)(qid q := True)"
    and push_law: "good s \<Longrightarrow>
        \<exists>s' i. d_push ops c p ch qu s = Inr s' \<and> good s' \<and> \<not> used s i \<and> used s' = (used s)(i := True) \<and>
          attempts_of s' = (attempts_of s)(i \<mapsto> 0) \<and> buried s' = buried s"

text \<open>
  The abstract specification of one processing: what becomes of the job, decided by what the
  application says of it and by how its run ends.
\<close>

datatype fate = Done | Retried | Buried job_error

definition run_outcome :: "('p, 's) App \<Rightarrow> WorkerOpts \<Rightarrow> JobInst \<Rightarrow> 's \<Rightarrow> (job_error + unit) \<times> int \<times> 's" where
  "run_outcome app opts job s =
     runWithTimeout (runJob app job s) (case j_timeout job of None \<Rightarrow> timeoutSeconds opts | t \<Rightarrow> t)"

definition fate_of :: "('p, 's) App \<Rightarrow> WorkerOpts \<Rightarrow> int \<Rightarrow> 'p QueuedJob \<Rightarrow> 's \<Rightarrow> fate" where
  "fate_of app opts now queued s =
     (if \<not> registered app (qclass queued) then Buried (NotRegistered (qclass queued))
      else case decodeJob app (qclass queued) (qstate queued) of
        MissingModel _ \<Rightarrow> Done
      | Undecodable e \<Rightarrow> Buried (DecodeFailed e)
      | Decoded job \<Rightarrow>
          if maxAttemptsFor opts job \<le> qattempts queued
          then Buried (MaxAttemptsExceeded (qclass queued) (qattempts queued) (maxAttemptsFor opts job))
          else case run_outcome app opts job s of
            (Inr _, _, _) \<Rightarrow> Done
          | (Inl e, ms, _) \<Rightarrow>
              if maxAttemptsFor opts job \<le> qattempts queued + 1 \<or>
                 ((\<forall>d. e \<noteq> ReleaseAsked d) \<and> retryDeadlinePassed (now + ms) job)
              then Buried e else Retried)"

definition fate_holds ::
  "('s \<Rightarrow> nat \<Rightarrow> nat option) \<Rightarrow> ('s \<Rightarrow> nat \<Rightarrow> bool) \<Rightarrow> 'p QueuedJob \<Rightarrow> fate \<Rightarrow> 's \<Rightarrow> bool" where
  "fate_holds attempts_of buried queued f s =
     (case f of
        Done \<Rightarrow> attempts_of s (qid queued) = None \<and> \<not> buried s (qid queued)
      | Retried \<Rightarrow> attempts_of s (qid queued) = Some (qattempts queued + 1) \<and> \<not> buried s (qid queued)
      | Buried _ \<Rightarrow> attempts_of s (qid queued) = None \<and> buried s (qid queued))"

text \<open>A run may do anything to the store but disturb its good order or the job being run.\<close>

definition runs_kindly ::
  "('p, 's) App \<Rightarrow> ('s \<Rightarrow> bool) \<Rightarrow> ('s \<Rightarrow> nat \<Rightarrow> nat option) \<Rightarrow> nat \<Rightarrow> bool" where
  "runs_kindly app good attempts_of i \<longleftrightarrow>
     (\<forall>job s. good s \<longrightarrow> good (snd (snd (runJob app job s))) \<and>
        attempts_of (snd (snd (runJob app job s))) i = attempts_of s i)"

text \<open>
  A job that is processed, and popped again with its new attempts as long as it is live; the
  result also counts the processings.
\<close>

fun run_to_end ::
  "nat \<Rightarrow> ('s \<Rightarrow> nat \<Rightarrow> nat option) \<Rightarrow> ('p, 's) App \<Rightarrow> ('p, 's) DriverOps \<Rightarrow> WorkerOpts \<Rightarrow> array_store Env
     \<Rightarrow> (nat \<Rightarrow> int) \<Rightarrow> string \<Rightarrow> 'p QueuedJob \<Rightarrow> 's World \<Rightarrow> nat \<times> 's World" where
  "run_to_end 0 attempts_of app ops opts env clk uuid queued w = (0, w)"
| "run_to_end (Suc fuel) attempts_of app ops opts env clk uuid queued w =
     (let w1 = snd (processJob app ops opts env (clk fuel) uuid queued w) in
      case attempts_of (w_store w1) (qid queued) of
        None \<Rightarrow> (1, w1)
      | Some n \<Rightarrow>
          (let (k, w2) = run_to_end fuel attempts_of app ops opts env clk uuid (queued\<lparr>qattempts := n\<rparr>) w1 in
           (Suc k, w2)))"

lemma w_store_frames [simp]:
  "w_store (fire e w) = w_store w" "w_store (unlock_if m app now n j w) = w_store w"
  by (simp_all add: fire_def unlock_if_def)

lemma run_outcome_store: "snd (snd (run_outcome app opts job s)) = snd (snd (runJob app job s))"
  by (auto simp: run_outcome_def runWithTimeout_def Let_def split: prod.split option.split)

lemma run_outcome_time: "case run_outcome app opts job s of (r, ms, _) \<Rightarrow> 0 \<le> ms" if "0 \<le> fst (snd (runJob app job s))"
  using that by (auto simp: run_outcome_def runWithTimeout_def Let_def split: prod.split option.split)

context queue_driver
begin

abbreviation "alive s i \<equiv> attempts_of s i \<noteq> None"

lemma failJob_fate:
  assumes "good (w_store w)" "alive (w_store w) (qid queued)"
  shows "\<exists>w'. failJob app ops now queued job err w = (Inr (), w') \<and> good (w_store w') \<and>
    fate_holds attempts_of buried queued (Buried err) (w_store w')"
proof -
  obtain s' where "d_fail ops queued err (w_store w) = Inr s'" "good s'"
    "attempts_of s' = (attempts_of (w_store w))(qid queued := None)"
    "buried s' = (buried (w_store w))(qid queued := True)"
    using fail_law [OF assms] by blast
  then show ?thesis
    by (auto simp: failJob_def drive_def fate_holds_def split: option.split)
qed

lemma release_job_fate:
  assumes "good (w_store w)" "alive (w_store w) (qid queued)"
  shows "\<exists>w'. release_job ops queued delay w = (Inr (), w') \<and> good (w_store w') \<and>
    fate_holds attempts_of buried queued Retried (w_store w')"
proof -
  obtain s' where "d_release ops queued delay (w_store w) = Inr s'" "good s'"
    "attempts_of s' = (attempts_of (w_store w))(qid queued \<mapsto> qattempts queued + 1)"
    "buried s' = buried (w_store w)"
    using release_law [OF assms] by blast
  then show ?thesis
    using live_used [OF assms] by (auto simp: release_job_def drive_def fate_holds_def)
qed

lemma chain_keeps:
  assumes "good (w_store w)" "used (w_store w) i"
  shows "\<exists>w'. dispatchNextInChain app ops env now uuid queued w = (Inr (), w') \<and> good (w_store w') \<and>
    attempts_of (w_store w') i = attempts_of (w_store w) i \<and> buried (w_store w') i = buried (w_store w) i"
proof (cases "qchain queued")
  case Nil
  then show ?thesis using assms by (simp add: dispatchNextInChain_def)
next
  case (Cons link rest)
  obtain ok cache where lock:
    "acquireUniqueLockForState app env now uuid (cj_class link) (cj_state link) (w_cache w) = (ok, cache)"
    by force
  obtain s' j where "d_push ops (cj_class link) (cj_state link) rest (qqueue queued) (w_store w) = Inr s'"
    "good s'" "\<not> used (w_store w) j" "attempts_of s' = (attempts_of (w_store w))(j \<mapsto> 0)"
    "buried s' = buried (w_store w)"
    using push_law [OF assms(1)] by blast
  then show ?thesis
    using assms by (auto simp: dispatchNextInChain_def Cons lock drive_def Let_def)
qed

lemma processJob_fate:
  assumes good: "good (w_store w)" and live: "alive (w_store w) (qid queued)"
    and kind: "runs_kindly app good attempts_of (qid queued)"
  shows "\<exists>w'. processJob app ops opts env now uuid queued w = (Inr (), w') \<and> good (w_store w') \<and>
    fate_holds attempts_of buried queued (fate_of app opts now queued (w_store w)) (w_store w')"
proof (cases "registered app (qclass queued)")
  case False
  then show ?thesis
    using failJob_fate [OF good live] by (simp add: processJob_def fate_of_def)
next
  case reg: True
  show ?thesis
  proof (cases "decodeJob app (qclass queued) (qstate queued)")
    case (Undecodable e)
    then show ?thesis
      using failJob_fate [OF good live] reg by (simp add: processJob_def fate_of_def)
  next
    case (MissingModel bare)
    obtain s' where "d_delete ops queued (w_store w) = Inr s'" "good s'"
      "attempts_of s' = (attempts_of (w_store w))(qid queued := None)" "buried s' = buried (w_store w)"
      using delete_law [OF good live] by blast
    then show ?thesis
      using reg MissingModel live_used [OF good live]
      by (simp add: processJob_def fate_of_def drive_def fate_holds_def)
  next
    case (Decoded job)
    show ?thesis
    proof (cases "maxAttemptsFor opts job \<le> qattempts queued")
      case True
      then show ?thesis
        using failJob_fate [OF good live] reg Decoded by (simp add: processJob_def fate_of_def Let_def)
    next
      case False
      define w1 where "w1 = fire JobProcessing (unlock_if UntilProcessing app now (qclass queued) job w)"
      obtain r ms s where run: "run_outcome app opts job (w_store w) = (r, ms, s)" by (metis prod_cases3)
      have s: "good s" "alive s (qid queued)"
        using kind good live run_outcome_store [of app opts job "w_store w"]
        unfolding runs_kindly_def run by auto
      define w2 where "w2 = w1\<lparr>w_store := s\<rparr>"
      have att: "attempt_job app ops opts env now uuid queued job w1 =
          (case r of Inl e \<Rightarrow> (Inl e, now + ms, w2)
           | Inr _ \<Rightarrow> (case drive (d_delete ops queued) w2 of
               (Inl e, w2) \<Rightarrow> (Inl e, now + ms, w2)
             | (Inr _, w2) \<Rightarrow> (case dispatchNextInChain app ops env (now + ms) uuid queued
                 (fire JobProcessed (unlock_if UntilFinished app (now + ms) (qclass queued) job w2)) of
                   (r4, w4) \<Rightarrow> (r4, now + ms, w4))))"
        using run [unfolded run_outcome_def] unfolding attempt_job_def Let_def w2_def
      by (simp add: w1_def)
      have proc: "processJob app ops opts env now uuid queued w =
          (case attempt_job app ops opts env now uuid queued job w1 of
              (Inr _, _, w2) \<Rightarrow> (Inr (), w2)
            | (Inl e, now2, w2) \<Rightarrow> handle_error app ops opts now2 queued job e w2)"
        using reg Decoded False by (simp add: processJob_def w1_def Let_def)
      show ?thesis
      proof (cases r)
        case (Inr u)
        obtain s' where s': "d_delete ops queued s = Inr s'" "good s'" "used s' = used s"
          "attempts_of s' = (attempts_of s)(qid queued := None)" "buried s' = buried s"
          using delete_law [OF s] by blast
        define w3 where "w3 = fire JobProcessed (unlock_if UntilFinished app (now + ms) (qclass queued) job (w2\<lparr>w_store := s'\<rparr>))"
        have w3: "w_store w3 = s'" by (simp add: w3_def)
        obtain w4 where w4: "dispatchNextInChain app ops env (now + ms) uuid queued w3 = (Inr (), w4)"
          "good (w_store w4)" "attempts_of (w_store w4) (qid queued) = None"
          "buried (w_store w4) (qid queued) = buried s (qid queued)"
          using chain_keeps [of w3 "qid queued" app env "now + ms" uuid queued] s' live_used [OF s] w3 by auto
        have "processJob app ops opts env now uuid queued w = (Inr (), w4)"
          using w4(1) s'(1) Inr by (simp add: proc att drive_def w2_def w3_def)
        moreover have "fate_of app opts now queued (w_store w) = Done"
          using reg Decoded False run Inr by (simp add: fate_of_def)
        ultimately show ?thesis
          using w4 live_used [OF s] by (simp add: fate_holds_def)
      next
        case (Inl e)
        have good2: "good (w_store w2)" "alive (w_store w2) (qid queued)" using s by (simp_all add: w2_def)
        have p: "processJob app ops opts env now uuid queued w = handle_error app ops opts (now + ms) queued job e w2"
          by (simp add: proc att Inl)
        have f: "fate_of app opts now queued (w_store w) =
            (if maxAttemptsFor opts job \<le> qattempts queued + 1 \<or>
               ((\<forall>d. e \<noteq> ReleaseAsked d) \<and> retryDeadlinePassed (now + ms) job) then Buried e else Retried)"
          using reg Decoded False run Inl by (simp add: fate_of_def)
        show ?thesis
          unfolding p f using failJob_fate [OF good2] release_job_fate [OF good2]
          by (auto simp: handle_error_def Let_def split: job_error.split)
      qed
    qed
  qed
qed

lemma retried_bound:
  assumes "fate_of app opts now queued s = Retried"
  shows "\<exists>job. decodeJob app (qclass queued) (qstate queued) = Decoded job \<and>
    qattempts queued + 1 < maxAttemptsFor opts job"
  using assms by (auto simp: fate_of_def split: if_splits decoded.splits prod.splits sum.splits)

lemma run_to_end_settles:
  assumes "good (w_store w)" "alive (w_store w) (qid queued)"
    and "runs_kindly app good attempts_of (qid queued)"
    and bound: "\<And>job. decodeJob app (qclass queued) (qstate queued) = Decoded job \<Longrightarrow> maxAttemptsFor opts job \<le> M"
    and "M - qattempts queued < fuel"
  shows "case run_to_end fuel attempts_of app ops opts env clk uuid queued w of
    (k, w') \<Rightarrow> attempts_of (w_store w') (qid queued) = None \<and> k \<le> max 1 (M - qattempts queued)"
  using assms
proof (induction fuel arbitrary: queued w)
  case 0
  then show ?case by simp
next
  case (Suc fuel)
  obtain w1 where w1: "processJob app ops opts env (clk fuel) uuid queued w = (Inr (), w1)"
    "good (w_store w1)"
    "fate_holds attempts_of buried queued (fate_of app opts (clk fuel) queued (w_store w)) (w_store w1)"
    using processJob_fate [OF Suc.prems(1-3)] by blast
  show ?case
  proof (cases "attempts_of (w_store w1) (qid queued)")
    case None
    then show ?thesis by (simp add: w1(1) Let_def)
  next
    case (Some n)
    then have fate: "fate_of app opts (clk fuel) queued (w_store w) = Retried"
      and n: "n = qattempts queued + 1"
      using w1(3) by (auto simp: fate_holds_def split: fate.splits)
    let ?q = "queued\<lparr>qattempts := n\<rparr>"
    have lt: "qattempts queued + 1 < M"
      using retried_bound [OF fate] Suc.prems(4) by (meson order_less_le_trans)
    have "case run_to_end fuel attempts_of app ops opts env clk uuid ?q w1 of
        (k, w') \<Rightarrow> attempts_of (w_store w') (qid ?q) = None \<and> k \<le> max 1 (M - qattempts ?q)"
      by (rule Suc.IH) (use w1(2) Some Suc.prems(3-5) lt n in auto)
    then show ?thesis
      using lt by (auto simp: w1(1) Some Let_def n split: prod.splits)
  qed
qed

end

section \<open>The database driver meets the interface\<close>

definition error_message :: "job_error \<Rightarrow> string" where
  "error_message e = (case e of
     RunThrew m \<Rightarrow> m
   | ReleaseAsked d \<Rightarrow> ''Job released back onto the queue (retry in '' @ string_of_nat (nat d) @ ''s).''
   | TimedOut t \<Rightarrow> ''Job exceeded its '' @ string_of_nat (nat t) @ ''s timeout.''
   | MaxAttemptsExceeded c n m \<Rightarrow> ''Job ['' @ c @ ''] has been attempted '' @ string_of_nat n
       @ '' times (max '' @ string_of_nat m
       @ '') without completing. It was most likely timing out or crashing its worker.''
   | NotRegistered c \<Rightarrow> ''Job ['' @ c @ ''] is not registered.''
   | DecodeFailed m \<Rightarrow> m
   | DriverThrew m \<Rightarrow> m)"

definition database_ops :: "Driver \<Rightarrow> int \<Rightarrow> ('p, 'p QueueDb) DriverOps" where
  "database_ops drv now =
     \<lparr>d_push = (\<lambda>c p chain q db. Inr (push drv now c p None chain q db)),
      d_release = (\<lambda>q d db. Inr (QueueTables.release now d q db)),
      d_delete = (\<lambda>q db. Inr (delete q db)),
      d_fail = (\<lambda>q e db. case fail drv now q (error_message e) db of
         Inl _ \<Rightarrow> Inl ''UNIQUE constraint failed: failed_jobs.id'' | Inr db' \<Rightarrow> Inr db')\<rparr>"

definition db_attempts :: "'p QueueDb \<Rightarrow> nat \<Rightarrow> nat option" where
  "db_attempts db = map_of (map (\<lambda>r. (jid r, jattempts r)) (jobs db))"

definition db_buried :: "'p QueueDb \<Rightarrow> nat \<Rightarrow> bool" where
  "db_buried db i \<longleftrightarrow> i \<in> fid ` set (failed_jobs db)"

definition db_used :: "'p QueueDb \<Rightarrow> nat \<Rightarrow> bool" where
  "db_used db i \<longleftrightarrow> i < next_id db"

lemma db_attempts_live: "db_attempts db i \<noteq> None \<longleftrightarrow> i \<in> jid ` set (jobs db)"
  by (force simp: db_attempts_def map_of_eq_None_iff)

lemma db_attempts_delete: "db_attempts (delete_id i db) = (db_attempts db)(i := None)"
proof -
  have "map_of (map (\<lambda>r. (jid r, jattempts r)) (filter (\<lambda>r. jid r \<noteq> i) rs)) =
      (map_of (map (\<lambda>r. (jid r, jattempts r)) rs))(i := None)" for rs :: "'a JobRow list"
    by (induction rs) (auto simp: fun_eq_iff)
  then show ?thesis by (simp add: db_attempts_def delete_id_def)
qed

lemma db_attempts_update:
  assumes "db_attempts db i \<noteq> None" "\<And>r. jattempts (f r) = n" "\<And>r. jid (f r) = jid r"
  shows "db_attempts (update_job i f db) = (db_attempts db)(i \<mapsto> n)"
proof -
  have "map_of (map (\<lambda>r. (jid r, jattempts r)) (map (\<lambda>r. if jid r = i then f r else r) rs)) =
      (if i \<in> jid ` set rs then (map_of (map (\<lambda>r. (jid r, jattempts r)) rs))(i \<mapsto> n)
       else map_of (map (\<lambda>r. (jid r, jattempts r)) rs))" for rs
    using assms(2,3) by (induction rs) (auto simp: fun_eq_iff)
  then show ?thesis using assms(1) unfolding db_attempts_live by (simp add: db_attempts_def update_job_def)
qed

lemma db_attempts_insert:
  assumes "db_wf db"
  shows "db_attempts (insert_job row db) = (db_attempts db)(next_id db \<mapsto> jattempts row)"
proof -
  have "db_attempts db (next_id db) = None"
    using assms db_attempts_live [of db "next_id db"] by (auto simp: db_wf_def)
  then show ?thesis
    by (auto simp: db_attempts_def insert_job_def fun_eq_iff map_add_def split: option.split)
qed

lemma db_wf_delete: "db_wf db \<Longrightarrow> db_wf (delete_id i db)"
  by (simp add: delete_id_def db_wf_filter_jobs)

interpretation database: queue_driver "database_ops drv now" db_wf db_attempts db_buried db_used
proof (unfold_locales, goal_cases)
  case (1 s i)
  then show ?case unfolding db_attempts_live by (auto simp: db_wf_def db_used_def db_buried_def)
next
  case (2 s q)
  have "d_delete (database_ops drv now) q s = Inr (delete q s)" by (simp add: database_ops_def)
  moreover have "db_wf (delete q s)" "db_attempts (delete q s) = (db_attempts s)(qid q := None)"
    using 2 by (simp_all add: delete_def db_wf_delete db_attempts_delete)
  moreover have "db_buried (delete q s) = db_buried s" "db_used (delete q s) = db_used s"
    by (auto simp: fun_eq_iff db_buried_def db_used_def delete_def delete_id_def)
  ultimately show ?case by blast
next
  case (3 s q d)
  then have "db_attempts (QueueTables.release now d q s) = (db_attempts s)(qid q \<mapsto> qattempts q + 1)"
    unfolding release_def by (intro db_attempts_update) auto
  then show ?case
    using 3 by (simp add: database_ops_def release_def update_job_wf)
      (simp add: db_used_def db_buried_def update_job_def fun_eq_iff)
next
  case (4 s q e)
  have "qid q \<notin> fid ` set (failed_jobs s)" "qid q < next_id s"
    using 4 unfolding db_attempts_live db_wf_def by (metis imageE)+
  then obtain s' where s': "fail drv now q (error_message e) s = Inr s'" by (simp add: fail_def)
  have "db_wf s'" by (rule fail_wf [OF s']) (use 4 \<open>qid q < next_id s\<close> in auto)
  moreover have s'': "s' = delete_id (qid q) (s\<lparr>failed_jobs := failed_jobs s'\<rparr>)"
    "fid ` set (failed_jobs s') = insert (qid q) (fid ` set (failed_jobs s))"
    using s' by (auto simp: fail_def delete_id_def split: if_splits)
  moreover have "db_attempts s' = (db_attempts s)(qid q := None)"
    by (subst s''(1)) (simp add: db_attempts_delete, simp add: db_attempts_def)
  moreover have "next_id s' = next_id s" by (subst s''(1)) simp
  ultimately show ?case
    using s' by (auto simp: database_ops_def db_used_def db_buried_def fun_eq_iff)
next
  case (5 s c p ch qu)
  let ?s' = "push drv now c p None ch qu s"
  have "db_wf ?s'" "db_attempts ?s' = (db_attempts s)(next_id s \<mapsto> 0)"
    unfolding push_def by (simp_all add: insert_job_wf db_attempts_insert 5)
  moreover have "db_buried ?s' = db_buried s" "db_used ?s' = (db_used s)(next_id s := True)"
    "\<not> db_used s (next_id s)"
    by (auto simp: fun_eq_iff db_buried_def db_used_def push_def insert_job_def)
  moreover have "d_push (database_ops drv now) c p ch qu s = Inr ?s'" by (simp add: database_ops_def)
  ultimately show ?case by blast
qed

section \<open>Properties\<close>


definition demo_inst :: JobInst where
  "demo_inst = \<lparr>j_maxAttempts = 3, j_uniqueId = None, j_uniqueFor = None, j_backoff = None,
     j_retryUntil = None, j_timeout = None\<rparr>"

definition demo_app :: "run_result \<Rightarrow> (unit, 's) App" where
  "demo_app r = \<lparr>registered = (\<lambda>_. True), uniqueModeOf = (\<lambda>_. None), decodeJob = (\<lambda>_ _. Decoded demo_inst),
     runJob = (\<lambda>_ s. (r, 10, s)), hasCache = False, uniqueForDefault = None\<rparr>"

definition demo_opts :: WorkerOpts where
  "demo_opts = \<lparr>tries = None, timeoutSeconds = None, backoffSeconds = None\<rparr>"

definition demo_env :: "array_store Env" where
  "demo_env = \<lparr>latency = (\<lambda>_. 0), oversleep = (\<lambda>_. 0), others = (\<lambda>_ s. s)\<rparr>"

definition demo_db :: "unit QueueDb" where
  "demo_db = \<lparr>jobs = [demo_job], next_id = 2, failed_jobs = []\<rparr>"

definition demo_queued :: "unit QueuedJob" where
  "demo_queued = toQueuedJob demo_job 0"

definition demo_start :: "unit QueueDb World" where
  "demo_start = \<lparr>w_store = demo_db, w_cache = [], w_log = []\<rparr>"

lemma demo_facts:
  "db_wf (w_store demo_start)" "qid demo_queued \<in> jid ` set (jobs (w_store demo_start))"
  "runs_kindly (demo_app r) db_wf db_attempts i" "qid demo_queued = 1" "qattempts demo_queued = 0"
  by (simp_all add: demo_start_def demo_db_def db_wf_def demo_job_def demo_queued_def toQueuedJob_def
      runs_kindly_def demo_app_def)


text \<open>
  C11. No job is retried for ever: processed again each time it is released, a job stops being
  live after at most as many processings as its attempt limit allows (one, if it had none
  left), whatever its runs do, whenever they happen and however they fail.
\<close>

theorem retries_are_bounded:
  assumes "db_wf (w_store w)" and "qid queued \<in> jid ` set (jobs (w_store w))"
    and "runs_kindly app db_wf db_attempts (qid queued)"
    and "\<And>job. decodeJob app (qclass queued) (qstate queued) = Decoded job \<Longrightarrow> maxAttemptsFor opts job \<le> limit"
    and "limit - qattempts queued < fuel"
  shows "case run_to_end fuel db_attempts app (database_ops drv t) opts env clk uuid queued w of
    (k, w') \<Rightarrow> qid queued \<notin> jid ` set (jobs (w_store w')) \<and> k \<le> max 1 (limit - qattempts queued)"
proof -
  have "db_attempts (w_store w) (qid queued) \<noteq> None" using assms(2) by (simp only: db_attempts_live)
  from database.run_to_end_settles [OF assms(1) this assms(3,4,5), of drv t env clk uuid]
  moreover have "db_attempts db (qid queued) = None \<longleftrightarrow> qid queued \<notin> jid ` set (jobs db)" for db :: "'a QueueDb"
    using db_attempts_live [of db "qid queued"] by blast
  ultimately show ?thesis by (simp only:)
qed

theorem retries_are_bounded_witness:
  "fst (run_to_end 4 db_attempts (demo_app (Threw ''boom'')) (database_ops demo_driver 0) demo_opts demo_env
     (\<lambda>_. 0) [] demo_queued demo_start) \<le> 3"
  using retries_are_bounded [OF demo_facts(1,2,3), of "Threw ''boom''" demo_opts 3 4 demo_driver 0 demo_env "\<lambda>_. 0" "[]"]
  by (simp add: demo_facts demo_app_def demo_inst_def maxAttemptsFor_def demo_opts_def nullish_def split: prod.splits)

definition demo_unique_app :: "(unit, unit QueueDb) App" where
  "demo_unique_app = (demo_app Ran)\<lparr>uniqueModeOf := (\<lambda>_. Some UntilFinished), hasCache := True\<rparr>"

lemma demo_unique_acquire:
  "fst (acquireUniqueLock demo_unique_app demo_env 0 uuid name demo_inst [])"
proof -
  have "uniqueModeOf demo_unique_app name \<noteq> None" "hasCache demo_unique_app"
    by (simp_all add: demo_unique_app_def)
  from acquireUniqueLock_attempt [OF this] show ?thesis
    by (simp add: attempt_def array_ops_def array_add_def liveEntry_def)
qed

lemma demo_registered [simp]: "registered demo_unique_app name"
  by (simp add: demo_unique_app_def demo_app_def)

text \<open>
  A unique job is queued at most once: while the lock of a successful dispatch lives, every
  dispatch of a job with the same unique key answers \<open>false\<close> and pushes nothing.
\<close>

lemma unique_dispatch_once:
  assumes "uniqueModeOf app name \<noteq> None" and "hasCache app"
    and "dispatch app ops env now uuid name job state chain q w = (Inr True, w1)"
    and "uniqueLockKey name job' = uniqueLockKey name job"
    and "now \<le> now'" and "now' \<le> now + 1000 * max 1
      (nullish (j_uniqueFor job) (nullish (uniqueForDefault app) DEFAULT_UNIQUE_FOR_SECONDS))"
  shows "\<exists>w2. dispatch app ops env' now' uuid' name job' state' chain' q' w1 = (Inr False, w2) \<and>
    w_store w2 = w_store w1"
proof -
  obtain ok cache where lock: "acquireUniqueLock app env now uuid name job (w_cache w) = (ok, cache)" by force
  then have ok: "ok" and reg: "registered app name" and cache: "w_cache w1 = cache"
    using assms(3)
    by (auto simp: dispatch_def drive_def Let_def split: if_splits prod.splits sum.splits)
  have "fst (acquireUniqueLock app env' now' uuid' name job' cache) = False"
    by (rule unique_lock_excludes [OF assms(1,2)]) (use lock ok assms(4-6) in auto)
  then show ?thesis
    using reg by (auto simp: dispatch_def cache Let_def split: prod.splits)
qed


text \<open>
  When the push of a unique job throws, its lock stays behind: the dispatch fails, nothing
  is queued, and yet every further dispatch of the job is dropped as a duplicate until the
  lock's TTL has passed.
\<close>

lemma failed_push_keeps_unique_lock:
  assumes "uniqueModeOf app name \<noteq> None" and "hasCache app"
    and "dispatch app ops env now uuid name job state chain q w = (Inl (DriverThrew e), w1)"
    and "now \<le> now'" and "now' \<le> now + 1000 * max 1
      (nullish (j_uniqueFor job) (nullish (uniqueForDefault app) DEFAULT_UNIQUE_FOR_SECONDS))"
  shows "w_store w1 = w_store w \<and>
    fst (dispatch app ops' env' now' uuid' name job state' chain' q' w1) = Inr False"
proof -
  obtain ok cache where lock: "acquireUniqueLock app env now uuid name job (w_cache w) = (ok, cache)" by force
  then have ok: "ok" and reg: "registered app name" and w1: "w_cache w1 = cache" "w_store w1 = w_store w"
    using assms(3)
    by (auto simp: dispatch_def drive_def Let_def split: if_splits prod.splits sum.splits)
  have "fst (acquireUniqueLock app env' now' uuid' name job cache) = False"
    by (rule unique_lock_excludes [OF assms(1,2)]) (use lock ok assms(4,5) in auto)
  then show ?thesis
    using reg w1 by (auto simp: dispatch_def Let_def split: prod.splits)
qed


text \<open>
  A chain can be lost: when the push of the next link throws after the job has run and been
  deleted, the worker releases the deleted job.  The run is announced as processed and as
  released, the job is neither live nor failed, and the next link was never queued.
\<close>

lemma failed_link_push_loses_chain:
  assumes "registered app (qclass queued)" and "decodeJob app (qclass queued) (qstate queued) = Decoded job"
    and "uniqueModeOf app = (\<lambda>_. None)" and "runJob app job (w_store w) = (Ran, ms, w_store w)"
    and "j_timeout job = None" and "timeoutSeconds opts = None" and "j_retryUntil job = None"
    and "qattempts queued + 1 < maxAttemptsFor opts job"
    and "qchain queued = link # rest" and "registered app (cj_class link)"
    and "db_wf (w_store w)" and "qid queued \<notin> fid ` set (failed_jobs (w_store w))"
  shows "\<exists>delay w'. processJob app ((database_ops drv t)\<lparr>d_push := \<lambda>_ _ _ _ _. Inl err\<rparr>) opts env now uuid queued w
      = (Inr (), w') \<and> w_store w' = delete queued (w_store w) \<and>
    w_log w' = w_log w @ [JobProcessing, JobProcessed, JobReleased delay]"
proof -
  let ?ops = "(database_ops drv t)\<lparr>d_push := \<lambda>_ _ _ _ _. Inl err\<rparr>"
  have gone: "QueueTables.release t' d queued (delete queued s) = delete queued s" for t' d s
  proof -
    have "map f (filter (\<lambda>r. jid r \<noteq> qid queued) rs) = filter (\<lambda>r. jid r \<noteq> qid queued) rs"
      if "\<And>r. jid r \<noteq> qid queued \<Longrightarrow> f r = r" for f and rs :: "'a JobRow list"
      using that by (intro map_idI) auto
    then show ?thesis by (simp add: release_def delete_def delete_id_def update_job_def)
  qed
  show ?thesis
    using assms(1-10)
    by (simp add: processJob_def attempt_job_def runWithTimeout_def dispatchNextInChain_def
        acquireUniqueLockForState_def unlock_if_def drive_def database_ops_def handle_error_def
        release_job_def retryDeadlinePassed_def fire_def gone Let_def)
qed


end
