(* ===== verification/Transactions.thy ===== *)
theory Transactions
  imports JsPrelude "HOL-Library.Sublist"
begin

text \<open>
  Transactions of \<open>framework/database/src/transaction.ts\<close> and their deferred callbacks,
  \<open>transaction-context.ts\<close>.  A program is a tree of actions; the async-local context is the
  map from connections to their active scopes, in insertion order.  A connection's data is the
  list of what was written to it; \<open>BEGIN\<close> and \<open>SAVEPOINT\<close> remember it and \<open>ROLLBACK\<close> and
  \<open>ROLLBACK TO SAVEPOINT\<close> restore it.  Registries are objects, shared by reference between the
  scopes of one physical transaction, so they live in a heap.
\<close>

section \<open>Registries\<close>

type_synonym deferred_entry = "nat \<times> nat"

record DeferredCallbacks =
  commit :: "deferred_entry list"
  rollback :: "deferred_entry list"

definition new_deferred :: DeferredCallbacks where
  "new_deferred = \<lparr>commit = [], rollback = []\<rparr>"

definition onCommit :: "nat \<Rightarrow> nat \<Rightarrow> DeferredCallbacks \<Rightarrow> DeferredCallbacks" where
  "onCommit level callback d = d\<lparr>commit := commit d @ [(level, callback)]\<rparr>"

definition onRollback :: "nat \<Rightarrow> nat \<Rightarrow> DeferredCallbacks \<Rightarrow> DeferredCallbacks" where
  "onRollback level callback d = d\<lparr>rollback := rollback d @ [(level, callback)]\<rparr>"

definition discardFrom :: "nat \<Rightarrow> DeferredCallbacks \<Rightarrow> DeferredCallbacks" where
  "discardFrom level d =
     d\<lparr>commit := filter (\<lambda>(l, _). l < level) (commit d),
       rollback := filter (\<lambda>(l, _). l < level) (rollback d)\<rparr>"

definition takeCommit :: "DeferredCallbacks \<Rightarrow> nat list \<times> DeferredCallbacks" where
  "takeCommit d = (map snd (commit d), d\<lparr>commit := []\<rparr>)"

definition takeRollback :: "DeferredCallbacks \<Rightarrow> nat list \<times> DeferredCallbacks" where
  "takeRollback d = (map snd (rollback d), d\<lparr>rollback := []\<rparr>)"

section \<open>Scopes\<close>

record Scope =
  level :: nat
  registry :: nat

type_synonym Context = "(nat \<times> Scope) list"

definition getActiveTransactionScope :: "nat \<Rightarrow> Context \<Rightarrow> Scope option" where
  "getActiveTransactionScope connection ctx = map_of ctx connection"

definition runInTransactionContext :: "nat \<Rightarrow> Scope \<Rightarrow> Context \<Rightarrow> Context" where
  "runInTransactionContext connection scope ctx = map_put connection scope ctx"

definition getInnermostTransactionScope :: "Context \<Rightarrow> Scope option" where
  "getInnermostTransactionScope ctx =
     foldl (\<lambda>deepest (_, scope). case deepest of
        None \<Rightarrow> Some scope
      | Some d \<Rightarrow> if level scope > level d then Some scope else Some d) None ctx"

section \<open>Programs\<close>

text \<open>\<open>Tx c body caught\<close> is a nested call whose error the caller catches or not.\<close>

datatype act =
    Write nat nat | Throw
  | AfterCommit nat | AfterCommitOn nat nat
  | AfterRollback nat | AfterRollbackOn nat nat
  | Tx nat "act list" bool

record Db =
  data :: "nat \<Rightarrow> nat list"
  registries :: "nat \<Rightarrow> DeferredCallbacks"
  next_registry :: nat
  ran :: "nat list"
  reported :: "nat list"

text \<open>A callback that throws is reported, and the ones after it still run.\<close>

definition drain :: "(nat \<Rightarrow> bool) \<Rightarrow> nat list \<Rightarrow> Db \<Rightarrow> Db" where
  "drain throws callbacks db =
     db\<lparr>ran := ran db @ callbacks, reported := reported db @ filter throws callbacks\<rparr>"

definition run_now :: "nat \<Rightarrow> Db \<Rightarrow> Db" where
  "run_now callback db = db\<lparr>ran := ran db @ [callback]\<rparr>"

definition on_registry :: "nat \<Rightarrow> (DeferredCallbacks \<Rightarrow> DeferredCallbacks) \<Rightarrow> Db \<Rightarrow> Db" where
  "on_registry r f db = db\<lparr>registries := (registries db)(r := f (registries db r))\<rparr>"

definition register_commit :: "Scope option \<Rightarrow> nat \<Rightarrow> Db \<Rightarrow> Db" where
  "register_commit scope callback db =
     (case scope of
        None \<Rightarrow> run_now callback db
      | Some s \<Rightarrow> on_registry (registry s) (onCommit (level s) callback) db)"

definition register_rollback :: "Scope option \<Rightarrow> nat \<Rightarrow> Db \<Rightarrow> Db" where
  "register_rollback scope callback db =
     (case scope of
        None \<Rightarrow> db
      | Some s \<Rightarrow> on_registry (registry s) (onRollback (level s) callback) db)"

definition restore :: "nat \<Rightarrow> Db \<Rightarrow> Db \<Rightarrow> Db" where
  "restore c old db = db\<lparr>data := (data db)(c := data old c)\<rparr>"

text \<open>The end of a savepoint and of an outermost transaction.\<close>

definition end_savepoint :: "nat \<Rightarrow> Scope \<Rightarrow> Db \<Rightarrow> bool \<times> Db \<Rightarrow> bool \<times> Db" where
  "end_savepoint c inner old result =
     (let (ok, db) = result in
      if ok then (True, db)
      else (False, on_registry (registry inner) (discardFrom (level inner)) (restore c old db)))"

definition end_transaction :: "(nat \<Rightarrow> bool) \<Rightarrow> nat \<Rightarrow> nat \<Rightarrow> Db \<Rightarrow> bool \<times> Db \<Rightarrow> bool \<times> Db" where
  "end_transaction throws c r old result =
     (let (ok, db) = result in
      if ok then
        let (callbacks, d) = takeCommit (registries db r) in
        (True, drain throws callbacks (on_registry r (\<lambda>_. d) db))
      else
        let (callbacks, d) = takeRollback (registries db r); (_, d') = takeCommit d in
        (False, drain throws callbacks (on_registry r (\<lambda>_. d') (restore c old db))))"

definition begin_transaction :: "Db \<Rightarrow> Db" where
  "begin_transaction db =
     db\<lparr>registries := (registries db)(next_registry db := new_deferred), next_registry := Suc (next_registry db)\<rparr>"

fun exec :: "(nat \<Rightarrow> bool) \<Rightarrow> Context \<Rightarrow> act list \<Rightarrow> Db \<Rightarrow> bool \<times> Db" where
  "exec throws ctx [] db = (True, db)"
| "exec throws ctx (Write c v # acts) db =
     exec throws ctx acts (db\<lparr>data := (data db)(c := data db c @ [v])\<rparr>)"
| "exec throws ctx (Throw # acts) db = (False, db)"
| "exec throws ctx (AfterCommit cb # acts) db =
     (let scope = getInnermostTransactionScope ctx in
      if scope = None \<and> throws cb then (False, run_now cb db)
      else exec throws ctx acts (register_commit scope cb db))"
| "exec throws ctx (AfterCommitOn c cb # acts) db =
     (let scope = getActiveTransactionScope c ctx in
      if scope = None \<and> throws cb then (False, run_now cb db)
      else exec throws ctx acts (register_commit scope cb db))"
| "exec throws ctx (AfterRollback cb # acts) db =
     exec throws ctx acts (register_rollback (getInnermostTransactionScope ctx) cb db)"
| "exec throws ctx (AfterRollbackOn c cb # acts) db =
     exec throws ctx acts (register_rollback (getActiveTransactionScope c ctx) cb db)"
| "exec throws ctx (Tx c body caught # acts) db =
     (let (ok, db') =
        (case getActiveTransactionScope c ctx of
           Some scope \<Rightarrow>
             (let inner = scope\<lparr>level := level scope + 1\<rparr> in
              end_savepoint c inner db (exec throws (runInTransactionContext c inner ctx) body db))
         | None \<Rightarrow>
             (let outer = \<lparr>level = 1, registry = next_registry db\<rparr> in
              end_transaction throws c (next_registry db) db
                (exec throws (runInTransactionContext c outer ctx) body (begin_transaction db)))) in
      if ok \<or> caught then exec throws ctx acts db' else (False, db'))"

definition transaction :: "(nat \<Rightarrow> bool) \<Rightarrow> nat \<Rightarrow> act list \<Rightarrow> Db \<Rightarrow> bool \<times> Db" where
  "transaction throws c body db = exec throws [] [Tx c body False] db"

definition start :: Db where
  "start = \<lparr>data = (\<lambda>_. []), registries = (\<lambda>_. new_deferred), next_registry = 0, ran = [], reported = []\<rparr>"

section \<open>What should happen\<close>

text \<open>
  The abstract semantics of a program on one connection: a transaction that fails takes back
  what it wrote and what it registered.  The last component says whether some nested
  transaction failed.
\<close>

fun ideal :: "act list \<Rightarrow> nat list \<times> nat list \<Rightarrow> bool \<times> nat list \<times> nat list \<times> bool" where
  "ideal [] (d, cbs) = (True, d, cbs, False)"
| "ideal (Write c v # acts) (d, cbs) = ideal acts (d @ [v], cbs)"
| "ideal (Throw # acts) (d, cbs) = (False, d, cbs, False)"
| "ideal (AfterCommit cb # acts) (d, cbs) = ideal acts (d, cbs @ [cb])"
| "ideal (AfterCommitOn c cb # acts) (d, cbs) = ideal acts (d, cbs @ [cb])"
| "ideal (AfterRollback cb # acts) (d, cbs) = ideal acts (d, cbs)"
| "ideal (AfterRollbackOn c cb # acts) (d, cbs) = ideal acts (d, cbs)"
| "ideal (Tx c body caught # acts) (d, cbs) =
     (let (ok, d', cbs', failed) = ideal body (d, cbs) in
      if ok then
        (let (ok2, d2, cbs2, failed2) = ideal acts (d', cbs') in (ok2, d2, cbs2, failed \<or> failed2))
      else if caught then
        (let (ok2, d2, cbs2, failed2) = ideal acts (d, cbs) in (ok2, d2, cbs2, True))
      else (False, d, cbs, True))"

text \<open>Every action is on the one connection.\<close>

fun on_connection :: "nat \<Rightarrow> act \<Rightarrow> bool" where
  "on_connection c (Write c' v) \<longleftrightarrow> c' = c"
| "on_connection c (AfterCommitOn c' cb) \<longleftrightarrow> c' = c"
| "on_connection c (AfterRollbackOn c' cb) \<longleftrightarrow> c' = c"
| "on_connection c (Tx c' body caught) \<longleftrightarrow> c' = c \<and> list_all (on_connection c) body"
| "on_connection c _ \<longleftrightarrow> True"

section \<open>One connection\<close>

abbreviation "lower k es \<equiv> filter (\<lambda>(l, _). l < k) es"

definition follows ::
  "nat \<Rightarrow> nat \<Rightarrow> nat \<Rightarrow> act list \<Rightarrow> Db \<Rightarrow> bool \<times> Db \<Rightarrow> bool" where
  "follows c L r acts db result \<longleftrightarrow>
     (let (ok, db') = result in
      ran db' = ran db \<and> reported db' = reported db \<and>
      (\<forall>k \<le> L. lower k (commit (registries db' r)) = lower k (commit (registries db r))) \<and>
      (\<forall>s. case ideal acts (data db c, s) of (ok', d', s', failed) \<Rightarrow>
         ok' = ok \<and> d' = data db' c \<and>
         (subseq (map snd (commit (registries db r))) s \<longrightarrow> subseq (map snd (commit (registries db' r))) s') \<and>
         (\<not> failed \<longrightarrow> map snd (commit (registries db r)) = s \<longrightarrow> map snd (commit (registries db' r)) = s')))"

lemma scope_lookups [simp]:
  "getInnermostTransactionScope [(c, sc)] = Some sc"
  "getActiveTransactionScope c [(c, sc)] = Some sc"
  "runInTransactionContext c sc' [(c, sc)] = [(c, sc')]"
  "getActiveTransactionScope c [] = None" "runInTransactionContext c sc [] = [(c, sc)]"
  by (simp_all add: getInnermostTransactionScope_def getActiveTransactionScope_def runInTransactionContext_def)

lemma register_fields [simp]:
  "ran (register_rollback (Some sc) cb db) = ran db" "data (register_rollback (Some sc) cb db) = data db"
  "reported (register_rollback (Some sc) cb db) = reported db"
  "commit (registries (register_rollback (Some sc) cb db) r) = commit (registries db r)"
  "ran (register_commit (Some sc) cb db) = ran db" "data (register_commit (Some sc) cb db) = data db"
  "reported (register_commit (Some sc) cb db) = reported db"
  "commit (registries (register_commit (Some sc) cb db) r) =
     (if r = registry sc then commit (registries db r) @ [(level sc, cb)] else commit (registries db r))"
  by (simp_all add: register_rollback_def register_commit_def on_registry_def onRollback_def onCommit_def)

lemma follows_commit:
  assumes "follows c L r acts (register_commit (Some \<lparr>level = L, registry = r\<rparr>) cb db) res"
  shows "follows c L r (AfterCommit cb # acts) db res" and "follows c L r (AfterCommitOn c' cb # acts) db res"
proof -
  let ?db = "register_commit (Some \<lparr>level = L, registry = r\<rparr>) cb db"
  obtain ok db' where res: "res = (ok, db')" by force
  have "case ideal acts (data db c, s @ [cb]) of (ok', d', s', failed) \<Rightarrow>
      ok' = ok \<and> d' = data db' c \<and>
      (subseq (map snd (commit (registries db r))) s \<longrightarrow> subseq (map snd (commit (registries db' r))) s') \<and>
      (\<not> failed \<longrightarrow> map snd (commit (registries db r)) = s \<longrightarrow> map snd (commit (registries db' r)) = s')" for s
  proof -
    obtain ok' d' s' failed where "ideal acts (data db c, s @ [cb]) = (ok', d', s', failed)" by (metis prod_cases4)
    then show ?thesis
      using assms by (fastforce simp: follows_def res dest: spec [of _ "s @ [cb]"])
  qed
  moreover have "lower k (commit (registries ?db r)) = lower k (commit (registries db r))" if "k \<le> L" for k
    using that by simp
  ultimately show "follows c L r (AfterCommit cb # acts) db res" "follows c L r (AfterCommitOn c' cb # acts) db res"
    using assms by (auto simp: follows_def res)
qed

lemma follows_savepoint:
  assumes body: "follows c (Suc L) r body db res1"
    and res: "end_savepoint c \<lparr>level = Suc L, registry = r\<rparr> db res1 = (ok, db')"
  shows "ran db' = ran db" "reported db' = reported db"
    and "k \<le> L \<Longrightarrow> lower k (commit (registries db' r)) = lower k (commit (registries db r))"
    and "ideal body (data db c, s) = (ok1, d1, s1, failed1) \<Longrightarrow> ok1 = ok \<and> data db' c = (if ok then d1 else data db c) \<and>
      (subseq (map snd (commit (registries db r))) s \<longrightarrow>
         subseq (map snd (commit (registries db' r))) (if ok then s1 else s)) \<and>
      (ok \<longrightarrow> \<not> failed1 \<longrightarrow> map snd (commit (registries db r)) = s \<longrightarrow> map snd (commit (registries db' r)) = s1)"
proof -
  obtain ok1' db1 where res1: "res1 = (ok1', db1)" by force
  have db': "ok1' = ok" "db' = (if ok then db1 else on_registry r (discardFrom (Suc L)) (restore c db db1))"
    using res by (auto simp: end_savepoint_def res1 split: if_splits)
  have com: "commit (registries db' r) = (if ok then commit (registries db1 r) else lower (Suc L) (commit (registries db r)))"
    using body by (simp add: db' on_registry_def discardFrom_def restore_def follows_def res1)
  show "ran db' = ran db" "reported db' = reported db"
    using body by (auto simp: db' on_registry_def restore_def follows_def res1)
  show "lower k (commit (registries db' r)) = lower k (commit (registries db r))" if "k \<le> L"
  proof (cases ok)
    case True
    then show ?thesis using body that by (simp add: com follows_def res1)
  next
    case False
    have "lower k (lower (Suc L) es) = lower k es" for es :: "deferred_entry list"
      using that by (induction es) auto
    then show ?thesis using False by (simp add: com)
  qed
  assume ideal: "ideal body (data db c, s) = (ok1, d1, s1, failed1)"
  have b: "ok1 = ok \<and> d1 = data db1 c \<and>
      (subseq (map snd (commit (registries db r))) s \<longrightarrow> subseq (map snd (commit (registries db1 r))) s1) \<and>
      (\<not> failed1 \<longrightarrow> map snd (commit (registries db r)) = s \<longrightarrow> map snd (commit (registries db1 r)) = s1)"
    using body db'(1) ideal by (auto simp: follows_def res1 dest!: spec [of _ s])
  have sub: "subseq (map snd (lower (Suc L) (commit (registries db r)))) (map snd (commit (registries db r)))"
    by (intro subseq_map subseq_filter_left)
  show "ok1 = ok \<and> data db' c = (if ok then d1 else data db c) \<and>
      (subseq (map snd (commit (registries db r))) s \<longrightarrow>
         subseq (map snd (commit (registries db' r))) (if ok then s1 else s)) \<and>
      (ok \<longrightarrow> \<not> failed1 \<longrightarrow> map snd (commit (registries db r)) = s \<longrightarrow> map snd (commit (registries db' r)) = s1)"
    using b subseq_order.trans [OF sub]
    by (auto simp: com) (auto simp: db' on_registry_def restore_def)
qed

lemma follows_tx_stop:
  assumes "follows c (Suc L) r body db res1"
    and "end_savepoint c \<lparr>level = Suc L, registry = r\<rparr> db res1 = (False, db')"
  shows "follows c L r (Tx c body False # acts) db (False, db')"
  using follows_savepoint [OF assms]
  by (auto simp: follows_def Let_def split: prod.splits) fastforce+

lemma follows_tx_go_on:
  assumes "follows c (Suc L) r body db res1"
    and "end_savepoint c \<lparr>level = Suc L, registry = r\<rparr> db res1 = (ok, db')" and "ok \<or> caught"
    and "follows c L r acts db' res"
  shows "follows c L r (Tx c body caught # acts) db res"
proof -
  note sp = follows_savepoint [OF assms(1,2)]
  obtain ok2 db2 where res: "res = (ok2, db2)" by force
  have "case ideal (Tx c body caught # acts) (data db c, s) of (ok', d', s', failed) \<Rightarrow>
      ok' = ok2 \<and> d' = data db2 c \<and>
      (subseq (map snd (commit (registries db r))) s \<longrightarrow> subseq (map snd (commit (registries db2 r))) s') \<and>
      (\<not> failed \<longrightarrow> map snd (commit (registries db r)) = s \<longrightarrow> map snd (commit (registries db2 r)) = s')" for s
  proof -
    obtain ok1 d1 s1 failed1 where i1: "ideal body (data db c, s) = (ok1, d1, s1, failed1)" by (metis prod_cases4)
    note f1 = sp(4) [OF i1]
    obtain ok3 d3 s3 failed3 where i3: "ideal acts (data db' c, if ok then s1 else s) = (ok3, d3, s3, failed3)"
      by (metis prod_cases4)
    have f3: "ok3 = ok2 \<and> d3 = data db2 c \<and>
        (subseq (map snd (commit (registries db' r))) (if ok then s1 else s) \<longrightarrow> subseq (map snd (commit (registries db2 r))) s3) \<and>
        (\<not> failed3 \<longrightarrow> map snd (commit (registries db' r)) = (if ok then s1 else s) \<longrightarrow>
           map snd (commit (registries db2 r)) = s3)"
      using assms(4) i3 by (auto simp: follows_def res dest!: spec [of _ "if ok then s1 else s"])
    show ?thesis
      using f1 f3 i1 i3 assms(3) by (cases ok) auto
  qed
  then show ?thesis
    using assms(4) sp(1-3) by (simp add: follows_def res)
qed

lemma exec_follows:
  assumes "list_all (on_connection c) acts"
  shows "follows c L r acts db (exec throws [(c, \<lparr>level = L, registry = r\<rparr>)] acts db)"
  using assms
proof (induction acts arbitrary: L db rule: measure_induct_rule [of "size_list size"])
  case (less acts)
  note IH = less.IH
  show ?case
  proof (cases acts)
    case Nil
    then show ?thesis by (simp add: follows_def)
  next
    case (Cons a rest)
    have rest: "follows c L r rest db' (exec throws [(c, \<lparr>level = L, registry = r\<rparr>)] rest db')" for db'
      by (rule IH) (use less.prems Cons in auto)
    show ?thesis
    proof (cases a)
      case (Write c' v)
      then show ?thesis using rest [of "db\<lparr>data := (data db)(c := data db c @ [v])\<rparr>"] less.prems
        by (simp add: Cons follows_def split_beta)
    next
      case Throw
      then show ?thesis by (simp add: Cons follows_def)
    next
      case (AfterCommit cb)
      then show ?thesis using follows_commit(1) [OF rest] by (simp add: Cons)
    next
      case (AfterCommitOn c' cb)
      then show ?thesis using follows_commit(2) [OF rest] less.prems by (simp add: Cons)
    next
      case (AfterRollback cb)
      then show ?thesis
        using rest [of "register_rollback (Some \<lparr>level = L, registry = r\<rparr>) cb db"] by (simp add: Cons follows_def split_beta)
    next
      case (AfterRollbackOn c' cb)
      then show ?thesis
        using rest [of "register_rollback (Some \<lparr>level = L, registry = r\<rparr>) cb db"] less.prems
        by (simp add: Cons follows_def split_beta)
    next
      case (Tx c' body caught)
      then have c': "c' = c" and on: "list_all (on_connection c) body" using less.prems by (simp_all add: Cons)
      define res1 where "res1 = exec throws [(c, \<lparr>level = Suc L, registry = r\<rparr>)] body db"
      have body: "follows c (Suc L) r body db res1"
        unfolding res1_def by (rule IH) (use Tx on in \<open>auto simp: Cons\<close>)
      obtain ok db' where e: "end_savepoint c \<lparr>level = Suc L, registry = r\<rparr> db res1 = (ok, db')" by force
      have run: "exec throws [(c, \<lparr>level = L, registry = r\<rparr>)] acts db =
          (if ok \<or> caught then exec throws [(c, \<lparr>level = L, registry = r\<rparr>)] rest db' else (False, db'))"
        using e by (simp add: Cons Tx c' res1_def)
      show ?thesis
      proof (cases "ok \<or> caught")
        case True
        then show ?thesis
          using follows_tx_go_on [OF body e True rest] run by (simp add: Cons Tx c')
      next
        case False
        then show ?thesis
          using follows_tx_stop [OF body, of db' rest] e run by (simp add: Cons Tx c')
      qed
    qed
  qed
qed

section \<open>Properties\<close>



text \<open>
  A failed savepoint takes more than its own callbacks: when one nested transaction has
  succeeded and registered an after-commit callback, and a later sibling rolls back (the caller
  catching its error), the first one's write is committed and its callback never runs.
\<close>

lemma failed_sibling_drops_callbacks:
  "\<exists>db. transaction throws c [Tx c [Write c v, AfterCommit cb] True, Tx c [Throw] True] start = (True, db) \<and>
     data db c = [v] \<and> ran db = [] \<and>
     ideal [Tx c [Write c v, AfterCommit cb] True, Tx c [Throw] True] ([], []) = (True, [v], [cb], True)"
  by (simp add: transaction_def begin_transaction_def end_transaction_def end_savepoint_def
      register_commit_def on_registry_def onCommit_def discardFrom_def takeCommit_def drain_def
      restore_def start_def new_deferred_def)

text \<open>
  A savepoint that rolls back drops its after-rollback callbacks without running them, and
  they do not run either when the whole transaction rolls back later.
\<close>

lemma savepoint_rollback_runs_no_callbacks:
  "\<exists>db. transaction throws c [Tx c [AfterRollback cb, Throw] True, Throw] start = (False, db) \<and> ran db = []"
  by (simp add: transaction_def begin_transaction_def end_transaction_def end_savepoint_def
      register_rollback_def on_registry_def onRollback_def discardFrom_def takeCommit_def takeRollback_def
      drain_def restore_def start_def new_deferred_def)

text \<open>
  With transactions open on two connections, \<open>afterCommit\<close> inside the inner one registers
  with the outer one when both are at level 1: the callback runs on the outer commit although
  the transaction it was called in has rolled back.
\<close>

lemma innermost_is_not_lexical:
  assumes "c \<noteq> c'"
  shows "\<exists>db. transaction throws c [Tx c' [AfterCommit cb, Throw] True] start = (True, db) \<and> ran db = [cb]"
  using assms
  by (simp add: transaction_def begin_transaction_def end_transaction_def
      register_commit_def on_registry_def onCommit_def takeCommit_def takeRollback_def
      drain_def restore_def start_def new_deferred_def getInnermostTransactionScope_def
      getActiveTransactionScope_def runInTransactionContext_def)


end
