(* ===== verification/Base32Totp.thy ===== *)
theory Base32Totp
  imports JsPrelude
begin

unbundle bit_operations_syntax

text \<open>
  The one-time passwords of \<open>framework/mfa/src/totp/\<close>: the base32 codec of \<open>base32.ts\<close> on its
  32-bit accumulator, and code generation and verification of \<open>totp.ts\<close>.  The HMAC of
  \<open>node:crypto\<close> is a parameter.  Bytes are 8-bit words.  A digest index past the end reads as
  zero, as \<open>undefined\<close> does under a bit operation.
\<close>

section \<open>Base32\<close>

type_synonym byte = "8 word"

definition ALPHABET :: string where
  "ALPHABET = ''ABCDEFGHIJKLMNOPQRSTUVWXYZ234567''"

datatype totp_error = Base32Error char | StepOutOfRange

text \<open>The characters emitted while five bits are available, and the bits left.\<close>

fun emit :: "32 word \<Rightarrow> nat \<Rightarrow> string \<times> nat" where
  "emit v bits =
     (if 5 \<le> bits then
        let (out, rest) = emit v (bits - 5) in
        ((ALPHABET ! unat (drop_bit (bits - 5) v AND 31)) # out, rest)
      else ([], bits))"

declare emit.simps [simp del]

fun encode_loop :: "byte list \<Rightarrow> 32 word \<Rightarrow> nat \<Rightarrow> string" where
  "encode_loop [] v bits = (if 0 < bits then [ALPHABET ! unat (push_bit (5 - bits) v AND 31)] else [])"
| "encode_loop (b # bs) v bits =
     (let v' = push_bit 8 v OR ucast b; (out, bits') = emit v' (bits + 8) in
      out @ encode_loop bs v' bits')"

definition encodeBase32 :: "byte list \<Rightarrow> string" where
  "encodeBase32 bytes = encode_loop bytes 0 0"

text \<open>
  \<open>toUpperCase\<close> on the code units below 256: the sharp s becomes two letters; the micro sign and
  the y with diaeresis leave the range and are kept, no letter of the alphabet either way.
\<close>

definition upper_latin1 :: "char \<Rightarrow> string" where
  "upper_latin1 c =
     (let n = of_char c :: nat in
      if n = 223 then ''SS''
      else if 224 \<le> n \<and> n \<le> 254 \<and> n \<noteq> 247 then [char_of (n - 32)]
      else [to_upper c])"

definition clean :: "string \<Rightarrow> string" where
  "clean encoded =
     concat (map upper_latin1
       (rev (dropWhile (\<lambda>c. c = CHR ''='') (rev (filter (\<lambda>c. \<not> is_ws c \<and> c \<noteq> CHR ''-'') encoded)))))"

fun decode_loop :: "string \<Rightarrow> 32 word \<Rightarrow> nat \<Rightarrow> totp_error + byte list" where
  "decode_loop [] v bits = Inr []"
| "decode_loop (c # cs) v bits =
     (case index_of c ALPHABET of
        None \<Rightarrow> Inl (Base32Error c)
      | Some index \<Rightarrow>
          (let v' = push_bit 5 v OR of_nat index; bits' = bits + 5 in
           if 8 \<le> bits' then
             bindE (decode_loop cs v' (bits' - 8))
               (\<lambda>bytes. Inr (ucast (drop_bit (bits' - 8) v' AND 255) # bytes))
           else decode_loop cs v' bits'))"

definition decodeBase32 :: "string \<Rightarrow> totp_error + byte list" where
  "decodeBase32 encoded = decode_loop (clean encoded) 0 0"

section \<open>Codes\<close>

datatype algorithm = SHA1 | SHA256 | SHA512

type_synonym hmac = "algorithm \<Rightarrow> byte list \<Rightarrow> byte list \<Rightarrow> byte list"

record TotpOptions =
  digits :: nat
  period :: nat
  algo :: algorithm
  window :: nat
  after :: "int option"

definition default_options :: TotpOptions where
  "default_options = \<lparr>digits = 6, period = 30, algo = SHA1, window = 1, after = None\<rparr>"

definition timestepAt :: "int \<Rightarrow> nat \<Rightarrow> int" where
  "timestepAt unixSeconds per = unixSeconds div int per"

text \<open>The 8-byte big-endian counter.\<close>

definition counter_bytes :: "64 word \<Rightarrow> byte list" where
  "counter_bytes w = map (\<lambda>i. ucast (drop_bit (8 * i) w)) (rev [0..<8])"

definition byte_at :: "byte list \<Rightarrow> nat \<Rightarrow> 32 word" where
  "byte_at d i = (if i < length d then ucast (d ! i) else 0)"

definition truncate_digest :: "byte list \<Rightarrow> 32 word" where
  "truncate_digest d =
     (let offset = unat (byte_at d (length d - 1) AND 0x0F) in
      push_bit 24 (byte_at d offset AND 0x7F) OR push_bit 16 (byte_at d (offset + 1))
        OR push_bit 8 (byte_at d (offset + 2)) OR byte_at d (offset + 3))"

definition padStart :: "nat \<Rightarrow> string \<Rightarrow> string" where
  "padStart n s = replicate (n - length s) CHR ''0'' @ s"

definition generateCodeForStep :: "hmac \<Rightarrow> string \<Rightarrow> int \<Rightarrow> TotpOptions \<Rightarrow> totp_error + string" where
  "generateCodeForStep hm secret step opts =
     bindE (decodeBase32 secret) (\<lambda>key.
       if step < 0 \<or> 2 ^ 64 \<le> step then Inl StepOutOfRange
       else
         let binary = truncate_digest (hm (algo opts) key (counter_bytes (word_of_int step))) in
         Inr (padStart (digits opts) (string_of_nat (unat binary mod 10 ^ digits opts))))"

definition generateCode :: "hmac \<Rightarrow> string \<Rightarrow> int \<Rightarrow> TotpOptions \<Rightarrow> totp_error + string" where
  "generateCode hm secret now opts = generateCodeForStep hm secret (timestepAt now (period opts)) opts"

text \<open>The walk over the window; \<open>matched\<close> keeps its first value.\<close>

fun walk :: "hmac \<Rightarrow> string \<Rightarrow> string \<Rightarrow> TotpOptions \<Rightarrow> int list \<Rightarrow> int option \<Rightarrow> totp_error + int option" where
  "walk hm secret submitted opts [] matched = Inr matched"
| "walk hm secret submitted opts (step # steps) matched =
     (if (case after opts of None \<Rightarrow> False | Some a \<Rightarrow> step \<le> a) then walk hm secret submitted opts steps matched
      else if step < 0 then walk hm secret submitted opts steps matched
      else bindE (generateCodeForStep hm secret step opts) (\<lambda>candidate.
        walk hm secret submitted opts steps
          (if candidate = submitted \<and> matched = None then Some step else matched)))"

definition verifyCode :: "hmac \<Rightarrow> string \<Rightarrow> string \<Rightarrow> int \<Rightarrow> TotpOptions \<Rightarrow> totp_error + int option" where
  "verifyCode hm secret code now opts =
     (let submitted = filter (\<lambda>c. \<not> is_ws c) (trim code) in
      if length submitted \<noteq> digits opts then Inr None
      else
        let current = timestepAt now (period opts) in
        walk hm secret submitted opts
          (map (\<lambda>offset. current + offset) [- int (window opts)..int (window opts)]) None)"

section \<open>Bit strings\<close>

text \<open>The low bits of the accumulator, most significant first.\<close>

definition low_bits :: "nat \<Rightarrow> 32 word \<Rightarrow> bool list" where
  "low_bits n v = map (bit v) (rev [0..<n])"

definition byte_bits :: "byte \<Rightarrow> bool list" where
  "byte_bits b = map (bit b) (rev [0..<8])"

fun chunks :: "nat \<Rightarrow> bool list \<Rightarrow> bool list list" where
  "chunks n xs = (if n = 0 \<or> length xs < n then [] else take n xs # chunks n (drop n xs))"

declare chunks.simps [simp del]

lemma length_low_bits [simp]: "length (low_bits n v) = n"
  by (simp add: low_bits_def)

lemma nth_low_bits: "i < n \<Longrightarrow> low_bits n v ! i = bit v (n - 1 - i)"
  by (simp add: low_bits_def rev_nth)

lemma low_bits_shift:
  assumes "n + k \<le> 32" "\<And>i. k \<le> i \<Longrightarrow> \<not> bit x i"
  shows "low_bits (n + k) (push_bit k v OR x) = low_bits n v @ low_bits k x"
proof (rule nth_equalityI)
  fix i assume "i < length (low_bits (n + k) (push_bit k v OR x))"
  then show "low_bits (n + k) (push_bit k v OR x) ! i = (low_bits n v @ low_bits k x) ! i"
    using assms
    by (auto simp: nth_low_bits nth_append bit_or_iff bit_push_bit_iff add.commute [of k n])
qed simp

lemma low_bits_drop: "k \<le> n \<Longrightarrow> low_bits n v = low_bits (n - k) (drop_bit k v) @ low_bits k v"
proof (rule nth_equalityI)
  fix i assume "k \<le> n" "i < length (low_bits n v)"
  then show "low_bits n v ! i = (low_bits (n - k) (drop_bit k v) @ low_bits k v) ! i"
    by (auto simp: nth_low_bits nth_append bit_drop_bit_eq intro!: arg_cong [where f = "bit v"])
qed simp

definition nat_of_bits :: "bool list \<Rightarrow> nat" where
  "nat_of_bits bs = horner_sum of_bool 2 (rev bs)"

lemma nat_of_low_bits: "nat_of_bits (low_bits n v) = take_bit n (unat v)"
proof -
  have "rev (low_bits n v) = map (bit (unat v)) [0..<n]"
    by (simp add: low_bits_def rev_map bit_unsigned_iff fun_eq_iff)
  then show ?thesis by (simp add: nat_of_bits_def horner_sum_bit_eq_take_bit)
qed

lemma nat_of_bits_less: "nat_of_bits bs < 2 ^ length bs"
  unfolding nat_of_bits_def using horner_sum_of_bool_2_less [of "rev bs"] by simp

lemma low_bits_of_nat:
  assumes "length bs \<le> 32"
  shows "low_bits (length bs) (of_nat (nat_of_bits bs)) = bs"
    and "length bs \<le> i \<Longrightarrow> \<not> bit (of_nat (nat_of_bits bs) :: 32 word) i"
proof -
  have bit: "bit (of_nat (nat_of_bits bs) :: 32 word) i \<longleftrightarrow> i < length bs \<and> rev bs ! i" for i
    using assms by (auto simp: bit_of_nat_iff nat_of_bits_def bit_horner_sum_bit_iff)
  show "low_bits (length bs) (of_nat (nat_of_bits bs)) = bs"
  proof (rule nth_equalityI)
    fix i assume "i < length (low_bits (length bs) (of_nat (nat_of_bits bs) :: 32 word))"
    then have i: "i < length bs" by simp
    have "low_bits (length bs) (of_nat (nat_of_bits bs)) ! i
        = bit (of_nat (nat_of_bits bs) :: 32 word) (length bs - 1 - i)"
      by (rule nth_low_bits [OF i])
    also have "\<dots> \<longleftrightarrow> rev bs ! (length bs - 1 - i)"
      using bit [of "length bs - 1 - i"] i by linarith
    also have "\<dots> = bs ! i" using i by (simp add: rev_nth)
    finally show "low_bits (length bs) (of_nat (nat_of_bits bs)) ! i = bs ! i" .
  qed simp
  show "\<not> bit (of_nat (nat_of_bits bs) :: 32 word) i" if "length bs \<le> i" using bit that by simp
qed

definition enc5 :: "bool list \<Rightarrow> char" where
  "enc5 bs = ALPHABET ! nat_of_bits bs"

definition byte_of :: "bool list \<Rightarrow> byte" where
  "byte_of bs = of_nat (nat_of_bits bs)"

lemma and_31: "unat (v AND 31 :: 32 word) = nat_of_bits (low_bits 5 v)"
proof -
  have "v AND 31 = take_bit 5 v" by (simp add: take_bit_eq_mask mask_eq_exp_minus_1)
  then show ?thesis by (simp add: nat_of_low_bits unsigned_take_bit_eq)
qed

lemma and_255: "(ucast (v AND 255 :: 32 word) :: byte) = byte_of (low_bits 8 v)"
proof -
  have v: "v AND 255 = take_bit 8 v" by (simp add: take_bit_eq_mask mask_eq_exp_minus_1)
  have "(ucast (v AND 255) :: byte) = of_nat (unat (take_bit 8 v))" by (simp add: v)
  then show ?thesis by (simp add: byte_of_def nat_of_low_bits unsigned_take_bit_eq)
qed

lemma byte_of_byte_bits [simp]: "byte_of (byte_bits b) = b"
proof -
  have "rev (byte_bits b) = map (bit (unat b)) [0..<8]"
    by (simp add: byte_bits_def rev_map bit_unsigned_iff fun_eq_iff)
  then have "nat_of_bits (byte_bits b) = take_bit 8 (unat b)"
    by (simp only: nat_of_bits_def horner_sum_bit_eq_take_bit)
  also have "\<dots> = unat b" using take_bit_nat_eq_self [of "unat b" 8] unsigned_less [of b] by simp
  finally show ?thesis by (simp add: byte_of_def)
qed

lemma low_bits_ucast: "low_bits 8 (ucast (b :: byte)) = byte_bits b"
  by (simp add: low_bits_def byte_bits_def bit_ucast_iff)

lemma length_byte_bits [simp]: "length (byte_bits b) = 8"
  by (simp add: byte_bits_def)

section \<open>The codec on bit strings\<close>

lemma chunks_short: "length xs < n \<Longrightarrow> chunks n xs = []"
  by (simp add: chunks.simps)

lemma chunks_append: "0 < n \<Longrightarrow> length xs = n \<Longrightarrow> chunks n (xs @ ys) = xs # chunks n ys"
  by (subst chunks.simps) simp

lemma emit_spec:
  assumes "bits \<le> 32"
  shows "\<exists>r. emit v bits = (map enc5 (chunks 5 (low_bits bits v)), r) \<and> r < 5 \<and>
    (\<forall>ys. chunks 5 (low_bits bits v @ ys) = chunks 5 (low_bits bits v) @ chunks 5 (low_bits r v @ ys)) \<and>
    r mod 5 = bits mod 5"
  using assms
proof (induction v bits rule: emit.induct)
  case (1 v bits)
  show ?case
  proof (cases "5 \<le> bits")
    case False
    then show ?thesis
      by (subst emit.simps) (simp add: chunks_short)
  next
    case True
    obtain r where r: "emit v (bits - 5) = (map enc5 (chunks 5 (low_bits (bits - 5) v)), r)" "r < 5"
      "\<And>ys. chunks 5 (low_bits (bits - 5) v @ ys) = chunks 5 (low_bits (bits - 5) v) @ chunks 5 (low_bits r v @ ys)"
      "r mod 5 = (bits - 5) mod 5"
      using 1 True by fastforce
    have split: "low_bits bits v = low_bits 5 (drop_bit (bits - 5) v) @ low_bits (bits - 5) v"
      using low_bits_drop [of "bits - 5" bits v] True by simp
    have "(bits - 5) mod 5 = bits mod 5" using True by (metis mod_add_self2 le_add_diff_inverse2)
    then show ?thesis
      using r True by (subst emit.simps) (simp add: split chunks_append and_31 enc5_def)
  qed
qed

definition pad5 :: "bool list \<Rightarrow> bool list" where
  "pad5 xs = xs @ replicate ((5 - length xs mod 5) mod 5) False"

lemma encode_loop_spec:
  assumes "bits < 5"
  shows "encode_loop bs v bits = map enc5 (chunks 5 (pad5 (low_bits bits v @ concat (map byte_bits bs))))"
  using assms
proof (induction bs arbitrary: v bits)
  case Nil
  show ?case
  proof (cases "0 < bits")
    case True
    have "low_bits 5 (push_bit (5 - bits) v) = low_bits bits v @ replicate (5 - bits) False"
    proof -
      have "low_bits (bits + (5 - bits)) (push_bit (5 - bits) v OR 0) = low_bits bits v @ low_bits (5 - bits) 0"
        using Nil by (intro low_bits_shift) auto
      moreover have "low_bits k 0 = replicate k False" for k
        by (rule nth_equalityI) (simp_all add: nth_low_bits)
      ultimately show ?thesis using Nil by simp
    qed
    moreover have "(5 - bits mod 5) mod 5 = 5 - bits" using True Nil by simp
    ultimately have "pad5 (low_bits bits v) = low_bits 5 (push_bit (5 - bits) v)"
      by (simp add: pad5_def)
    then show ?thesis
      using True chunks_append [of 5 "low_bits 5 (push_bit (5 - bits) v)" "[]"]
      by (simp add: and_31 enc5_def chunks_short)
  next
    case False
    then show ?thesis by (simp add: pad5_def low_bits_def chunks_short)
  qed
next
  case (Cons b bs)
  define v' where "v' = push_bit 8 v OR ucast b"
  have bits: "low_bits (bits + 8) v' = low_bits bits v @ byte_bits b"
    unfolding v'_def low_bits_ucast [symmetric]
    by (rule low_bits_shift) (use Cons.prems in \<open>auto simp: bit_ucast_iff dest: bit_imp_le_length\<close>)
  obtain r where r: "emit v' (bits + 8) = (map enc5 (chunks 5 (low_bits (bits + 8) v')), r)" "r < 5"
    "\<And>ys. chunks 5 (low_bits (bits + 8) v' @ ys) = chunks 5 (low_bits (bits + 8) v') @ chunks 5 (low_bits r v' @ ys)"
    "r mod 5 = (bits + 8) mod 5"
    using emit_spec [of "bits + 8" v'] Cons.prems by auto
  let ?R = "concat (map byte_bits bs)"
  have len: "(r + length ?R) mod 5 = (bits + 8 + length ?R) mod 5"
    using r(4) by (metis mod_add_left_eq)
  have "pad5 (low_bits bits v @ concat (map byte_bits (b # bs))) =
      low_bits (bits + 8) v' @ (?R @ replicate ((5 - (bits + 8 + length ?R) mod 5) mod 5) False)"
    by (simp add: pad5_def bits add.assoc)
  moreover have "pad5 (low_bits r v' @ ?R) =
      low_bits r v' @ (?R @ replicate ((5 - (bits + 8 + length ?R) mod 5) mod 5) False)"
    by (simp add: pad5_def len)
  ultimately have "chunks 5 (pad5 (low_bits bits v @ concat (map byte_bits (b # bs)))) =
      chunks 5 (low_bits (bits + 8) v') @ chunks 5 (pad5 (low_bits r v' @ ?R))"
    using r(3) by simp
  then show ?case
    using Cons.IH [OF r(2), of v'] r(1) by (simp add: v'_def Let_def)
qed

lemma index_of_alphabet: "i < 32 \<Longrightarrow> index_of (ALPHABET ! i) ALPHABET = Some i"
proof -
  have "\<forall>i \<in> set [0..<32]. index_of (ALPHABET ! i) ALPHABET = Some i" by code_simp
  then show "i < 32 \<Longrightarrow> index_of (ALPHABET ! i) ALPHABET = Some i" by simp
qed

lemma decode_loop_spec:
  assumes "bits < 8" "\<forall>c \<in> set cs. length c = 5"
  shows "decode_loop (map enc5 cs) v bits = Inr (map byte_of (chunks 8 (low_bits bits v @ concat cs)))"
  using assms
proof (induction cs arbitrary: v bits)
  case Nil
  then show ?case by (simp add: chunks_short)
next
  case (Cons c cs)
  let ?i = "nat_of_bits c"
  have c: "length c = 5" using Cons.prems by simp
  then have "?i < 32" using nat_of_bits_less [of c] by simp
  then have idx: "index_of (enc5 c) ALPHABET = Some ?i" by (simp add: enc5_def index_of_alphabet)
  define v' where "v' = push_bit 5 v OR of_nat ?i"
  have c_bits: "low_bits 5 (of_nat ?i) = c" and high: "\<And>i. 5 \<le> i \<Longrightarrow> \<not> bit (of_nat ?i :: 32 word) i"
    using low_bits_of_nat [of c] c by auto
  have v': "low_bits (bits + 5) v' = low_bits bits v @ c"
    unfolding v'_def using low_bits_shift [of bits 5 "of_nat ?i" v] Cons.prems(1) high c_bits by simp
  show ?case
  proof (cases "8 \<le> bits + 5")
    case True
    have split: "low_bits (bits + 5) v' = low_bits 8 (drop_bit (bits - 3) v') @ low_bits (bits - 3) v'"
      using low_bits_drop [of "bits - 3" "bits + 5" v'] True by simp
    have "decode_loop (map enc5 cs) v' (bits - 3) =
        Inr (map byte_of (chunks 8 (low_bits (bits - 3) v' @ concat cs)))"
      by (rule Cons.IH) (use Cons.prems in auto)
    moreover have eq: "low_bits bits v @ c @ concat cs =
        low_bits 8 (drop_bit (bits - 3) v') @ low_bits (bits - 3) v' @ concat cs"
      using arg_cong [where f = "\<lambda>x. x @ concat cs", OF trans [OF v' [symmetric] split]] by simp
    ultimately show ?thesis
      using True by (simp add: idx v'_def [symmetric] Let_def and_255 eq chunks_append del: append_assoc)
  next
    case False
    have "decode_loop (map enc5 cs) v' (bits + 5) =
        Inr (map byte_of (chunks 8 (low_bits (bits + 5) v' @ concat cs)))"
      by (rule Cons.IH) (use Cons.prems False in auto)
    then show ?thesis using False v' by (simp add: idx v'_def [symmetric] Let_def)
  qed
qed

lemma chunks_length: "c \<in> set (chunks n xs) \<Longrightarrow> length c = n"
  by (induction n xs rule: chunks.induct) (subst (asm) chunks.simps, auto split: if_splits)

lemma concat_chunks: "0 < n \<Longrightarrow> n dvd length xs \<Longrightarrow> concat (chunks n xs) = xs"
proof (induction n xs rule: chunks.induct)
  case (1 n xs)
  show ?case
  proof (cases "length xs < n")
    case True
    then have "xs = []" using 1 by (metis dvd_imp_le leD length_0_conv neq0_conv)
    then show ?thesis using 1 by (simp add: chunks_short)
  next
    case False
    then have "n dvd length (drop n xs)" using 1 by (simp add: dvd_diff_nat)
    then show ?thesis using 1 False by (subst chunks.simps) simp
  qed
qed

lemma chunks_bytes: "length z < 8 \<Longrightarrow> chunks 8 (concat (map byte_bits bs) @ z) = map byte_bits bs"
  by (induction bs) (simp_all add: chunks_short chunks_append)

lemma clean_alphabet:
  assumes "set s \<subseteq> set ALPHABET"
  shows "clean s = s"
proof -
  have all: "\<forall>c \<in> set ALPHABET. \<not> is_ws c \<and> c \<noteq> CHR ''-'' \<and> c \<noteq> CHR ''='' \<and> upper_latin1 c = [c]"
    by code_simp
  have "filter (\<lambda>c. \<not> is_ws c \<and> c \<noteq> CHR ''-'') s = s" using all assms by (intro filter_True) auto
  moreover have "dropWhile (\<lambda>c. c = CHR ''='') (rev s) = rev s"
    using all assms by (cases "rev s") (auto simp: dest!: arg_cong [of _ _ set])
  moreover have "concat (map upper_latin1 s) = s" using all assms by (induction s) auto
  ultimately show ?thesis by (simp add: clean_def)
qed

text \<open>What the tolerant reader makes of one character of the alphabet, in either case.\<close>

lemma upper_alphabet:
  assumes "to_upper c \<in> set ALPHABET"
  shows "upper_latin1 c = [to_upper c] \<and> c \<noteq> CHR ''=''"
proof -
  have range: "\<forall>d \<in> set ALPHABET. (of_char d :: nat) \<le> 90 \<and> d \<noteq> CHR ''=''"
    by (simp add: ALPHABET_def)
  have "to_upper CHR ''='' = CHR ''=''" by (simp add: to_upper_def)
  then have "c \<noteq> CHR ''=''" using range assms by auto
  moreover have "(of_char c :: nat) \<le> 122"
  proof (rule ccontr)
    assume high: "\<not> (of_char c :: nat) \<le> 122"
    then have "to_upper c = c" by (simp add: to_upper_def)
    then show False using range assms high by fastforce
  qed
  ultimately show ?thesis by (simp add: upper_latin1_def Let_def)
qed

lemma clean_tolerant:
  assumes read: "filter (\<lambda>c. \<not> is_ws c \<and> c \<noteq> CHR ''-'') s = t @ replicate n CHR ''=''"
    and t: "toUpperCase t = u" "set u \<subseteq> set ALPHABET"
  shows "clean s = u"
proof -
  have up: "\<forall>c \<in> set t. upper_latin1 c = [to_upper c] \<and> c \<noteq> CHR ''=''"
  proof
    fix c assume "c \<in> set t"
    then have "to_upper c \<in> set ALPHABET" using t by auto
    then show "upper_latin1 c = [to_upper c] \<and> c \<noteq> CHR ''=''" by (rule upper_alphabet)
  qed
  have "dropWhile (\<lambda>c. c = CHR ''='') (replicate n CHR ''='' @ rev t) = rev t"
    using up by (cases "rev t") (auto simp: dropWhile_append dest: arg_cong [of _ _ set])
  moreover have "concat (map upper_latin1 t) = toUpperCase t" using up by (induction t) auto
  ultimately show ?thesis using t(1) by (simp add: clean_def read)
qed

lemma pad5_length: "5 dvd length (pad5 xs)"
proof -
  let ?r = "length xs mod 5"
  have "?r \<in> {0, 1, 2, 3, 4}"
    using mod_less_divisor [of 5 "length xs"] by (simp only: insert_iff empty_iff) linarith
  then have "(?r + (5 - ?r) mod 5) mod 5 = 0" by auto
  then have "(length xs + (5 - ?r) mod 5) mod 5 = 0" by (simp only: mod_add_left_eq)
  then show ?thesis by (simp only: pad5_def dvd_eq_mod_eq_0 length_append length_replicate)
qed

lemma encode_spec: "encodeBase32 bs = map enc5 (chunks 5 (pad5 (concat (map byte_bits bs))))"
  using encode_loop_spec [of 0 bs 0] by (simp add: encodeBase32_def low_bits_def)

lemma encode_alphabet: "set (encodeBase32 bs) \<subseteq> set ALPHABET"
proof -
  have "enc5 c \<in> set ALPHABET" if "length c = 5" for c
  proof -
    have "length ALPHABET = 32" by (simp add: ALPHABET_def)
    then have "nat_of_bits c < length ALPHABET" using nat_of_bits_less [of c] that by simp
    then show ?thesis unfolding enc5_def by (rule nth_mem)
  qed
  then show ?thesis using chunks_length by (fastforce simp: encode_spec)
qed

lemma decode_clean:
  assumes "clean s = encodeBase32 bs"
  shows "decodeBase32 s = Inr bs"
proof -
  let ?X = "concat (map byte_bits bs)"
  let ?z = "replicate ((5 - length ?X mod 5) mod 5) False"
  have cs: "concat (chunks 5 (pad5 ?X)) = ?X @ ?z"
    using concat_chunks [of 5 "pad5 ?X"] pad5_length [of ?X] by (simp add: pad5_def)
  have "decodeBase32 s = decode_loop (map enc5 (chunks 5 (pad5 ?X))) 0 0"
    by (simp add: decodeBase32_def assms encode_spec)
  also have "\<dots> = Inr (map byte_of (chunks 8 (low_bits 0 0 @ concat (chunks 5 (pad5 ?X)))))"
    by (rule decode_loop_spec) (auto dest: chunks_length)
  also have "low_bits 0 0 @ concat (chunks 5 (pad5 ?X)) = ?X @ ?z"
    by (simp add: cs low_bits_def)
  also have "chunks 8 (?X @ ?z) = map byte_bits bs"
    by (rule chunks_bytes) simp
  finally show ?thesis by (simp add: comp_def)
qed

section \<open>Codes and the window\<close>

lemma length_string_of_nat: "n < 10 ^ k \<Longrightarrow> 0 < k \<Longrightarrow> length (string_of_nat n) \<le> k"
proof (induction n arbitrary: k rule: string_of_nat.induct)
  case (1 n)
  show ?case
  proof (cases "n < 10")
    case True
    then show ?thesis using 1 by (subst string_of_nat.simps) simp
  next
    case False
    have "k \<noteq> 1" using 1(2) False by auto
    then obtain j where j: "k = Suc j" "0 < j" using 1(3) by (cases k) auto
    then have "n div 10 < 10 ^ j" using 1 by (simp add: div_less_iff_less_mult mult.commute)
    then show ?thesis using 1 False j by (subst string_of_nat.simps) simp
  qed
qed

lemma number_of_zeros: "number_of_digits (replicate n CHR ''0'' @ s) = number_of_digits s"
  by (induction n) (simp_all add: number_of_digits_def digit_value_def)

lemma padStart_code:
  assumes "m < 10 ^ k" "0 < k"
  shows "length (padStart k (string_of_nat m)) = k \<and> all_digits (padStart k (string_of_nat m)) \<and>
    number_of_digits (padStart k (string_of_nat m)) = m"
proof -
  have "all_digits (string_of_nat m)" by simp
  moreover have "is_digit CHR ''0''" by (simp add: is_digit_def)
  ultimately show ?thesis
    using length_string_of_nat [OF assms] by (auto simp: padStart_def number_of_zeros all_digits_def list_all_iff)
qed

text \<open>The steps \<open>verifyCode\<close> compares at all.\<close>

definition considered :: "TotpOptions \<Rightarrow> int \<Rightarrow> bool" where
  "considered opts step = (0 \<le> step \<and> (case after opts of None \<Rightarrow> True | Some a \<Rightarrow> a < step))"

lemma generate_Inr:
  assumes "decodeBase32 secret = Inr key" "0 \<le> step" "step < 2 ^ 64"
  shows "generateCodeForStep hm secret step opts =
    Inr (padStart (digits opts) (string_of_nat
      (unat (truncate_digest (hm (algo opts) key (counter_bytes (word_of_int step)))) mod 10 ^ digits opts)))"
  using assms by (simp add: generateCodeForStep_def Let_def)

lemma walk_eq:
  assumes "decodeBase32 secret = Inr key" "\<forall>s \<in> set steps. s < 2 ^ 64"
  shows "walk hm secret submitted opts steps matched =
    Inr (case matched of Some m \<Rightarrow> Some m
         | None \<Rightarrow> find (\<lambda>s. considered opts s \<and> generateCodeForStep hm secret s opts = Inr submitted) steps)"
  using assms(2)
proof (induction steps arbitrary: matched)
  case Nil
  show ?case by (simp split: option.split)
next
  case (Cons step steps)
  show ?case
  proof (cases "considered opts step")
    case False
    then show ?thesis using Cons by (auto simp: considered_def split: option.split)
  next
    case True
    then have "\<not> step < 0" "\<not> (case after opts of None \<Rightarrow> False | Some a \<Rightarrow> step \<le> a)"
      by (auto simp: considered_def split: option.splits)
    moreover have "\<exists>c. generateCodeForStep hm secret step opts = Inr c"
      using generate_Inr [OF assms(1), of step hm opts] True Cons.prems by (simp add: considered_def)
    ultimately show ?thesis using Cons True by (auto split: option.split)
  qed
qed

lemma walk_considered:
  "walk hm secret submitted opts steps matched = Inr (Some s) \<Longrightarrow> matched = Some s \<or>
    (considered opts s \<and> s \<in> set steps \<and> generateCodeForStep hm secret s opts = Inr submitted)"
proof (induction steps arbitrary: matched)
  case Nil
  then show ?case by simp
next
  case (Cons step steps)
  show ?case
  proof (cases "considered opts step")
    case False
    then show ?thesis using Cons by (auto simp: considered_def split: option.splits if_splits)
  next
    case True
    then have "\<not> step < 0" "\<not> (case after opts of None \<Rightarrow> False | Some a \<Rightarrow> step \<le> a)"
      by (auto simp: considered_def split: option.splits)
    then obtain c where c: "generateCodeForStep hm secret step opts = Inr c"
      and w: "walk hm secret submitted opts steps
        (if c = submitted \<and> matched = None then Some step else matched) = Inr (Some s)"
      using Cons.prems by (auto simp: bindE_Inr_iff)
    then show ?thesis using Cons.IH [OF w] True by (auto split: if_splits)
  qed
qed

text \<open>The replay floor: an accepted step lies above it.\<close>

lemma verifyCode_considered:
  "verifyCode hm secret code now opts = Inr (Some s) \<Longrightarrow> considered opts s"
  using walk_considered by (fastforce simp: verifyCode_def Let_def split: if_splits)

lemma find_upto_None: "find P (map (\<lambda>i. c + i) [a..b]) = None \<longleftrightarrow> (\<forall>s. c + a \<le> s \<and> s \<le> c + b \<longrightarrow> \<not> P s)"
proof -
  have "set (map (\<lambda>i. c + i) [a..b]) = {c + a..c + b}" by (auto simp: image_iff intro: bexI [of _ "_ - c"])
  then show ?thesis unfolding find_None_iff by auto
qed

lemma find_upto_Some:
  assumes "find P (map (\<lambda>i. c + i) [a..b]) = Some s"
  shows "c + a \<le> s \<and> s \<le> c + b \<and> P s \<and> (\<forall>s'. c + a \<le> s' \<and> s' < s \<longrightarrow> \<not> P s')"
proof -
  obtain i where i: "i < length [a..b]" "P (c + [a..b] ! i)" "s = c + [a..b] ! i"
      "\<forall>j < i. \<not> P (c + [a..b] ! j)"
    using assms by (auto simp: find_Some_iff)
  have nth: "[a..b] ! j = a + int j" if "j \<le> i" for j using i(1) that by (simp add: nth_upto)
  have "\<not> P s'" if "c + a \<le> s'" "s' < s" for s'
    using i nth [of "nat (s' - c - a)"] that nth [of i] by (auto dest!: spec [of _ "nat (s' - c - a)"])
  then show ?thesis using i nth [of i] by auto
qed

lemma filter_trim: "filter (\<lambda>c. \<not> is_ws c) (trim s) = filter (\<lambda>c. \<not> is_ws c) s"
proof -
  have drop: "filter (\<lambda>c. \<not> is_ws c) (dropWhile is_ws x) = filter (\<lambda>c. \<not> is_ws c) x" for x
    by (induction x) auto
  show ?thesis by (simp add: trim_def drop rev_filter [symmetric])
qed

lemma byte_at_high: "8 \<le> i \<Longrightarrow> \<not> bit (byte_at d n) i"
  by (auto simp: byte_at_def bit_ucast_iff dest: bit_imp_le_length)

lemma word_less_iff_bits:
  assumes "\<And>i. n \<le> i \<Longrightarrow> \<not> bit (w :: 32 word) i"
  shows "unat w < 2 ^ n"
proof -
  have "take_bit n (unat w) = unat w"
    using assms by (intro bit_eqI) (auto simp: bit_take_bit_iff bit_unsigned_iff not_less intro: leI ccontr [of "_ < n"])
  then show ?thesis by (metis take_bit_nat_less_exp)
qed

lemma truncate_31: "unat (truncate_digest d) < 2 ^ 31"
proof (rule word_less_iff_bits)
  fix i :: nat assume i: "31 \<le> i"
  have "\<not> bit (0x7F000000 :: 32 word) 31" by simp
  then have "\<not> bit (0x7F000000 :: 32 word) i" if "i < 32"
    using i that by (cases "i = 31") simp_all
  then show "\<not> bit (truncate_digest d) i"
    using i byte_at_high [of _ d] by (auto simp: truncate_digest_def Let_def bit_or_iff bit_and_iff bit_push_bit_iff)
qed

lemma offset_15: "20 \<le> length d \<Longrightarrow> unat (byte_at d (length d - 1) AND 0x0F) + 3 < length d"
proof -
  have "byte_at d (length d - 1) AND 0x0F = take_bit 4 (byte_at d (length d - 1))"
    by (simp add: take_bit_eq_mask mask_eq_exp_minus_1)
  then have "unat (byte_at d (length d - 1) AND 0x0F) < 2 ^ 4"
    using take_bit_nat_less_exp [of 4 "unat (byte_at d (length d - 1))"] by (simp add: unsigned_take_bit_eq)
  then show "20 \<le> length d \<Longrightarrow> ?thesis" by simp
qed

text \<open>A sharp s is outside the alphabet, yet it is read as two letters of it.\<close>

lemma sharp_s_is_accepted: "decodeBase32 [char_of (223 :: nat)] = Inr [0x94]"
  by code_simp

section \<open>Properties\<close>

text \<open>
  C13. Base32 decoding inverts encoding on every byte string, also after the encoded text has been
  regrouped with white space and dashes, written in lower case, and padded with equal signs.
\<close>

theorem base32_roundtrip:
  assumes "filter (\<lambda>c. \<not> is_ws c \<and> c \<noteq> CHR ''-'') s = t @ replicate n CHR ''=''"
    and "toUpperCase t = encodeBase32 bs"
  shows "decodeBase32 s = Inr bs"
  using clean_tolerant [OF assms encode_alphabet] by (rule decode_clean)

theorem base32_roundtrip_witness:
  "decodeBase32 ''mzxw 6yTB-oi======'' = Inr (map of_nat [102, 111, 111, 98, 97, 114])"
  by (rule base32_roundtrip [where t = "''mzxw6yTBoi''" and n = 6]) code_simp+

text \<open>
  C14. A generated code has exactly the configured number of decimal digits and its value is the
  dynamically truncated digest, a 31-bit number, modulo that power of ten; for a digest of twenty
  bytes or more (all three algorithms) truncation never reads past its end.
\<close>

theorem code_bounds:
  assumes "0 < digits opts" "generateCodeForStep hm secret step opts = Inr code"
  shows "length code = digits opts \<and> all_digits code \<and>
    (\<exists>key. decodeBase32 secret = Inr key \<and>
      (let d = hm (algo opts) key (counter_bytes (word_of_int step)) in
       unat (truncate_digest d) < 2 ^ 31 \<and>
       number_of_digits code = unat (truncate_digest d) mod 10 ^ digits opts \<and>
       (20 \<le> length d \<longrightarrow> unat (byte_at d (length d - 1) AND 0x0F) + 3 < length d)))"
proof -
  obtain key where key: "decodeBase32 secret = Inr key" and step: "0 \<le> step" "step < 2 ^ 64"
    using assms(2) by (cases "decodeBase32 secret") (auto simp: generateCodeForStep_def split: if_splits)
  let ?d = "hm (algo opts) key (counter_bytes (word_of_int step))"
  have code: "code = padStart (digits opts) (string_of_nat (unat (truncate_digest ?d) mod 10 ^ digits opts))"
    using generate_Inr [OF key step, of hm opts] assms(2) by simp
  have "unat (truncate_digest ?d) mod 10 ^ digits opts < 10 ^ digits opts" by simp
  then show ?thesis
    using padStart_code [of "unat (truncate_digest ?d) mod 10 ^ digits opts" "digits opts"] assms(1) key code
      truncate_31 [of ?d] offset_15 [of ?d] by (auto simp: Let_def)
qed

text \<open>The digest of the witnesses: twenty bytes, as an HMAC-SHA1 has, that depend on the counter.\<close>

definition demo_hmac :: hmac where
  "demo_hmac a key counter = [0, 0, 0] @ [last counter] @ replicate 16 0"

lemma demo_code:
  assumes "decodeBase32 secret = Inr key" "step \<in> {0..9}" "after opts = a" "digits opts = 6"
  shows "generateCodeForStep demo_hmac secret step opts = Inr (''00000'' @ [digit_char (nat step)])"
proof -
  have "\<forall>n \<in> set [0..<10]. truncate_digest (demo_hmac SHA1 [] (counter_bytes (of_nat n))) = of_nat n"
    by code_simp
  moreover have "demo_hmac (algo opts) key c = demo_hmac SHA1 [] c" for c by (simp add: demo_hmac_def)
  moreover have "nat step \<in> set [0..<10]" using assms(2) by auto
  ultimately have "truncate_digest (demo_hmac (algo opts) key (counter_bytes (of_nat (nat step)))) = of_nat (nat step)"
    by (simp del: of_nat_nat)
  then have t: "truncate_digest (demo_hmac (algo opts) key (counter_bytes (word_of_int step))) = word_of_int step"
    using assms(2) by simp
  have small: "unat (of_nat k :: 32 word) = k" if "k < 10" for k
    using that by (simp add: unsigned_of_nat take_bit_nat_eq_self)
  have "nat step < 10" using assms(2) by auto
  then have "unat (of_nat (nat step) :: 32 word) = nat step" by (rule small)
  then have u: "unat (word_of_int step :: 32 word) = nat step" using assms(2) by simp
  have m: "nat step mod 10 ^ digits opts = nat step"
    using \<open>nat step < 10\<close> assms(4) by (intro mod_less) simp
  have "string_of_nat (nat step) = [digit_char (nat step)]"
    using assms(2) by (subst string_of_nat.simps) auto
  moreover have "padStart 6 [c] = ''00000'' @ [c]" for c by (simp add: padStart_def eval_nat_numeral)
  ultimately have "padStart (digits opts) (string_of_nat (nat step)) = ''00000'' @ [digit_char (nat step)]"
    using assms(4) by simp
  then show ?thesis
    using generate_Inr [OF assms(1), of step demo_hmac opts] assms(2) unfolding t u m by simp
qed

theorem code_bounds_witness:
  "length ''000001'' = 6 \<and> generateCodeForStep demo_hmac ''MZXW6'' 1 default_options = Inr ''000001''"
proof -
  have "decodeBase32 ''MZXW6'' = Inr (map of_nat [102, 111, 111])" by code_simp
  moreover have "digit_char 1 = CHR ''1''" by code_simp
  ultimately have code: "generateCodeForStep demo_hmac ''MZXW6'' 1 default_options = Inr ''000001''"
    using demo_code [of "''MZXW6''" _ 1 default_options None] by (simp add: default_options_def)
  from code_bounds [OF _ code] show ?thesis using code by (simp add: default_options_def)
qed

text \<open>
  C15. With a decodable secret and a window below the 64-bit counter's end, \<open>verifyCode\<close> does not
  throw.  It answers with the smallest non-negative step of the window above the replay floor
  whose code is the submitted one less its white space, and with no step exactly when there is none.
\<close>

theorem verifyCode_spec:
  assumes "decodeBase32 secret = Inr key" "0 < digits opts"
    and "timestepAt now (period opts) + int (window opts) < 2 ^ 64"
  shows "\<exists>r. verifyCode hm secret code now opts = Inr r \<and>
    (let submitted = filter (\<lambda>c. \<not> is_ws c) code;
         lo = timestepAt now (period opts) - int (window opts);
         hi = timestepAt now (period opts) + int (window opts);
         hit = (\<lambda>s. considered opts s \<and> generateCodeForStep hm secret s opts = Inr submitted) in
     case r of
       None \<Rightarrow> \<forall>s. lo \<le> s \<and> s \<le> hi \<longrightarrow> \<not> hit s
     | Some s \<Rightarrow> lo \<le> s \<and> s \<le> hi \<and> hit s \<and> (\<forall>s'. lo \<le> s' \<and> s' < s \<longrightarrow> \<not> hit s'))"
proof -
  let ?sub = "filter (\<lambda>c. \<not> is_ws c) code"
  let ?cur = "timestepAt now (period opts)" and ?w = "int (window opts)"
  let ?hit = "\<lambda>s. considered opts s \<and> generateCodeForStep hm secret s opts = Inr ?sub"
  have size: "length ?sub = digits opts" if "?hit s" "s \<le> ?cur + ?w" for s
    using that generate_Inr [OF assms(1), of s hm opts] assms(3)
      padStart_code [OF _ assms(2), of "_ mod _"] by (auto simp: considered_def)
  show ?thesis
  proof (cases "length ?sub = digits opts")
    case False
    then have "verifyCode hm secret code now opts = Inr None"
      by (simp add: verifyCode_def filter_trim Let_def)
    moreover have "\<not> ?hit s" if "s \<le> ?cur + ?w" for s using size that False by auto
    ultimately show ?thesis by (auto simp: Let_def)
  next
    case True
    define r where "r = find ?hit (map (\<lambda>i. ?cur + i) [- ?w..?w])"
    have "\<forall>s \<in> set (map (\<lambda>i. ?cur + i) [- ?w..?w]). s < 2 ^ 64" using assms(3) by auto
    from walk_eq [OF assms(1) this, of hm ?sub opts None]
    have "verifyCode hm secret code now opts = Inr r"
      using True by (simp add: verifyCode_def filter_trim Let_def r_def)
    moreover have "r = None \<Longrightarrow> \<forall>s. ?cur - ?w \<le> s \<and> s \<le> ?cur + ?w \<longrightarrow> \<not> ?hit s"
      unfolding r_def find_upto_None by simp
    moreover have "r = Some s \<Longrightarrow> ?cur - ?w \<le> s \<and> s \<le> ?cur + ?w \<and> ?hit s \<and>
        (\<forall>s'. ?cur - ?w \<le> s' \<and> s' < s \<longrightarrow> \<not> ?hit s')" for s
      unfolding r_def using find_upto_Some [of ?hit ?cur "- ?w" ?w s] by simp
    ultimately show ?thesis by (cases r) (simp_all add: Let_def)
  qed
qed

theorem verifyCode_spec_witness:
  "verifyCode demo_hmac ''MZXW6'' '' 000 004'' 100 default_options = Inr (Some 4)"
proof -
  let ?hit = "\<lambda>s. considered default_options s \<and>
    generateCodeForStep demo_hmac ''MZXW6'' s default_options = Inr ''000004''"
  have key: "decodeBase32 ''MZXW6'' = Inr (map of_nat [102, 111, 111])" by code_simp
  have digits: "digit_char 2 = CHR ''2''" "digit_char 3 = CHR ''3''" "digit_char 4 = CHR ''4''" by code_simp+
  have codes: "generateCodeForStep demo_hmac ''MZXW6'' s default_options = Inr (''00000'' @ [digit_char (nat s)])"
    if "s \<in> {0..9}" for s
    by (rule demo_code [OF key that]) (simp_all add: default_options_def)
  have hits: "?hit 4" "\<not> ?hit 3" "\<not> ?hit 2"
    using codes [of 4] codes [of 3] codes [of 2] digits by (simp_all add: considered_def default_options_def)
  have sub: "filter (\<lambda>c. \<not> is_ws c) '' 000 004'' = ''000004''" by code_simp
  have opts: "timestepAt 100 (period default_options) = 3" "int (window default_options) = 1"
      "0 < digits default_options" by (simp_all add: timestepAt_def default_options_def)
  have num: "(3 :: int) - 1 = 2" "(3 :: int) + 1 = 4" by simp_all
  obtain r where r: "verifyCode demo_hmac ''MZXW6'' '' 000 004'' 100 default_options = Inr r"
    and spec: "case r of None \<Rightarrow> \<forall>s. 2 \<le> s \<and> s \<le> 4 \<longrightarrow> \<not> ?hit s
      | Some s \<Rightarrow> 2 \<le> s \<and> s \<le> 4 \<and> ?hit s \<and> (\<forall>s'. 2 \<le> s' \<and> s' < s \<longrightarrow> \<not> ?hit s')"
    using verifyCode_spec [OF key opts(3), of 100 demo_hmac "'' 000 004''"]
    unfolding sub opts num Let_def by auto
  have "r = Some 4"
  proof (cases r)
    case None
    then show ?thesis using spec hits(1) by auto
  next
    case (Some s)
    then have "s = 2 \<or> s = 3 \<or> s = 4" using spec by auto
    then show ?thesis using Some spec hits by auto
  qed
  then show ?thesis using r by simp
qed

end
