(* ===== verification/MfaTables.thy ===== *)
theory MfaTables
  imports Base32Totp
begin

text \<open>
  The four tables of \<open>framework/mfa/src/models/\<close>, the configuration of \<open>mfa-config.ts\<close>, the
  errors and the events, and the parameters the drivers use: the cipher of the encryption
  package, the argon2 hasher, the SHA-256 digest of \<open>auth/src/guards/token-hash.ts\<close>, the
  signer, and the application's user provider.  Instants are milliseconds.  One request reads
  the clock once.  A table is the list of its rows in insertion order.
\<close>

section \<open>Rows\<close>

record MfaMethod =
  method_id :: string
  method_user :: string
  method_driver :: string
  method_secret :: "string option"
  method_label :: "string option"
  confirmed_at :: "int option"
  last_used_timestep :: "int option"
  method_created :: int

datatype MfaIntentStatus = StatusPending | StatusVerified | StatusLocked

record MfaIntent =
  intent_id :: string
  intent_user :: string
  binding :: "string option"
  purpose :: "string option"
  status :: MfaIntentStatus
  intent_driver :: "string option"
  intent_attempts :: int
  verified_at :: "int option"
  verification_expires_at :: "int option"
  intent_expires_at :: int
  intent_created :: int

record MfaChallenge =
  challenge_id :: string
  challenge_intent :: string
  challenge_driver :: string
  challenge_code :: string
  challenge_attempts :: int
  sent_at :: "int option"
  expires_at :: int
  consumed_at :: "int option"
  challenge_created :: int

record MfaRecoveryCode =
  code_id :: string
  code_user :: string
  code_hash :: string
  used_at :: "int option"
  code_created :: int

datatype MfaEvent =
    MethodEnrolled string string string "string option"
  | MethodConfirmed string string string
  | ChallengeIssued string string string string int
  | ChallengeThrottled string string string int
  | RecoveryCodeUsed string string int
  | RecoveryCodesGenerated string nat nat
  | Verified string string string "string option"
  | VerificationFailed string string string int int
  | IntentLocked string string string int

text \<open>The database, and the events the listeners have received.\<close>

record MfaDb =
  methods :: "MfaMethod list"
  intents :: "MfaIntent list"
  challenges :: "MfaChallenge list"
  recovery_codes :: "MfaRecoveryCode list"
  fired :: "MfaEvent list"

section \<open>Results and errors\<close>

datatype VerifyResult =
  VerifiedResult | InvalidCode | ExpiredResult | NoChallenge | Unavailable string

datatype ChallengeResult =
  Ready | Issued string int "string option" | Throttled int | ChallengeUnavailable string

datatype mfa_error =
    UnknownMfaDriverError string
  | DriverNotRegisteredError string
  | DecryptionError
  | TotpFailure totp_error
  | UniqueViolation string
  | Unauthorized
  | MissingMfaContextError
  | MfaRequiredError "string option" "string list"
  | MfaEnrollmentRequiredError "string option" "string list"
  | MfaLockedError "string option"

section \<open>Parameters and configuration\<close>

text \<open>A user record as the provider returns it: the columns holding a string.\<close>

type_synonym user = "string \<Rightarrow> string option"

record MfaEnv =
  env_hmac :: hmac
  env_encrypt :: "string \<Rightarrow> string \<Rightarrow> string"
  env_decrypt :: "string \<Rightarrow> string \<Rightarrow> string option"
  env_argon_make :: "string \<Rightarrow> string \<Rightarrow> string"
  env_argon_check :: "string \<Rightarrow> string \<Rightarrow> bool"
  env_sha256 :: "string \<Rightarrow> string"
  env_sign :: "string \<Rightarrow> string"
  env_user :: "string \<Rightarrow> user option"

datatype WhenUnenrolled = Deny | Allow | Challenge

record TotpDriverConfig =
  totp_digits :: "nat option"
  totp_period :: "nat option"
  totp_window :: "nat option"
  totp_algorithm :: "algorithm option"

record EmailDriverConfig =
  email_column :: "string option"
  email_digits :: "nat option"
  email_expiresInMinutes :: "int option"
  email_throttleSeconds :: "int option"
  email_link :: bool

record RecoveryDriverConfig =
  recovery_count :: "nat option"

record MfaConfig =
  drivers :: "string list"
  cfg_intentExpiresInMinutes :: "int option"
  cfg_verificationExpiresInMinutes :: "int option"
  cfg_maxAttempts :: "int option"
  cfg_whenUnenrolled :: "WhenUnenrolled option"
  cfg_bindToSession :: "bool option"
  totp_config :: TotpDriverConfig
  email_config :: EmailDriverConfig
  recovery_config :: RecoveryDriverConfig

section \<open>Queries\<close>

text \<open>\<open>Model.find(id)\<close> and \<open>Model.update(id, attributes)\<close>.\<close>

definition find_row :: "('r \<Rightarrow> string) \<Rightarrow> string \<Rightarrow> 'r list \<Rightarrow> 'r option" where
  "find_row key k rows = find (\<lambda>r. key r = k) rows"

text \<open>\<open>Model.create\<close>: the primary key of every table rejects a second row with the same id.\<close>

definition create_row :: "('r \<Rightarrow> string) \<Rightarrow> 'r \<Rightarrow> 'r list \<Rightarrow> mfa_error + 'r list" where
  "create_row key r rows =
     (if key r \<in> key ` set rows then Inl (UniqueViolation (key r)) else Inr (rows @ [r]))"

definition update_row :: "('r \<Rightarrow> string) \<Rightarrow> string \<Rightarrow> ('r \<Rightarrow> 'r) \<Rightarrow> 'r list \<Rightarrow> 'r list" where
  "update_row key k f rows = map (\<lambda>r. if key r = k then f r else r) rows"

text \<open>\<open>orderBy("created_at", "desc").first()\<close>; rows of one instant keep the table's order.\<close>

definition newest :: "('r \<Rightarrow> int) \<Rightarrow> 'r list \<Rightarrow> 'r option" where
  "newest created rows = find (\<lambda>r. \<forall>r' \<in> set rows. created r' \<le> created r) rows"

definition addMinutes :: "int \<Rightarrow> int \<Rightarrow> int" where
  "addMinutes t m = t + m * 60000"

definition addSeconds :: "int \<Rightarrow> int \<Rightarrow> int" where
  "addSeconds t s = t + s * 1000"

text \<open>\<open>DateTime.diffInSeconds\<close>: truncated towards zero, positive when the argument is later.\<close>

definition diffInSeconds :: "int \<Rightarrow> int \<Rightarrow> int" where
  "diffInSeconds this other =
     (if this \<le> other then (other - this) div 1000 else - ((this - other) div 1000))"

definition fire :: "MfaEvent \<Rightarrow> MfaDb \<Rightarrow> MfaDb" where
  "fire e db = db\<lparr>fired := fired db @ [e]\<rparr>"

section \<open>Lemmas on rows\<close>

lemma find_row_key: "find_row key k rows = Some r \<Longrightarrow> key r = k"
  by (auto simp: find_row_def find_Some_iff)

lemma find_row_set: "find_row key k rows = Some r \<Longrightarrow> r \<in> set rows"
  by (auto simp: find_row_def find_Some_iff)

lemma find_row_distinct:
  "distinct (map key rows) \<Longrightarrow> r \<in> set rows \<Longrightarrow> find_row key (key r) rows = Some r"
  by (induction rows) (auto simp: find_row_def image_iff)

lemma find_row_update:
  assumes "\<And>r. key (f r) = key r"
  shows "find_row key k (update_row key k' f rows) =
    (if k = k' then map_option f (find_row key k rows) else find_row key k rows)"
  by (induction rows) (auto simp: find_row_def update_row_def assms)

lemma keys_update_row [simp]:
  assumes "\<And>r. key (f r) = key r"
  shows "map key (update_row key k f rows) = map key rows"
  by (induction rows) (simp_all add: update_row_def assms)

lemma set_update_row:
  "set (update_row key k f rows) = f ` {r \<in> set rows. key r = k} \<union> {r \<in> set rows. key r \<noteq> k}"
  by (auto simp: update_row_def)

lemma newest_set: "newest created rows = Some r \<Longrightarrow> r \<in> set rows"
  by (auto simp: newest_def find_Some_iff)

lemma newest_None_iff: "newest created rows = None \<longleftrightarrow> rows = []"
proof (cases "rows = []")
  case False
  then have "Max (created ` set rows) \<in> created ` set rows" by (intro Max_in) auto
  then obtain r where "r \<in> set rows" "created r = Max (created ` set rows)" by auto
  then have "r \<in> set rows \<and> (\<forall>r' \<in> set rows. created r' \<le> created r)" by simp
  then show ?thesis using False by (auto simp: newest_def find_None_iff)
qed (simp add: newest_def)

end
