(* ===== verification/MfaDrivers.thy ===== *)
theory MfaDrivers
  imports MfaTables
begin

text \<open>
  The three second factors of \<open>framework/mfa/src/drivers/\<close>: authenticator codes
  (\<open>totp-driver.ts\<close>), emailed codes (\<open>email-driver.ts\<close>) and recovery codes
  (\<open>recovery-driver.ts\<close>).  An operation maps the database to a result, which may be a thrown
  error, and the database after.  Random values (ids, secrets, salts, numbers) are arguments.
  The locale \<open>one_time_factor\<close> states what the three share: a credential that has been
  accepted is never accepted again.
\<close>

section \<open>Authenticator codes\<close>

text \<open>The driver's options, and those of one verification.\<close>

definition totp_options :: "TotpDriverConfig \<Rightarrow> int option \<Rightarrow> TotpOptions" where
  "totp_options cfg floor =
     \<lparr>digits = nullish (totp_digits cfg) 6, period = nullish (totp_period cfg) 30,
      algo = nullish (totp_algorithm cfg) SHA1, window = nullish (totp_window cfg) 1, after = floor\<rparr>"

definition totp_aad :: "string \<Rightarrow> string" where
  "totp_aad userId = ''mfa_methods.secret:'' @ userId"

definition totp_decrypt :: "MfaEnv \<Rightarrow> string \<Rightarrow> string \<Rightarrow> mfa_error + string" where
  "totp_decrypt env payload userId =
     (case env_decrypt env payload (totp_aad userId) of None \<Rightarrow> Inl DecryptionError | Some s \<Rightarrow> Inr s)"

text \<open>\<open>verifyCode\<close> at \<open>Math.floor(Date.now() / 1000)\<close>, its errors lifted.\<close>

definition totp_check :: "MfaEnv \<Rightarrow> TotpDriverConfig \<Rightarrow> int \<Rightarrow> string \<Rightarrow> string \<Rightarrow> int option \<Rightarrow> mfa_error + int option" where
  "totp_check env cfg now secret code floor =
     (case verifyCode (env_hmac env) secret code (now div 1000) (totp_options cfg floor) of
        Inl e \<Rightarrow> Inl (TotpFailure e) | Inr r \<Rightarrow> Inr r)"

definition confirmedMethods :: "MfaDb \<Rightarrow> string \<Rightarrow> MfaMethod list" where
  "confirmedMethods db userId =
     filter (\<lambda>m. method_user m = userId \<and> method_driver m = ''totp'' \<and> confirmed_at m \<noteq> None) (methods db)"

definition totp_enrolled :: "MfaDb \<Rightarrow> string \<Rightarrow> bool" where
  "totp_enrolled db userId = (confirmedMethods db userId \<noteq> [])"

definition totp_enroll ::
  "MfaEnv \<Rightarrow> int \<Rightarrow> string \<Rightarrow> byte list \<Rightarrow> string \<Rightarrow> string option \<Rightarrow> MfaDb \<Rightarrow> (mfa_error + string \<times> string) \<times> MfaDb" where
  "totp_enroll env now uuid random userId label db =
     (let secret = encodeBase32 random;
          row = \<lparr>method_id = uuid, method_user = userId, method_driver = ''totp'',
                 method_secret = Some (env_encrypt env secret (totp_aad userId)), method_label = label,
                 confirmed_at = None, last_used_timestep = None, method_created = now\<rparr> in
      case create_row method_id row (methods db) of
        Inl e \<Rightarrow> (Inl e, db)
      | Inr rows \<Rightarrow> (Inr (uuid, secret), fire (MethodEnrolled userId ''totp'' uuid label) (db\<lparr>methods := rows\<rparr>)))"

text \<open>The pending row \<open>confirm\<close> accepts.\<close>

definition totp_pending :: "MfaDb \<Rightarrow> string \<Rightarrow> string \<Rightarrow> (MfaMethod \<times> string) option" where
  "totp_pending db userId methodId =
     (case find_row method_id methodId (methods db) of
        None \<Rightarrow> None
      | Some m \<Rightarrow>
          (if method_user m \<noteq> userId \<or> method_driver m \<noteq> ''totp'' \<or> confirmed_at m \<noteq> None then None
           else map_option (\<lambda>payload. (m, payload)) (method_secret m)))"

text \<open>What \<open>confirm\<close> finds: the step of the accepted code.\<close>

definition totp_confirmed ::
  "MfaEnv \<Rightarrow> TotpDriverConfig \<Rightarrow> int \<Rightarrow> string \<Rightarrow> string \<Rightarrow> string \<Rightarrow> MfaDb \<Rightarrow> mfa_error + int option" where
  "totp_confirmed env cfg now userId methodId code db =
     (case totp_pending db userId methodId of
        None \<Rightarrow> Inr None
      | Some (m, payload) \<Rightarrow>
          bindE (totp_decrypt env payload userId) (\<lambda>secret. totp_check env cfg now secret code None))"

definition totp_confirm ::
  "MfaEnv \<Rightarrow> TotpDriverConfig \<Rightarrow> int \<Rightarrow> string \<Rightarrow> string \<Rightarrow> string \<Rightarrow> MfaDb \<Rightarrow> (mfa_error + bool) \<times> MfaDb" where
  "totp_confirm env cfg now userId methodId code db =
     (case totp_confirmed env cfg now userId methodId code db of
        Inl e \<Rightarrow> (Inl e, db)
      | Inr None \<Rightarrow> (Inr False, db)
      | Inr (Some step) \<Rightarrow>
          (Inr True, fire (MethodConfirmed userId ''totp'' methodId)
            (db\<lparr>methods := update_row method_id methodId
               (\<lambda>m. m\<lparr>confirmed_at := Some now, last_used_timestep := Some step\<rparr>) (methods db)\<rparr>)))"

definition totp_challenge :: "MfaIntent \<Rightarrow> MfaDb \<Rightarrow> ChallengeResult" where
  "totp_challenge intent db =
     (if \<not> totp_enrolled db (intent_user intent) then ChallengeUnavailable ''No confirmed authenticator app.''
      else Ready)"

text \<open>The walk over the confirmed methods; \<open>matched\<close> keeps its first value.\<close>

fun totp_match ::
  "MfaEnv \<Rightarrow> TotpDriverConfig \<Rightarrow> int \<Rightarrow> string \<Rightarrow> string \<Rightarrow> MfaMethod list \<Rightarrow> (string \<times> int) option
    \<Rightarrow> mfa_error + (string \<times> int) option" where
  "totp_match env cfg now userId code [] matched = Inr matched"
| "totp_match env cfg now userId code (m # ms) matched =
     (case method_secret m of
        None \<Rightarrow> totp_match env cfg now userId code ms matched
      | Some payload \<Rightarrow>
          bindE (totp_decrypt env payload userId) (\<lambda>secret.
          bindE (totp_check env cfg now secret code (last_used_timestep m)) (\<lambda>r.
            totp_match env cfg now userId code ms
              (case r of Some step \<Rightarrow> (if matched = None then Some (method_id m, step) else matched)
               | None \<Rightarrow> matched))))"

text \<open>\<open>verify\<close>: the answer from a snapshot of the methods, and the write of the replay floor.\<close>

definition totp_answer ::
  "MfaEnv \<Rightarrow> TotpDriverConfig \<Rightarrow> int \<Rightarrow> string \<Rightarrow> string \<Rightarrow> MfaMethod list
    \<Rightarrow> mfa_error + VerifyResult \<times> (string \<times> int) option" where
  "totp_answer env cfg now userId code ms =
     (if ms = [] then Inr (Unavailable ''No confirmed authenticator app.'', None)
      else bindE (totp_match env cfg now userId code ms None) (\<lambda>matched.
        Inr (case matched of None \<Rightarrow> InvalidCode | Some _ \<Rightarrow> VerifiedResult, matched)))"

definition totp_record :: "(string \<times> int) option \<Rightarrow> MfaDb \<Rightarrow> MfaDb" where
  "totp_record matched db =
     (case matched of None \<Rightarrow> db
      | Some (uuid, step) \<Rightarrow>
          db\<lparr>methods := update_row method_id uuid (\<lambda>m. m\<lparr>last_used_timestep := Some step\<rparr>) (methods db)\<rparr>)"

definition totp_verify ::
  "MfaEnv \<Rightarrow> TotpDriverConfig \<Rightarrow> int \<Rightarrow> MfaIntent \<Rightarrow> string \<Rightarrow> MfaDb \<Rightarrow> (mfa_error + VerifyResult) \<times> MfaDb" where
  "totp_verify env cfg now intent code db =
     (case totp_answer env cfg now (intent_user intent) code (confirmedMethods db (intent_user intent)) of
        Inl e \<Rightarrow> (Inl e, db)
      | Inr (r, matched) \<Rightarrow> (Inr r, totp_record matched db))"

section \<open>Emailed codes\<close>

text \<open>The newest unconsumed challenge of an intent, expired or not.\<close>

definition liveChallenge :: "MfaDb \<Rightarrow> string \<Rightarrow> MfaChallenge option" where
  "liveChallenge db intentId =
     newest challenge_created (filter (\<lambda>c. challenge_intent c = intentId \<and> challenge_driver c = ''email'' \<and>
       consumed_at c = None) (challenges db))"

definition throttleSeconds :: "EmailDriverConfig \<Rightarrow> int" where
  "throttleSeconds cfg = nullish (email_throttleSeconds cfg) 60"

definition recentChallenge :: "EmailDriverConfig \<Rightarrow> int \<Rightarrow> MfaDb \<Rightarrow> string \<Rightarrow> MfaChallenge option" where
  "recentChallenge cfg now db intentId =
     (if throttleSeconds cfg \<le> 0 then None
      else newest challenge_created (filter (\<lambda>c. challenge_intent c = intentId \<and> challenge_driver c = ''email'' \<and>
        addSeconds now (- throttleSeconds cfg) < challenge_created c) (challenges db)))"

definition addressOf :: "EmailDriverConfig \<Rightarrow> user \<Rightarrow> string option" where
  "addressOf cfg u =
     (case u (nullish (email_column cfg) ''email'') of
        None \<Rightarrow> None | Some v \<Rightarrow> (if trim v \<noteq> '''' then Some v else None))"

definition linkFor :: "MfaEnv \<Rightarrow> string \<Rightarrow> string \<Rightarrow> string" where
  "linkFor env intentId code = env_sign env (intentId @ '':'' @ code)"

text \<open>\<open>Math.ceil\<close> of the whole number \<open>diffInSeconds\<close> returns is that number.\<close>

definition retry_after :: "EmailDriverConfig \<Rightarrow> int \<Rightarrow> MfaChallenge \<Rightarrow> int" where
  "retry_after cfg now recent =
     max 1 (diffInSeconds now (addSeconds (challenge_created recent) (throttleSeconds cfg)))"

definition email_challenge ::
  "MfaEnv \<Rightarrow> EmailDriverConfig \<Rightarrow> int \<Rightarrow> string \<Rightarrow> string \<Rightarrow> nat \<Rightarrow> MfaIntent \<Rightarrow> user \<Rightarrow> MfaDb
    \<Rightarrow> (mfa_error + ChallengeResult) \<times> MfaDb" where
  "email_challenge env cfg now uuid salt random intent u db =
     (case addressOf cfg u of
        None \<Rightarrow> (Inr (ChallengeUnavailable ''This account has no email address.''), db)
      | Some _ \<Rightarrow>
        (case recentChallenge cfg now db (intent_id intent) of
           Some recent \<Rightarrow>
             (let retryAfter = retry_after cfg now recent in
              (Inr (Throttled retryAfter),
               fire (ChallengeThrottled (intent_user intent) ''email'' (intent_id intent) retryAfter) db))
         | None \<Rightarrow>
             (let code = padStart (nullish (email_digits cfg) 6) (string_of_nat random);
                  expiresAt = addMinutes now (nullish (email_expiresInMinutes cfg) 10);
                  row = \<lparr>challenge_id = uuid, challenge_intent = intent_id intent, challenge_driver = ''email'',
                         challenge_code = env_argon_make env salt code, challenge_attempts = 0,
                         sent_at = Some now, expires_at = expiresAt, consumed_at = None, challenge_created = now\<rparr> in
              case create_row challenge_id row (challenges db) of
                Inl e \<Rightarrow> (Inl e, db)
              | Inr rows \<Rightarrow>
                  (Inr (Issued code expiresAt
                     (if email_link cfg then Some (linkFor env (intent_id intent) code) else None)),
                   fire (ChallengeIssued (intent_user intent) ''email'' (intent_id intent) uuid expiresAt)
                     (db\<lparr>challenges := rows\<rparr>)))))"

text \<open>The challenge a code matches, when it is still in time.\<close>

definition email_matched :: "MfaEnv \<Rightarrow> int \<Rightarrow> MfaIntent \<Rightarrow> string \<Rightarrow> MfaDb \<Rightarrow> MfaChallenge option" where
  "email_matched env now intent code db =
     (case liveChallenge db (intent_id intent) of
        None \<Rightarrow> None
      | Some c \<Rightarrow> (if \<not> expires_at c < now \<and> env_argon_check env (trim code) (challenge_code c) then Some c else None))"

definition email_verify ::
  "MfaEnv \<Rightarrow> int \<Rightarrow> MfaIntent \<Rightarrow> string \<Rightarrow> MfaDb \<Rightarrow> (mfa_error + VerifyResult) \<times> MfaDb" where
  "email_verify env now intent code db =
     (case liveChallenge db (intent_id intent) of
        None \<Rightarrow> (Inr NoChallenge, db)
      | Some c \<Rightarrow>
          (if expires_at c < now then (Inr ExpiredResult, db)
           else if \<not> env_argon_check env (trim code) (challenge_code c) then
             (Inr InvalidCode, db\<lparr>challenges := update_row challenge_id (challenge_id c)
                (\<lambda>r. r\<lparr>challenge_attempts := challenge_attempts c + 1\<rparr>) (challenges db)\<rparr>)
           else
             (Inr VerifiedResult, db\<lparr>challenges := update_row challenge_id (challenge_id c)
                (\<lambda>r. r\<lparr>consumed_at := Some now\<rparr>) (challenges db)\<rparr>)))"

section \<open>Recovery codes\<close>

definition unused_codes :: "MfaDb \<Rightarrow> string \<Rightarrow> MfaRecoveryCode list" where
  "unused_codes db userId = filter (\<lambda>c. code_user c = userId \<and> used_at c = None) (recovery_codes db)"

definition remaining :: "MfaDb \<Rightarrow> string \<Rightarrow> nat" where
  "remaining db userId = length (unused_codes db userId)"

definition recovery_enrolled :: "MfaDb \<Rightarrow> string \<Rightarrow> bool" where
  "recovery_enrolled db userId = (0 < remaining db userId)"

text \<open>The rows \<open>generate\<close> inserts one by one; \<open>random i\<close> is the id and the bytes of code \<open>i\<close>.\<close>

fun generate_loop ::
  "MfaEnv \<Rightarrow> int \<Rightarrow> string \<Rightarrow> (string \<times> byte list) list \<Rightarrow> MfaRecoveryCode list \<Rightarrow> string list
    \<Rightarrow> (mfa_error + string list) \<times> MfaRecoveryCode list" where
  "generate_loop env now userId [] rows acc = (Inr acc, rows)"
| "generate_loop env now userId ((uuid, bytes) # rest) rows acc =
     (let code = encodeBase32 bytes in
      case create_row code_id \<lparr>code_id = uuid, code_user = userId, code_hash = env_sha256 env code,
                               used_at = None, code_created = now\<rparr> rows of
        Inl e \<Rightarrow> (Inl e, rows)
      | Inr rows' \<Rightarrow> generate_loop env now userId rest rows' (acc @ [code]))"

definition recovery_generate ::
  "MfaEnv \<Rightarrow> RecoveryDriverConfig \<Rightarrow> int \<Rightarrow> string \<Rightarrow> (nat \<Rightarrow> string \<times> byte list) \<Rightarrow> MfaDb
    \<Rightarrow> (mfa_error + string list) \<times> MfaDb" where
  "recovery_generate env cfg now userId random db =
     (let kept = filter (\<lambda>c. code_user c \<noteq> userId) (recovery_codes db);
          replaced = length (recovery_codes db) - length kept in
      case generate_loop env now userId (map random [0..<nullish (recovery_count cfg) 8]) kept [] of
        (Inl e, rows) \<Rightarrow> (Inl e, db\<lparr>recovery_codes := rows\<rparr>)
      | (Inr codes, rows) \<Rightarrow>
          (Inr codes, fire (RecoveryCodesGenerated userId (length codes) replaced) (db\<lparr>recovery_codes := rows\<rparr>)))"

definition recovery_challenge :: "MfaIntent \<Rightarrow> MfaDb \<Rightarrow> ChallengeResult" where
  "recovery_challenge intent db =
     (if \<not> recovery_enrolled db (intent_user intent) then ChallengeUnavailable ''No unused recovery codes remain.''
      else Ready)"

text \<open>\<open>hashToken\<close> and \<open>verifyTokenHash\<close> on hexadecimal digests, as the table stores them.\<close>

definition verifyTokenHash :: "MfaEnv \<Rightarrow> string \<Rightarrow> string \<Rightarrow> bool" where
  "verifyTokenHash env secret storedDigest = (env_sha256 env secret = storedDigest)"

definition recovery_submitted :: "string \<Rightarrow> string" where
  "recovery_submitted code =
     concat (map upper_latin1 (filter (\<lambda>c. \<not> is_ws c \<and> c \<noteq> CHR ''-'') (trim code)))"

definition recovery_matched :: "MfaEnv \<Rightarrow> MfaIntent \<Rightarrow> string \<Rightarrow> MfaDb \<Rightarrow> string option" where
  "recovery_matched env intent code db =
     map_option code_id (find (\<lambda>r. verifyTokenHash env (recovery_submitted code) (code_hash r))
       (unused_codes db (intent_user intent)))"

definition recovery_verify ::
  "MfaEnv \<Rightarrow> int \<Rightarrow> MfaIntent \<Rightarrow> string \<Rightarrow> MfaDb \<Rightarrow> (mfa_error + VerifyResult) \<times> MfaDb" where
  "recovery_verify env now intent code db =
     (let codes = unused_codes db (intent_user intent) in
      if codes = [] then (Inr (Unavailable ''No unused recovery codes remain.''), db)
      else case recovery_matched env intent code db of
        None \<Rightarrow> (Inr InvalidCode, db)
      | Some uuid \<Rightarrow>
          (Inr VerifiedResult,
           fire (RecoveryCodeUsed (intent_user intent) (intent_id intent) (int (length codes) - 1))
             (db\<lparr>recovery_codes := update_row code_id uuid (\<lambda>r. r\<lparr>used_at := Some now\<rparr>) (recovery_codes db)\<rparr>)))"

section \<open>One-time credentials\<close>

text \<open>The credentials a run of requests consumes, in order.\<close>

fun consumed ::
  "('req \<Rightarrow> 'db \<Rightarrow> 'db) \<Rightarrow> ('req \<Rightarrow> 'db \<Rightarrow> 'cred option) \<Rightarrow> 'db \<Rightarrow> 'req list \<Rightarrow> 'cred list" where
  "consumed act uses db [] = []"
| "consumed act uses db (r # rs) =
     (case uses r db of None \<Rightarrow> [] | Some c \<Rightarrow> [c]) @ consumed act uses (act r db) rs"

locale one_time_factor =
  fixes act :: "'req \<Rightarrow> 'db \<Rightarrow> 'db"
    and uses :: "'req \<Rightarrow> 'db \<Rightarrow> 'cred option"
    and spent :: "'db \<Rightarrow> 'cred set"
    and wf :: "'db \<Rightarrow> bool"
  assumes wf_act: "wf db \<Longrightarrow> wf (act r db)"
    and unspent: "wf db \<Longrightarrow> uses r db = Some c \<Longrightarrow> c \<notin> spent db"
    and burnt: "wf db \<Longrightarrow> uses r db = Some c \<Longrightarrow> c \<in> spent (act r db)"
    and spent_mono: "wf db \<Longrightarrow> c \<in> spent db \<Longrightarrow> c \<in> spent (act r db)"
begin

lemma consumed_unspent: "wf db \<Longrightarrow> set (consumed act uses db rs) \<inter> spent db = {}"
proof (induction rs arbitrary: db)
  case (Cons r rs)
  then have "set (consumed act uses (act r db) rs) \<inter> spent (act r db) = {}" by (simp add: wf_act)
  then show ?case using Cons.prems unspent spent_mono by (auto split: option.split)
qed simp

lemma single_use: "wf db \<Longrightarrow> distinct (consumed act uses db rs)"
proof (induction rs arbitrary: db)
  case (Cons r rs)
  have rest: "distinct (consumed act uses (act r db) rs)"
    "set (consumed act uses (act r db) rs) \<inter> spent (act r db) = {}"
    using Cons wf_act consumed_unspent by blast+
  then show ?case
    using burnt [OF Cons.prems, of r] by (cases "uses r db") auto
qed simp

end

subsection \<open>Authenticator codes\<close>

datatype totp_request =
    EnrollTotp int string "byte list" string "string option"
  | ConfirmTotp int string string string
  | VerifyTotp int MfaIntent string

fun totp_act :: "MfaEnv \<Rightarrow> TotpDriverConfig \<Rightarrow> totp_request \<Rightarrow> MfaDb \<Rightarrow> MfaDb" where
  "totp_act env cfg (EnrollTotp now uuid random userId label) db = snd (totp_enroll env now uuid random userId label db)"
| "totp_act env cfg (ConfirmTotp now userId methodId code) db = snd (totp_confirm env cfg now userId methodId code db)"
| "totp_act env cfg (VerifyTotp now intent code) db = snd (totp_verify env cfg now intent code db)"

text \<open>The method and the step of the code a request is granted for.\<close>

fun totp_uses :: "MfaEnv \<Rightarrow> TotpDriverConfig \<Rightarrow> totp_request \<Rightarrow> MfaDb \<Rightarrow> (string \<times> int) option" where
  "totp_uses env cfg (EnrollTotp now uuid random userId label) db = None"
| "totp_uses env cfg (ConfirmTotp now userId methodId code) db =
     (case totp_confirmed env cfg now userId methodId code db of
        Inr (Some step) \<Rightarrow> Some (methodId, step) | _ \<Rightarrow> None)"
| "totp_uses env cfg (VerifyTotp now intent code) db =
     (case totp_answer env cfg now (intent_user intent) code (confirmedMethods db (intent_user intent)) of
        Inr (VerifiedResult, Some c) \<Rightarrow> Some c | _ \<Rightarrow> None)"

definition totp_spent :: "MfaDb \<Rightarrow> (string \<times> int) set" where
  "totp_spent db = {(i, s). \<exists>m \<in> set (methods db). method_id m = i \<and>
     (\<exists>floor. last_used_timestep m = Some floor \<and> s \<le> floor)}"

text \<open>Ids are unique, and only a confirmed method has a replay floor.\<close>

definition methods_wf :: "MfaDb \<Rightarrow> bool" where
  "methods_wf db \<longleftrightarrow> distinct (map method_id (methods db)) \<and>
     (\<forall>m \<in> set (methods db). confirmed_at m = None \<longrightarrow> last_used_timestep m = None)"

lemma totp_check_floor:
  "totp_check env cfg now secret code floor = Inr (Some s) \<Longrightarrow> floor = Some f \<Longrightarrow> f < s"
  by (auto simp: totp_check_def totp_options_def considered_def split: sum.splits
      dest!: verifyCode_considered)

lemma totp_match_above:
  "totp_match env cfg now userId code ms matched = Inr (Some (i, s)) \<Longrightarrow> matched = Some (i, s) \<or>
    (\<exists>m \<in> set ms. method_id m = i \<and> (\<forall>floor. last_used_timestep m = Some floor \<longrightarrow> floor < s))"
proof (induction ms arbitrary: matched)
  case Nil
  then show ?case by simp
next
  case (Cons m ms)
  show ?case
  proof (cases "method_secret m")
    case None
    then show ?thesis using Cons by auto
  next
    case (Some payload)
    then obtain secret r where r: "totp_check env cfg now secret code (last_used_timestep m) = Inr r"
      and rest: "totp_match env cfg now userId code ms
        (case r of Some step \<Rightarrow> (if matched = None then Some (method_id m, step) else matched)
         | None \<Rightarrow> matched) = Inr (Some (i, s))"
      using Cons.prems by (auto simp: bindE_Inr_iff)
    show ?thesis
      using Cons.IH [OF rest] totp_check_floor [OF r [THEN trans]] r
      by (auto split: option.splits if_splits dest: totp_check_floor)
  qed
qed

lemma totp_answer_Some:
  "totp_answer env cfg now userId code ms = Inr (VerifiedResult, Some c) \<Longrightarrow>
    totp_match env cfg now userId code ms None = Inr (Some c)"
  by (auto simp: totp_answer_def bindE_Inr_iff split: if_splits option.splits)

text \<open>Writing a replay floor above the row's present one.\<close>

lemma raise_floor:
  assumes wf: "methods_wf db" and m: "m \<in> set (methods db)"
    and above: "\<And>floor. last_used_timestep m = Some floor \<Longrightarrow> floor < s"
    and f: "\<And>r. method_id (f r) = method_id r" "\<And>r. last_used_timestep (f r) = Some s" "confirmed_at (f m) \<noteq> None"
    and db': "methods db' = update_row method_id (method_id m) f (methods db)"
  shows "methods_wf db'" "(method_id m, s) \<notin> totp_spent db" "(method_id m, s) \<in> totp_spent db'"
    "c \<in> totp_spent db \<Longrightarrow> c \<in> totp_spent db'"
proof -
  have only: "r = m" if "r \<in> set (methods db)" "method_id r = method_id m" for r
    using wf m that by (auto simp: methods_wf_def distinct_map dest: inj_onD)
  have rows: "set (methods db') = insert (f m) {r \<in> set (methods db). method_id r \<noteq> method_id m}"
    unfolding db' set_update_row using m only by auto
  show "methods_wf db'"
    using wf f rows by (auto simp: methods_wf_def db')
  show "(method_id m, s) \<notin> totp_spent db"
    using above only by (fastforce simp: totp_spent_def)
  show "(method_id m, s) \<in> totp_spent db'"
    using f rows by (auto simp: totp_spent_def)
  show "c \<in> totp_spent db'" if "c \<in> totp_spent db"
  proof -
    obtain r floor where c: "r \<in> set (methods db)" "fst c = method_id r" "last_used_timestep r = Some floor" "snd c \<le> floor"
      using \<open>c \<in> totp_spent db\<close> by (cases c) (auto simp: totp_spent_def)
    show ?thesis
    proof (cases "method_id r = method_id m")
      case True
      then have "snd c \<le> s" using only c above by fastforce
      then show ?thesis using True c f rows by (cases c) (auto simp: totp_spent_def)
    next
      case False
      then show ?thesis using c rows by (cases c) (auto simp: totp_spent_def)
    qed
  qed
qed

lemma totp_spent_methods: "methods db' = methods db \<Longrightarrow> totp_spent db' = totp_spent db"
  by (simp add: totp_spent_def)

lemma fire_fields [simp]:
  "methods (fire e db) = methods db" "intents (fire e db) = intents db"
  "challenges (fire e db) = challenges db" "recovery_codes (fire e db) = recovery_codes db"
  by (simp_all add: fire_def)

lemma totp_enroll_effect:
  "methods_wf db \<Longrightarrow> methods_wf (totp_act env cfg (EnrollTotp now uuid random userId label) db)"
  "c \<in> totp_spent db \<Longrightarrow> c \<in> totp_spent (totp_act env cfg (EnrollTotp now uuid random userId label) db)"
  by (auto simp: totp_enroll_def create_row_def methods_wf_def totp_spent_def Let_def)

definition floor_raised :: "(string \<times> int) option \<Rightarrow> MfaDb \<Rightarrow> MfaDb \<Rightarrow> bool" where
  "floor_raised used db db' =
     (case used of None \<Rightarrow> db' = db
      | Some (i, s) \<Rightarrow> \<exists>m f. m \<in> set (methods db) \<and> method_id m = i \<and>
          (\<forall>floor. last_used_timestep m = Some floor \<longrightarrow> floor < s) \<and>
          (\<forall>r. method_id (f r) = method_id r) \<and> (\<forall>r. last_used_timestep (f r) = Some s) \<and>
          confirmed_at (f m) \<noteq> None \<and> methods db' = update_row method_id i f (methods db))"

text \<open>A granted confirmation or verification raises one floor; a refused one changes nothing.\<close>

lemma totp_confirm_effect:
  assumes wf: "methods_wf db" and r: "r = ConfirmTotp now userId methodId code"
  shows "floor_raised (totp_uses env cfg r db) db (totp_act env cfg r db)"
proof (cases "totp_confirmed env cfg now userId methodId code db")
  case (Inl e)
  then show ?thesis by (simp add: r totp_confirm_def floor_raised_def)
next
  case (Inr res)
  show ?thesis
  proof (cases res)
    case None
    then show ?thesis using Inr by (simp add: r totp_confirm_def floor_raised_def)
  next
    case (Some step)
    then obtain m payload where "totp_pending db userId methodId = Some (m, payload)"
      using Inr by (auto simp: totp_confirmed_def split: option.splits)
    then have "find_row method_id methodId (methods db) = Some m" "confirmed_at m = None"
      by (auto simp: totp_pending_def split: option.splits if_splits)
    then have "m \<in> set (methods db)" "method_id m = methodId" "last_used_timestep m = None"
      using wf find_row_set find_row_key by (fastforce simp: methods_wf_def)+
    then show ?thesis using Inr Some
      by (auto simp: r totp_confirm_def floor_raised_def
          intro!: exI [of _ m] exI [of _ "\<lambda>m. m\<lparr>confirmed_at := Some now, last_used_timestep := Some step\<rparr>"])
  qed
qed

lemma totp_verify_effect:
  assumes r: "r = VerifyTotp now intent code"
  shows "floor_raised (totp_uses env cfg r db) db (totp_act env cfg r db)"
proof (cases "totp_answer env cfg now (intent_user intent) code (confirmedMethods db (intent_user intent))")
  case (Inl e)
  then show ?thesis by (simp add: r totp_verify_def floor_raised_def)
next
  case (Inr a)
  obtain res matched where a: "a = (res, matched)" by force
  show ?thesis
  proof (cases matched)
    case None
    then show ?thesis using Inr a by (auto simp: r totp_verify_def totp_record_def floor_raised_def split: VerifyResult.split)
  next
    case (Some c)
    obtain i s where c: "c = (i, s)" by force
    have res: "res = VerifiedResult"
      using Inr a Some by (auto simp: totp_answer_def bindE_Inr_iff split: if_splits option.splits)
    then obtain m where m: "m \<in> set (confirmedMethods db (intent_user intent))" "method_id m = i"
        "\<forall>floor. last_used_timestep m = Some floor \<longrightarrow> floor < s"
      using totp_match_above [OF totp_answer_Some] Inr a Some c by blast
    then have "m \<in> set (methods db)" "confirmed_at m \<noteq> None" by (auto simp: confirmedMethods_def)
    then show ?thesis using Inr a Some c res m
      by (auto simp: r totp_verify_def totp_record_def floor_raised_def
          intro!: exI [of _ m] exI [of _ "\<lambda>m. m\<lparr>last_used_timestep := Some s\<rparr>"])
  qed
qed

lemma totp_effect:
  assumes wf: "methods_wf db"
  shows "methods_wf (totp_act env cfg r db) \<and>
    (\<forall>c. totp_uses env cfg r db = Some c \<longrightarrow> c \<notin> totp_spent db \<and> c \<in> totp_spent (totp_act env cfg r db)) \<and>
    (\<forall>c \<in> totp_spent db. c \<in> totp_spent (totp_act env cfg r db))"
proof -
  have raised: ?thesis
    if eff: "floor_raised (totp_uses env cfg r db) db (totp_act env cfg r db)"
  proof (cases "totp_uses env cfg r db")
    case None
    then show ?thesis using eff wf by (simp add: floor_raised_def)
  next
    case (Some c)
    obtain i s where c: "c = (i, s)" by force
    obtain m f where m: "m \<in> set (methods db)" "method_id m = i"
      "\<forall>floor. last_used_timestep m = Some floor \<longrightarrow> floor < s"
      and f: "\<forall>r. method_id (f r) = method_id r" "\<forall>r. last_used_timestep (f r) = Some s" "confirmed_at (f m) \<noteq> None"
      and db': "methods (totp_act env cfg r db) = update_row method_id (method_id m) f (methods db)"
      using eff Some c by (auto simp: floor_raised_def)
    show ?thesis
      using raise_floor [OF wf m(1) _ _ _ f(3) db', of s] m f Some c by auto
  qed
  show ?thesis
  proof (cases r)
    case (EnrollTotp now uuid random userId label)
    then show ?thesis using totp_enroll_effect wf by auto
  next
    case (ConfirmTotp now userId methodId code)
    show ?thesis by (rule raised) (rule totp_confirm_effect [OF wf ConfirmTotp])
  next
    case (VerifyTotp now intent code)
    show ?thesis by (rule raised) (rule totp_verify_effect [OF VerifyTotp])
  qed
qed

interpretation totp_factor: one_time_factor "totp_act env cfg" "totp_uses env cfg" totp_spent methods_wf
  by unfold_locales (use totp_effect in blast)+

subsection \<open>Emailed codes\<close>

datatype email_request =
    SendEmail int string string nat MfaIntent user
  | VerifyEmail int MfaIntent string

fun email_act :: "MfaEnv \<Rightarrow> EmailDriverConfig \<Rightarrow> email_request \<Rightarrow> MfaDb \<Rightarrow> MfaDb" where
  "email_act env cfg (SendEmail now uuid salt random intent u) db =
     snd (email_challenge env cfg now uuid salt random intent u db)"
| "email_act env cfg (VerifyEmail now intent code) db = snd (email_verify env now intent code db)"

fun email_uses :: "MfaEnv \<Rightarrow> email_request \<Rightarrow> MfaDb \<Rightarrow> string option" where
  "email_uses env (SendEmail now uuid salt random intent u) db = None"
| "email_uses env (VerifyEmail now intent code) db = map_option challenge_id (email_matched env now intent code db)"

definition email_spent :: "MfaDb \<Rightarrow> string set" where
  "email_spent db = challenge_id ` {c \<in> set (challenges db). consumed_at c \<noteq> None}"

definition challenges_wf :: "MfaDb \<Rightarrow> bool" where
  "challenges_wf db \<longleftrightarrow> distinct (map challenge_id (challenges db))"

text \<open>Marking a row: ids are unique, so the row a query returns is the one an update hits.\<close>

lemma unmarked:
  "distinct (map key rows) \<Longrightarrow> r \<in> set rows \<Longrightarrow> \<not> marked r \<Longrightarrow> key r \<notin> key ` {r \<in> set rows. marked r}"
  by (auto simp: distinct_map dest!: inj_onD)

lemma update_row_cases:
  assumes "m \<in> set (update_row key i f rows)"
  obtains r where "m = f r" | "key m \<noteq> i"
  using assms by (auto simp: update_row_def split: if_splits)

lemma mark_row: "r \<in> set rows \<Longrightarrow> f r \<in> set (update_row key (key r) f rows)"
  by (auto simp: update_row_def)

lemma mark_kept:
  assumes "\<And>r. key (f r) = key r" "\<And>r. marked r \<Longrightarrow> marked (f r)"
  shows "key ` {r \<in> set rows. marked r} \<subseteq> key ` {r \<in> set (update_row key i f rows). marked r}"
proof
  fix j assume "j \<in> key ` {r \<in> set rows. marked r}"
  then obtain r where "r \<in> set rows" "j = key r" "marked r" by auto
  then show "j \<in> key ` {r \<in> set (update_row key i f rows). marked r}"
    using assms by (intro image_eqI [of _ _ "if key r = i then f r else r"]) (auto simp: update_row_def)
qed

lemma liveChallenge_row:
  "liveChallenge db i = Some c \<Longrightarrow> c \<in> set (challenges db) \<and> consumed_at c = None"
  by (auto simp: liveChallenge_def dest: newest_set)

lemma email_send_effect:
  "challenges_wf db \<Longrightarrow> challenges_wf (email_act env cfg (SendEmail now uuid salt random intent u) db)"
  "c \<in> email_spent db \<Longrightarrow> c \<in> email_spent (email_act env cfg (SendEmail now uuid salt random intent u) db)"
  by (auto simp: email_challenge_def create_row_def challenges_wf_def email_spent_def Let_def split: option.split)

lemma email_verify_effect:
  assumes wf: "challenges_wf db"
  shows "challenges_wf (email_act env cfg (VerifyEmail now intent code) db)"
    and "email_uses env (VerifyEmail now intent code) db = Some i \<Longrightarrow>
      i \<notin> email_spent db \<and> i \<in> email_spent (email_act env cfg (VerifyEmail now intent code) db)"
    and "j \<in> email_spent db \<Longrightarrow> j \<in> email_spent (email_act env cfg (VerifyEmail now intent code) db)"
proof -
  show "challenges_wf (email_act env cfg (VerifyEmail now intent code) db)"
    using wf by (auto simp: email_verify_def challenges_wf_def split: option.split)
  show "j \<in> email_spent (email_act env cfg (VerifyEmail now intent code) db)" if "j \<in> email_spent db"
  proof -
    have "email_spent db \<subseteq> email_spent (email_act env cfg (VerifyEmail now intent code) db)"
      by (simp add: email_verify_def email_spent_def mark_kept split: option.split)
    then show ?thesis using that ..
  qed
  assume uses: "email_uses env (VerifyEmail now intent code) db = Some i"
  then obtain c where c: "liveChallenge db (intent_id intent) = Some c" "\<not> expires_at c < now"
      "env_argon_check env (trim code) (challenge_code c)" "i = challenge_id c"
    by (auto simp: email_matched_def split: option.splits if_splits)
  note row = liveChallenge_row [OF c(1)]
  have "i \<notin> email_spent db"
    unfolding email_spent_def c(4) using wf row by (intro unmarked) (simp_all add: challenges_wf_def)
  moreover have "i \<in> email_spent (email_act env cfg (VerifyEmail now intent code) db)"
  proof -
    have "challenges (email_act env cfg (VerifyEmail now intent code) db) =
        update_row challenge_id (challenge_id c) (\<lambda>r. r\<lparr>consumed_at := Some now\<rparr>) (challenges db)"
      using c(1-3) by (simp add: email_verify_def)
    with mark_row [OF row [THEN conjunct1], of "\<lambda>r. r\<lparr>consumed_at := Some now\<rparr>" challenge_id]
    have "c\<lparr>consumed_at := Some now\<rparr> \<in> set (challenges (email_act env cfg (VerifyEmail now intent code) db))"
      by simp
    then show ?thesis
      unfolding email_spent_def c(4) by (intro image_eqI [of _ _ "c\<lparr>consumed_at := Some now\<rparr>"]) simp_all
  qed
  ultimately show "i \<notin> email_spent db \<and> i \<in> email_spent (email_act env cfg (VerifyEmail now intent code) db)" ..
qed

interpretation email_factor: one_time_factor "email_act env cfg" "email_uses env" email_spent challenges_wf
proof
  fix db :: MfaDb and r c assume wf: "challenges_wf db"
  show "challenges_wf (email_act env cfg r db)"
    using email_send_effect(1) [OF wf] email_verify_effect(1) [OF wf] by (cases r) (simp_all only:)
  show "c \<in> email_spent (email_act env cfg r db)" if "c \<in> email_spent db"
    using email_send_effect(2) [OF that] email_verify_effect(3) [OF wf that] by (cases r) (simp_all only:)
  show "c \<notin> email_spent db" "c \<in> email_spent (email_act env cfg r db)" if "email_uses env r db = Some c"
  proof -
    from that obtain now intent code where r: "r = VerifyEmail now intent code" by (cases r) auto
    show "c \<notin> email_spent db" "c \<in> email_spent (email_act env cfg r db)"
      using email_verify_effect(2) [OF wf that [unfolded r], of cfg] unfolding r by blast+
  qed
qed

subsection \<open>Recovery codes\<close>

datatype recovery_request = VerifyRecovery int MfaIntent string

fun recovery_act :: "MfaEnv \<Rightarrow> recovery_request \<Rightarrow> MfaDb \<Rightarrow> MfaDb" where
  "recovery_act env (VerifyRecovery now intent code) db = snd (recovery_verify env now intent code db)"

fun recovery_uses :: "MfaEnv \<Rightarrow> recovery_request \<Rightarrow> MfaDb \<Rightarrow> string option" where
  "recovery_uses env (VerifyRecovery now intent code) db = recovery_matched env intent code db"

definition recovery_spent :: "MfaDb \<Rightarrow> string set" where
  "recovery_spent db = code_id ` {c \<in> set (recovery_codes db). used_at c \<noteq> None}"

definition codes_wf :: "MfaDb \<Rightarrow> bool" where
  "codes_wf db \<longleftrightarrow> distinct (map code_id (recovery_codes db))"

lemma recovery_matched_row:
  assumes "recovery_matched env intent code db = Some i"
  shows "\<exists>c \<in> set (unused_codes db (intent_user intent)). code_id c = i"
  using assms unfolding recovery_matched_def by (auto simp: find_Some_iff)

lemma recovery_effect:
  assumes wf: "codes_wf db"
  shows "codes_wf (recovery_act env r db)"
    and "recovery_uses env r db = Some i \<Longrightarrow> i \<notin> recovery_spent db \<and> i \<in> recovery_spent (recovery_act env r db)"
    and "j \<in> recovery_spent db \<Longrightarrow> j \<in> recovery_spent (recovery_act env r db)"
proof -
  obtain now intent code where r: "r = VerifyRecovery now intent code" by (cases r)
  show "codes_wf (recovery_act env r db)"
    using wf by (auto simp: r recovery_verify_def codes_wf_def Let_def split: option.split)
  show "j \<in> recovery_spent (recovery_act env r db)" if "j \<in> recovery_spent db"
  proof -
    have "recovery_spent db \<subseteq> recovery_spent (recovery_act env r db)"
      by (simp add: r recovery_verify_def recovery_spent_def Let_def mark_kept split: option.split)
    then show ?thesis using that ..
  qed
  assume uses: "recovery_uses env r db = Some i"
  then obtain c where c: "c \<in> set (unused_codes db (intent_user intent))" "code_id c = i"
    using recovery_matched_row [of env intent code db i] r by auto
  then have row: "c \<in> set (recovery_codes db)" "used_at c = None" by (auto simp: unused_codes_def)
  have "i \<notin> recovery_spent db"
    unfolding recovery_spent_def c(2) [symmetric] using wf row by (intro unmarked) (simp_all add: codes_wf_def)
  moreover have "unused_codes db (intent_user intent) \<noteq> []" using c by auto
  then have "recovery_codes (recovery_act env r db) =
      update_row code_id (code_id c) (\<lambda>r. r\<lparr>used_at := Some now\<rparr>) (recovery_codes db)"
    using uses c(2) by (simp add: r recovery_verify_def Let_def)
  with mark_row [OF row(1), of "\<lambda>r. r\<lparr>used_at := Some now\<rparr>" code_id]
  have "c\<lparr>used_at := Some now\<rparr> \<in> set (recovery_codes (recovery_act env r db))" by simp
  then have "i \<in> recovery_spent (recovery_act env r db)"
    unfolding recovery_spent_def c(2) [symmetric]
    by (intro image_eqI [of _ _ "c\<lparr>used_at := Some now\<rparr>"]) simp_all
  ultimately show "i \<notin> recovery_spent db \<and> i \<in> recovery_spent (recovery_act env r db)" ..
qed

interpretation recovery_factor: one_time_factor "recovery_act env" "recovery_uses env" recovery_spent codes_wf
  by unfold_locales (use recovery_effect in blast)+

section \<open>Granted and consumed\<close>

text \<open>A request is granted exactly when it consumes a credential.\<close>

lemma totp_granted:
  "fst (totp_verify env cfg now intent code db) = Inr VerifiedResult \<longleftrightarrow>
    totp_uses env cfg (VerifyTotp now intent code) db \<noteq> None"
proof (cases "totp_answer env cfg now (intent_user intent) code (confirmedMethods db (intent_user intent))")
  case (Inr a)
  then show ?thesis
    by (cases a; cases "fst a"; cases "snd a")
      (auto simp: totp_verify_def totp_answer_def bindE_Inr_iff split: if_splits option.splits)
qed (simp add: totp_verify_def)

lemma email_granted:
  "fst (email_verify env now intent code db) = Inr VerifiedResult \<longleftrightarrow>
    email_uses env (VerifyEmail now intent code) db \<noteq> None"
  by (simp add: email_verify_def email_matched_def split: option.split)

lemma recovery_granted:
  "fst (recovery_verify env now intent code db) = Inr VerifiedResult \<longleftrightarrow>
    recovery_uses env (VerifyRecovery now intent code) db \<noteq> None"
  using recovery_matched_row [of env intent code db]
  by (auto simp: recovery_verify_def Let_def split: option.split)

text \<open>
  The emailed code's \<open>Retry-After\<close> is the truncated remainder: a client that waits exactly that
  long is still throttled whenever the remainder is not a whole number of seconds.
\<close>

lemma retry_after_is_early:
  assumes "challenge_created c = created" "1000 < addSeconds created (throttleSeconds cfg) - now"
    and "\<not> 1000 dvd addSeconds created (throttleSeconds cfg) - now"
  shows "addSeconds (addSeconds now (retry_after cfg now c)) (- throttleSeconds cfg) < created"
proof -
  let ?left = "addSeconds created (throttleSeconds cfg) - now"
  have "retry_after cfg now c = ?left div 1000"
    using assms by (simp add: retry_after_def diffInSeconds_def)
  moreover have "?left div 1000 * 1000 \<noteq> ?left" using assms(3) by (metis dvd_triv_right)
  then have "?left div 1000 * 1000 < ?left"
    using minus_mod_eq_div_mult [of ?left 1000] pos_mod_sign [of 1000 ?left] by linarith
  ultimately show ?thesis by (simp add: addSeconds_def)
qed

section \<open>Properties\<close>


text \<open>The parameters of the witnesses: transparent cryptography, and one user with an address.\<close>

definition demo_env :: MfaEnv where
  "demo_env = \<lparr>env_hmac = demo_hmac, env_encrypt = (\<lambda>s aad. s), env_decrypt = (\<lambda>s aad. Some s),
     env_argon_make = (\<lambda>salt s. s), env_argon_check = (\<lambda>s h. s = h), env_sha256 = (\<lambda>s. s),
     env_sign = (\<lambda>s. s), env_user = (\<lambda>i. if i = ''u'' then Some (\<lambda>c. Some ''u@example.com'') else None)\<rparr>"

definition demo_totp :: TotpDriverConfig where
  "demo_totp = \<lparr>totp_digits = Some 1, totp_period = None, totp_window = None, totp_algorithm = None\<rparr>"

definition demo_email :: EmailDriverConfig where
  "demo_email = \<lparr>email_column = None, email_digits = Some 1, email_expiresInMinutes = None,
     email_throttleSeconds = None, email_link = False\<rparr>"

definition demo_intent :: MfaIntent where
  "demo_intent = \<lparr>intent_id = ''i'', intent_user = ''u'', binding = Some ''s'', purpose = None,
     status = StatusPending, intent_driver = Some ''totp'', intent_attempts = 0, verified_at = None,
     verification_expires_at = None, intent_expires_at = 600000, intent_created = 0\<rparr>"

definition demo_db :: MfaDb where
  "demo_db = \<lparr>methods = [\<lparr>method_id = ''m'', method_user = ''u'', method_driver = ''totp'',
       method_secret = Some ''MZXW6'', method_label = None, confirmed_at = Some 0,
       last_used_timestep = Some 0, method_created = 0\<rparr>],
     intents = [demo_intent], challenges = [],
     recovery_codes = [\<lparr>code_id = ''r'', code_user = ''u'', code_hash = ''MZXW6'', used_at = None, code_created = 0\<rparr>],
     fired = []\<rparr>"

lemma demo_db_wf: "methods_wf demo_db \<and> challenges_wf demo_db \<and> codes_wf demo_db"
  by (simp add: demo_db_def methods_wf_def challenges_wf_def codes_wf_def)


text \<open>
  Two verifications in flight at once: \<open>verify\<close> awaits its query before it awaits its update, so
  both may read the methods before either writes.
\<close>

definition totp_overlap ::
  "MfaEnv \<Rightarrow> TotpDriverConfig \<Rightarrow> string \<Rightarrow> int \<times> string \<Rightarrow> int \<times> string \<Rightarrow> MfaDb
    \<Rightarrow> (mfa_error + VerifyResult \<times> VerifyResult) \<times> MfaDb" where
  "totp_overlap env cfg userId first second db =
     (case (totp_answer env cfg (fst first) userId (snd first) (confirmedMethods db userId),
            totp_answer env cfg (fst second) userId (snd second) (confirmedMethods db userId)) of
        (Inr (r1, m1), Inr (r2, m2)) \<Rightarrow> (Inr (r1, r2), totp_record m2 (totp_record m1 db))
      | (Inl e, Inr (r2, m2)) \<Rightarrow> (Inl e, totp_record m2 db)
      | (Inr (r1, m1), Inl e) \<Rightarrow> (Inl e, totp_record m1 db)
      | (Inl e, Inl _) \<Rightarrow> (Inl e, db))"

text \<open>
  The replay floor is not enforced between overlapping verifications.  When two requests with
  codes of the same method are answered from the same snapshot, both are granted, also for one and
  the same code; and when the later write is that of the earlier step, the step of the other code is
  no longer spent.
\<close>

lemma overlapping_verifies_unspend:
  assumes first: "totp_answer env cfg t userId code (confirmedMethods db userId) = Inr (VerifiedResult, Some (i, a))"
    and second: "totp_answer env cfg t' userId code' (confirmedMethods db userId) = Inr (VerifiedResult, Some (i, b))"
  shows "fst (totp_overlap env cfg userId (t, code) (t', code') db) = Inr (VerifiedResult, VerifiedResult) \<and>
    (b < a \<longrightarrow> (i, a) \<notin> totp_spent (snd (totp_overlap env cfg userId (t, code) (t', code') db)))"
proof -
  let ?db = "totp_record (Some (i, b)) (totp_record (Some (i, a)) db)"
  have "(i, a) \<notin> totp_spent ?db" if "b < a"
  proof -
    have "last_used_timestep m = Some b" if m: "m \<in> set (methods ?db)" "method_id m = i" for m
    proof -
      have "methods ?db = update_row method_id i (\<lambda>m. m\<lparr>last_used_timestep := Some b\<rparr>)
          (methods (totp_record (Some (i, a)) db))" by (simp add: totp_record_def)
      with m(1) have "m \<in> set (update_row method_id i (\<lambda>m. m\<lparr>last_used_timestep := Some b\<rparr>)
          (methods (totp_record (Some (i, a)) db)))" by simp
      then have "(\<exists>r. m = r\<lparr>last_used_timestep := Some b\<rparr>) \<or> method_id m \<noteq> i"
        by (rule update_row_cases) auto
      then show ?thesis using m(2) by auto
    qed
    then show ?thesis using that by (auto simp: totp_spent_def)
  qed
  then show ?thesis by (simp add: totp_overlap_def first second)
qed


end
