(* ===== verification/MfaIntents.thy ===== *)
theory MfaIntents
  imports MfaDrivers
begin

text \<open>
  The lifecycle of a step-up attempt: \<open>framework/mfa/src/mfa-manager.ts\<close>, the checks of
  \<open>require-mfa.ts\<close> and the sweep of \<open>commands/mfa-gc.ts\<close>.  The three built-in drivers are the
  registered ones.  A verification is \<open>judge\<close> (up to the driver's answer) followed by \<open>settle\<close>
  (the writes after it); between the two, another request may run.
\<close>

section \<open>Configuration\<close>

definition getDefaultDriver :: "MfaConfig \<Rightarrow> string option" where
  "getDefaultDriver cfg = (case drivers cfg of [] \<Rightarrow> None | d # _ \<Rightarrow> Some d)"

definition intentExpiresInMinutes :: "MfaConfig \<Rightarrow> int" where
  "intentExpiresInMinutes cfg = nullish (cfg_intentExpiresInMinutes cfg) 10"

definition verificationExpiresInMinutes :: "MfaConfig \<Rightarrow> int" where
  "verificationExpiresInMinutes cfg = nullish (cfg_verificationExpiresInMinutes cfg) 15"

definition maxAttempts :: "MfaConfig \<Rightarrow> int" where
  "maxAttempts cfg = nullish (cfg_maxAttempts cfg) 5"

definition whenUnenrolled :: "MfaConfig \<Rightarrow> WhenUnenrolled" where
  "whenUnenrolled cfg = nullish (cfg_whenUnenrolled cfg) Deny"

definition bindToSession :: "MfaConfig \<Rightarrow> bool" where
  "bindToSession cfg = nullish (cfg_bindToSession cfg) True"

section \<open>Drivers by name\<close>

definition driver_registered :: "string \<Rightarrow> bool" where
  "driver_registered name = (name \<in> {''totp'', ''email'', ''recovery''})"

definition use_driver :: "MfaConfig \<Rightarrow> string \<Rightarrow> mfa_error + string" where
  "use_driver cfg name =
     (if name \<notin> set (drivers cfg) then Inl (UnknownMfaDriverError name)
      else if \<not> driver_registered name then Inl (DriverNotRegisteredError name)
      else Inr name)"

definition driver_enrolled :: "string \<Rightarrow> MfaDb \<Rightarrow> string \<Rightarrow> mfa_error + bool" where
  "driver_enrolled name db userId =
     (if name = ''totp'' then Inr (totp_enrolled db userId)
      else if name = ''email'' then Inr True
      else if name = ''recovery'' then Inr (recovery_enrolled db userId)
      else Inl (DriverNotRegisteredError name))"

text \<open>A driver whose check throws is left out.\<close>

definition available :: "MfaConfig \<Rightarrow> MfaDb \<Rightarrow> string \<Rightarrow> string list" where
  "available cfg db userId = filter (\<lambda>name. driver_enrolled name db userId = Inr True) (drivers cfg)"

record Fresh =
  fresh_id :: string
  fresh_salt :: string
  fresh_number :: nat

definition driver_challenge ::
  "MfaEnv \<Rightarrow> MfaConfig \<Rightarrow> int \<Rightarrow> Fresh \<Rightarrow> string \<Rightarrow> MfaIntent \<Rightarrow> user \<Rightarrow> MfaDb \<Rightarrow> (mfa_error + ChallengeResult) \<times> MfaDb" where
  "driver_challenge env cfg now fresh name intent u db =
     (if name = ''totp'' then (Inr (totp_challenge intent db), db)
      else if name = ''email'' then
        email_challenge env (email_config cfg) now (fresh_id fresh) (fresh_salt fresh) (fresh_number fresh) intent u db
      else (Inr (recovery_challenge intent db), db))"

definition driver_verify ::
  "MfaEnv \<Rightarrow> MfaConfig \<Rightarrow> int \<Rightarrow> string \<Rightarrow> MfaIntent \<Rightarrow> string \<Rightarrow> MfaDb \<Rightarrow> (mfa_error + VerifyResult) \<times> MfaDb" where
  "driver_verify env cfg now name intent code db =
     (if name = ''totp'' then totp_verify env (totp_config cfg) now intent code db
      else if name = ''email'' then email_verify env now intent code db
      else recovery_verify env now intent code db)"

section \<open>Binding\<close>

text \<open>
  What the active guard offers for this request: \<open>sessionId\<close>, \<open>currentTokenId\<close>, neither, or no
  guard because resolving it threw.
\<close>

datatype guard = NoGuard | SessionGuard "string option" | TokenGuard "string option" | OtherGuard

definition bindingFor :: "MfaConfig \<Rightarrow> guard \<Rightarrow> string option" where
  "bindingFor cfg g =
     (if \<not> bindToSession cfg then None
      else case g of SessionGuard b \<Rightarrow> b | TokenGuard b \<Rightarrow> b | _ \<Rightarrow> None)"

section \<open>Intents\<close>

definition livePendingIntent ::
  "int \<Rightarrow> string \<Rightarrow> string option \<Rightarrow> string option \<Rightarrow> MfaDb \<Rightarrow> MfaIntent option" where
  "livePendingIntent now userId purp bind db =
     newest intent_created (filter (\<lambda>i. intent_user i = userId \<and> status i = StatusPending \<and>
       now < intent_expires_at i \<and> purpose i = purp \<and> binding i = bind) (intents db))"

definition createIntent ::
  "MfaConfig \<Rightarrow> int \<Rightarrow> string \<Rightarrow> string \<Rightarrow> string option \<Rightarrow> string option \<Rightarrow> MfaDb
    \<Rightarrow> (mfa_error + MfaIntent) \<times> MfaDb" where
  "createIntent cfg now uuid userId purp bind db =
     (case livePendingIntent now userId purp bind db of
        Some existing \<Rightarrow> (Inr existing, db)
      | None \<Rightarrow>
          (let row = \<lparr>intent_id = uuid, intent_user = userId, binding = bind, purpose = purp,
                      status = StatusPending, intent_driver = None, intent_attempts = 0, verified_at = None,
                      verification_expires_at = None,
                      intent_expires_at = addMinutes now (intentExpiresInMinutes cfg), intent_created = now\<rparr> in
           case create_row intent_id row (intents db) of
             Inl e \<Rightarrow> (Inl e, db)
           | Inr rows \<Rightarrow> (Inr row, db\<lparr>intents := rows\<rparr>)))"

definition findIntent :: "string \<Rightarrow> MfaDb \<Rightarrow> MfaIntent option" where
  "findIntent i db = find_row intent_id i (intents db)"

definition update_intent :: "string \<Rightarrow> (MfaIntent \<Rightarrow> MfaIntent) \<Rightarrow> MfaDb \<Rightarrow> MfaDb" where
  "update_intent i f db = db\<lparr>intents := update_row intent_id i f (intents db)\<rparr>"

text \<open>\<open>challenge\<close>: the chosen driver is recorded before it is asked.\<close>

definition challenge ::
  "MfaEnv \<Rightarrow> MfaConfig \<Rightarrow> int \<Rightarrow> Fresh \<Rightarrow> MfaIntent \<Rightarrow> string \<Rightarrow> MfaDb
    \<Rightarrow> (mfa_error + ChallengeResult) \<times> MfaIntent \<times> MfaDb" where
  "challenge env cfg now fresh intent driverName db =
     (case use_driver cfg driverName of
        Inl e \<Rightarrow> (Inl e, intent, db)
      | Inr driver \<Rightarrow>
        (case env_user env (intent_user intent) of
           None \<Rightarrow> (Inr (ChallengeUnavailable ''The user no longer exists.''), intent, db)
         | Some u \<Rightarrow>
             (let (intent', db') =
                (if intent_driver intent \<noteq> Some driverName then
                   (intent\<lparr>intent_driver := Some driverName\<rparr>,
                    update_intent (intent_id intent) (\<lambda>r. r\<lparr>intent_driver := Some driverName\<rparr>) db)
                 else (intent, db));
                  (r, db'') = driver_challenge env cfg now fresh driver intent' u db' in
              (r, intent', db''))))"

text \<open>\<open>verify\<close> up to the driver's answer: either the request is answered, or a driver has judged.\<close>

datatype progress = Returned "mfa_error + VerifyResult" | Judged string VerifyResult

definition judge ::
  "MfaEnv \<Rightarrow> MfaConfig \<Rightarrow> int \<Rightarrow> MfaIntent \<Rightarrow> string \<Rightarrow> MfaDb \<Rightarrow> progress \<times> MfaDb" where
  "judge env cfg now intent code db =
     (if status intent = StatusLocked then
        (Returned (Inr (Unavailable ''This verification is locked.'')), db)
      else if status intent = StatusVerified then (Returned (Inr VerifiedResult), db)
      else if intent_expires_at intent < now then (Returned (Inr ExpiredResult), db)
      else case intent_driver intent of
        None \<Rightarrow> (Returned (Inr NoChallenge), db)
      | Some driverName \<Rightarrow>
        (case use_driver cfg driverName of
           Inl e \<Rightarrow> (Returned (Inl e), db)
         | Inr driver \<Rightarrow>
           (case env_user env (intent_user intent) of
              None \<Rightarrow> (Returned (Inr (Unavailable ''The user no longer exists.'')), db)
            | Some u \<Rightarrow>
              (case driver_verify env cfg now driver intent code db of
                 (Inl e, db') \<Rightarrow> (Returned (Inl e), db')
               | (Inr r, db') \<Rightarrow> (Judged driver r, db')))))"

definition markVerified :: "MfaConfig \<Rightarrow> int \<Rightarrow> MfaIntent \<Rightarrow> MfaDb \<Rightarrow> MfaIntent \<times> MfaDb" where
  "markVerified cfg now intent db =
     (let stamp = (\<lambda>r. r\<lparr>status := StatusVerified, verified_at := Some now,
                         verification_expires_at := Some (addMinutes now (verificationExpiresInMinutes cfg))\<rparr>) in
      (stamp intent, update_intent (intent_id intent) stamp db))"

text \<open>The new count and status are computed from the request's own copy of the row.\<close>

definition countFailure :: "MfaConfig \<Rightarrow> MfaIntent \<Rightarrow> MfaDb \<Rightarrow> MfaIntent \<times> MfaDb" where
  "countFailure cfg intent db =
     (let n = intent_attempts intent + 1;
          s = (if maxAttempts cfg \<le> n then StatusLocked else status intent);
          write = (\<lambda>r. r\<lparr>intent_attempts := n, status := s\<rparr>) in
      (write intent, update_intent (intent_id intent) write db))"

definition fireFailure :: "MfaConfig \<Rightarrow> MfaIntent \<Rightarrow> string \<Rightarrow> MfaDb \<Rightarrow> MfaDb" where
  "fireFailure cfg intent driverName db =
     (let left = max 0 (maxAttempts cfg - intent_attempts intent);
          db' = fire (VerificationFailed (intent_user intent) driverName (intent_id intent) (intent_attempts intent) left) db in
      if status intent = StatusLocked then
        fire (IntentLocked (intent_user intent) driverName (intent_id intent) (intent_attempts intent)) db'
      else db')"

definition settle ::
  "MfaConfig \<Rightarrow> int \<Rightarrow> MfaIntent \<Rightarrow> string \<Rightarrow> VerifyResult \<Rightarrow> MfaDb \<Rightarrow> MfaIntent \<times> MfaDb" where
  "settle cfg now intent driverName r db =
     (case r of
        VerifiedResult \<Rightarrow>
          (let (intent', db') = markVerified cfg now intent db in
           (intent', fire (Verified (intent_user intent) driverName (intent_id intent) (purpose intent)) db'))
      | InvalidCode \<Rightarrow>
          (let (intent', db') = countFailure cfg intent db in (intent', fireFailure cfg intent' driverName db'))
      | _ \<Rightarrow> (intent, db))"

definition verify ::
  "MfaEnv \<Rightarrow> MfaConfig \<Rightarrow> int \<Rightarrow> MfaIntent \<Rightarrow> string \<Rightarrow> MfaDb
    \<Rightarrow> (mfa_error + VerifyResult) \<times> MfaIntent \<times> MfaDb" where
  "verify env cfg now intent code db =
     (case judge env cfg now intent code db of
        (Returned r, db') \<Rightarrow> (r, intent, db')
      | (Judged driverName r, db') \<Rightarrow>
          (let (intent', db'') = settle cfg now intent driverName r db' in (Inr r, intent', db'')))"

definition live_verified ::
  "MfaConfig \<Rightarrow> int \<Rightarrow> string \<Rightarrow> string option \<Rightarrow> string option \<Rightarrow> MfaIntent \<Rightarrow> bool" where
  "live_verified cfg now userId purp bind i \<longleftrightarrow>
     intent_user i = userId \<and> status i = StatusVerified \<and>
     (case verification_expires_at i of None \<Rightarrow> False | Some t \<Rightarrow> now < t) \<and>
     (purp \<noteq> None \<longrightarrow> purpose i = purp) \<and>
     (bindToSession cfg \<and> bind \<noteq> None \<longrightarrow> binding i = bind)"

definition hasVerified ::
  "MfaConfig \<Rightarrow> int \<Rightarrow> string \<Rightarrow> string option \<Rightarrow> string option \<Rightarrow> MfaDb \<Rightarrow> bool" where
  "hasVerified cfg now userId purp bind db = list_ex (live_verified cfg now userId purp bind) (intents db)"

definition gc :: "int \<Rightarrow> MfaDb \<Rightarrow> nat \<times> MfaDb" where
  "gc now db =
     (let spent1 = (\<lambda>i. intent_expires_at i \<le> now \<and> verified_at i = None);
          rows = filter (\<lambda>i. \<not> spent1 i) (intents db);
          spent2 = (\<lambda>i. case verification_expires_at i of None \<Rightarrow> False | Some t \<Rightarrow> t \<le> now);
          rows' = filter (\<lambda>i. \<not> spent2 i) rows in
      (length (filter spent1 (intents db)) + length (filter spent2 rows), db\<lparr>intents := rows'\<rparr>))"

text \<open>The \<open>mfa:gc\<close> command.\<close>

definition mfa_gc :: "int \<Rightarrow> MfaDb \<Rightarrow> (nat \<times> nat) \<times> MfaDb" where
  "mfa_gc now db =
     (let (n, db') = gc now db;
          old = filter (\<lambda>c. expires_at c \<le> now) (challenges db');
          rows = filter (\<lambda>c. \<not> expires_at c \<le> now) (challenges db');
          used = filter (\<lambda>c. consumed_at c \<noteq> None) rows in
      ((n, length old + length used), db'\<lparr>challenges := filter (\<lambda>c. consumed_at c = None) rows\<rparr>))"

section \<open>The checks\<close>

record RequireMfaOptions =
  opt_whenUnenrolled :: "WhenUnenrolled option"
  opt_request :: "guard option"

text \<open>The ambient scope: \<open>None\<close> outside one, else the binding computed by the provider's pipe.\<close>

definition check_binding :: "MfaConfig \<Rightarrow> string option option \<Rightarrow> RequireMfaOptions \<Rightarrow> mfa_error + string option" where
  "check_binding cfg scope opts =
     (case opt_request opts of
        Some g \<Rightarrow> Inr (bindingFor cfg g)
      | None \<Rightarrow> (case scope of None \<Rightarrow> Inl MissingMfaContextError | Some b \<Rightarrow> Inr b))"

definition hasLockedIntent :: "int \<Rightarrow> string \<Rightarrow> string option \<Rightarrow> string option \<Rightarrow> MfaDb \<Rightarrow> bool" where
  "hasLockedIntent now userId purp bind db =
     list_ex (\<lambda>i. intent_user i = userId \<and> status i = StatusLocked \<and> now < intent_expires_at i \<and>
       (purp \<noteq> None \<longrightarrow> purpose i = purp) \<and> (bind \<noteq> None \<longrightarrow> binding i = bind)) (intents db)"

definition requireMfa ::
  "MfaConfig \<Rightarrow> int \<Rightarrow> string option \<Rightarrow> string option option \<Rightarrow> RequireMfaOptions \<Rightarrow> string option \<Rightarrow> MfaDb
    \<Rightarrow> mfa_error + unit" where
  "requireMfa cfg now authUser scope opts required db =
     (case authUser of
        None \<Rightarrow> Inl Unauthorized
      | Some userId \<Rightarrow>
        bindE (check_binding cfg scope opts) (\<lambda>bind.
          if hasVerified cfg now userId required bind db then Inr ()
          else
            let avail = available cfg db userId;
                policy = nullish (opt_whenUnenrolled opts) (whenUnenrolled cfg) in
            if avail = [] \<and> policy = Allow then Inr ()
            else if avail = [] \<and> policy = Challenge then Inl (MfaEnrollmentRequiredError required (drivers cfg))
            else if hasLockedIntent now userId required bind db then Inl (MfaLockedError required)
            else Inl (MfaRequiredError required avail)))"

definition mfaVerified ::
  "MfaConfig \<Rightarrow> int \<Rightarrow> string option \<Rightarrow> string option option \<Rightarrow> RequireMfaOptions \<Rightarrow> string option \<Rightarrow> MfaDb
    \<Rightarrow> mfa_error + bool" where
  "mfaVerified cfg now authUser scope opts required db =
     (case authUser of
        None \<Rightarrow> Inl Unauthorized
      | Some userId \<Rightarrow>
        bindE (check_binding cfg scope opts) (\<lambda>bind. Inr (hasVerified cfg now userId required bind db)))"

text \<open>The route middleware: the rest of the pipe runs only after the check.\<close>

definition ensureMfa ::
  "MfaConfig \<Rightarrow> int \<Rightarrow> string option \<Rightarrow> string option option \<Rightarrow> string option \<Rightarrow> WhenUnenrolled option
    \<Rightarrow> (MfaDb \<Rightarrow> mfa_error + 'a) \<Rightarrow> MfaDb \<Rightarrow> mfa_error + 'a" where
  "ensureMfa cfg now authUser scope required policy cont db =
     bindE (requireMfa cfg now authUser scope \<lparr>opt_whenUnenrolled = policy, opt_request = None\<rparr> required db)
       (\<lambda>_. cont db)"

section \<open>Runs of requests\<close>

text \<open>A submission loads the intent and verifies it; the answer is \<open>None\<close> when there is no such row.\<close>

definition submit ::
  "MfaEnv \<Rightarrow> MfaConfig \<Rightarrow> string \<Rightarrow> int \<times> string \<Rightarrow> MfaDb \<Rightarrow> (mfa_error + VerifyResult) option \<times> MfaDb" where
  "submit env cfg iid req db =
     (case findIntent iid db of
        None \<Rightarrow> (None, db)
      | Some i \<Rightarrow> (let (r, i', db') = verify env cfg (fst req) i (snd req) db in (Some r, db')))"

fun answers ::
  "MfaEnv \<Rightarrow> MfaConfig \<Rightarrow> string \<Rightarrow> (int \<times> string) list \<Rightarrow> MfaDb \<Rightarrow> (mfa_error + VerifyResult) option list" where
  "answers env cfg iid [] db = []"
| "answers env cfg iid (req # reqs) db =
     fst (submit env cfg iid req db) # answers env cfg iid reqs (snd (submit env cfg iid req db))"

section \<open>Lemmas\<close>

named_theorems mfa_frame \<open>what an operation leaves alone\<close>

lemma update_intent_fields [simp]:
  "methods (update_intent i f db) = methods db" "challenges (update_intent i f db) = challenges db"
  "recovery_codes (update_intent i f db) = recovery_codes db"
  "intents (update_intent i f db) = update_row intent_id i f (intents db)"
  by (simp_all add: update_intent_def)

lemma findIntent_update:
  "(\<And>r. intent_id (f r) = intent_id r) \<Longrightarrow> findIntent i (update_intent i f db) = map_option f (findIntent i db)"
  by (simp add: findIntent_def find_row_update)

lemma findIntent_cong: "intents db' = intents db \<Longrightarrow> findIntent i db' = findIntent i db"
  by (simp add: findIntent_def)

lemma intents_totp_record [mfa_frame]: "intents (totp_record m db) = intents db"
  by (simp add: totp_record_def split: option.split)

lemma intents_driver_verify [mfa_frame]:
  "intents (snd (driver_verify env cfg now name intent code db)) = intents db"
  by (simp add: driver_verify_def totp_verify_def email_verify_def recovery_verify_def Let_def mfa_frame
      split: option.split sum.split)

lemma intents_judge [mfa_frame]: "intents (snd (judge env cfg now intent code db)) = intents db"
proof -
  have "intents (snd (case driver_verify env cfg now d intent code db of
      (Inl e, db') \<Rightarrow> (Returned (Inl e), db') | (Inr r, db') \<Rightarrow> (Judged d r, db'))) = intents db" for d
  proof -
    obtain res db1 where "driver_verify env cfg now d intent code db = (res, db1)" by force
    then show ?thesis
      using intents_driver_verify [of env cfg now d intent code db] by (cases res) simp_all
  qed
  then show ?thesis by (simp add: judge_def split: option.split sum.split)
qed

lemma intents_fireFailure [mfa_frame]: "intents (fireFailure cfg i d db) = intents db"
  by (simp add: fireFailure_def Let_def)

lemma judge_Judged:
  assumes "judge env cfg now i code db = (Judged d r, db')"
  shows "status i = StatusPending \<and> \<not> intent_expires_at i < now \<and> intent_driver i = Some d \<and>
    driver_verify env cfg now d i code db = (Inr r, db')"
proof -
  have p: "status i = StatusPending" using assms by (cases "status i") (auto simp: judge_def)
  then show ?thesis
    using assms by (auto simp: judge_def use_driver_def split: if_splits option.splits sum.splits prod.splits)
qed

text \<open>What a submission does to the row, by the driver's judgement.\<close>

lemma submit_row:
  assumes i: "findIntent iid db = Some i"
  obtains r where "submit env cfg iid req db = (Some r, snd (submit env cfg iid req db))"
      "findIntent iid (snd (submit env cfg iid req db)) = Some i" "r \<noteq> Inr InvalidCode"
    | n where "status i = StatusPending" "fst (submit env cfg iid req db) = Some (Inr InvalidCode)"
      "findIntent iid (snd (submit env cfg iid req db)) = Some (i\<lparr>intent_attempts := intent_attempts i + 1,
         status := (if maxAttempts cfg \<le> intent_attempts i + 1 then StatusLocked else StatusPending)\<rparr>)"
    | i' where "status i = StatusPending" "fst (submit env cfg iid req db) = Some (Inr VerifiedResult)"
      "findIntent iid (snd (submit env cfg iid req db)) = Some i'" "status i' = StatusVerified"
proof -
  obtain p db1 where j: "judge env cfg (fst req) i (snd req) db = (p, db1)" by force
  have same: "findIntent iid db1 = Some i"
    using intents_judge [of env cfg "fst req" i "snd req" db] i j by (simp add: findIntent_def)
  have iid: "intent_id i = iid" using i by (simp add: findIntent_def find_row_key)
  show thesis
  proof (cases p)
    case (Returned r)
    have "r \<noteq> Inr InvalidCode"
      using j Returned by (auto simp: judge_def split: if_splits option.splits sum.splits prod.splits)
    then show ?thesis
      using that(1) [of r] i j Returned same by (simp add: submit_def verify_def)
  next
    case (Judged d r)
    note judged = judge_Judged [OF j [unfolded Judged]]
    show ?thesis
    proof (cases r)
      case InvalidCode
      then show ?thesis
        using that(2) i j Judged same judged
        by (simp add: submit_def verify_def settle_def countFailure_def Let_def iid findIntent_update
            findIntent_cong [OF intents_fireFailure])
    next
      case VerifiedResult
      then show ?thesis
        using that(3) i j Judged same judged
        by (simp add: submit_def verify_def settle_def markVerified_def Let_def iid findIntent_update
            findIntent_cong [of "fire e d" d for e d])
    qed (use that(1) [of "Inr r"] i j Judged same in \<open>simp_all add: submit_def verify_def settle_def\<close>)
  qed
qed

text \<open>The wrong codes an intent still takes.\<close>

definition budget :: "MfaConfig \<Rightarrow> MfaIntent \<Rightarrow> nat" where
  "budget cfg i = (if status i = StatusPending then nat (max 1 (maxAttempts cfg - intent_attempts i)) else 0)"

definition wrong :: "(mfa_error + VerifyResult) option list \<Rightarrow> nat" where
  "wrong rs = length (filter (\<lambda>r. r = Some (Inr InvalidCode)) rs)"

lemma wrong_within_budget: "findIntent iid db = Some i \<Longrightarrow> wrong (answers env cfg iid reqs db) \<le> budget cfg i"
proof (induction reqs arbitrary: db i)
  case Nil
  show ?case by (simp add: wrong_def)
next
  case (Cons req reqs)
  let ?db = "snd (submit env cfg iid req db)"
  show ?case
  proof (rule submit_row [OF Cons.prems, of env cfg req])
    fix r assume "submit env cfg iid req db = (Some r, ?db)" "findIntent iid ?db = Some i" "r \<noteq> Inr InvalidCode"
    then show ?thesis using Cons.IH [of ?db i] by (simp add: wrong_def) (metis fst_conv option.inject)
  next
    assume row: "status i = StatusPending" "fst (submit env cfg iid req db) = Some (Inr InvalidCode)"
      "findIntent iid ?db = Some (i\<lparr>intent_attempts := intent_attempts i + 1,
         status := (if maxAttempts cfg \<le> intent_attempts i + 1 then StatusLocked else StatusPending)\<rparr>)"
    have "wrong (answers env cfg iid (req # reqs) db) = Suc (wrong (answers env cfg iid reqs ?db))"
      using row(2) by (simp add: wrong_def)
    moreover have "Suc (budget cfg (i\<lparr>intent_attempts := intent_attempts i + 1,
        status := (if maxAttempts cfg \<le> intent_attempts i + 1 then StatusLocked else StatusPending)\<rparr>)) \<le> budget cfg i"
      using row(1) by (auto simp: budget_def)
    ultimately show ?thesis using Cons.IH [OF row(3)] by linarith
  next
    fix i' assume row: "status i = StatusPending" "fst (submit env cfg iid req db) = Some (Inr VerifiedResult)"
      "findIntent iid ?db = Some i'" "status i' = StatusVerified"
    then show ?thesis using Cons.IH [OF row(3)] by (simp add: wrong_def budget_def)
  qed
qed

section \<open>Histories\<close>

text \<open>
  The requests of an application.  \<open>OtherTables\<close> stands for everything that leaves the intents
  alone (enrolments, confirmations, deletions, new recovery codes): it may replace the other tables.
\<close>

datatype mfa_op =
    CreateIntent int string string "string option" "string option"
  | ChallengeIntent int Fresh string string
  | SubmitCode int string string
  | CollectGarbage int
  | OtherTables "MfaMethod list" "MfaChallenge list" "MfaRecoveryCode list"

fun apply_op :: "MfaEnv \<Rightarrow> MfaConfig \<Rightarrow> mfa_op \<Rightarrow> MfaDb \<Rightarrow> MfaDb" where
  "apply_op env cfg (CreateIntent now uuid userId purp bind) db = snd (createIntent cfg now uuid userId purp bind db)"
| "apply_op env cfg (ChallengeIntent now fresh iid driver) db =
     (case findIntent iid db of None \<Rightarrow> db | Some i \<Rightarrow> snd (snd (challenge env cfg now fresh i driver db)))"
| "apply_op env cfg (SubmitCode now iid code) db = snd (submit env cfg iid (now, code) db)"
| "apply_op env cfg (CollectGarbage now) db = snd (mfa_gc now db)"
| "apply_op env cfg (OtherTables ms cs rs) db = db\<lparr>methods := ms, challenges := cs, recovery_codes := rs\<rparr>"

text \<open>The proof a driver accepts in a request: when, whose, for what and from which session.\<close>

fun grant_of :: "MfaEnv \<Rightarrow> MfaConfig \<Rightarrow> mfa_op \<Rightarrow> MfaDb \<Rightarrow> (int \<times> string \<times> string option \<times> string option) option" where
  "grant_of env cfg (SubmitCode now iid code) db =
     (case findIntent iid db of None \<Rightarrow> None
      | Some i \<Rightarrow>
          (case fst (judge env cfg now i code db) of
             Judged d VerifiedResult \<Rightarrow> Some (now, intent_user i, purpose i, binding i)
           | _ \<Rightarrow> None))"
| "grant_of env cfg op db = None"

definition verified_ok :: "MfaConfig \<Rightarrow> (int \<times> string \<times> string option \<times> string option) set \<Rightarrow> MfaDb \<Rightarrow> bool" where
  "verified_ok cfg G db \<longleftrightarrow> distinct (map intent_id (intents db)) \<and>
     (\<forall>i \<in> set (intents db). status i = StatusVerified \<longrightarrow>
        (\<exists>t. verification_expires_at i = Some (addMinutes t (verificationExpiresInMinutes cfg)) \<and>
             (t, intent_user i, purpose i, binding i) \<in> G))"

lemma verified_ok_mono: "verified_ok cfg G db \<Longrightarrow> G \<subseteq> G' \<Longrightarrow> verified_ok cfg G' db"
  by (fastforce simp: verified_ok_def)

lemma verified_ok_cong: "intents db' = intents db \<Longrightarrow> verified_ok cfg G db' = verified_ok cfg G db"
  by (simp add: verified_ok_def)

lemma verified_ok_filter:
  assumes ok: "verified_ok cfg G db" and rows: "intents db' = filter P (intents db)"
  shows "verified_ok cfg G db'"
  using ok unfolding verified_ok_def rows by (auto simp: distinct_map_filter)

text \<open>An update of one row keeps the invariant when the updated row obeys it.\<close>

lemma verified_ok_update:
  assumes ok: "verified_ok cfg G db" and i: "findIntent iid db = Some i"
    and key: "\<And>r. intent_id (f r) = intent_id r"
    and new: "status (f i) = StatusVerified \<Longrightarrow>
      \<exists>t. verification_expires_at (f i) = Some (addMinutes t (verificationExpiresInMinutes cfg)) \<and>
          (t, intent_user (f i), purpose (f i), binding (f i)) \<in> G"
    and rows: "intents db' = update_row intent_id iid f (intents db)"
  shows "verified_ok cfg G db'"
proof -
  have dist: "distinct (map intent_id (intents db))" using ok by (simp add: verified_ok_def)
  have only: "r = i" if "r \<in> set (intents db)" "intent_id r = iid" for r
    using find_row_distinct [OF dist that(1)] that(2) i by (simp add: findIntent_def)
  have "set (intents db') \<subseteq> insert (f i) (set (intents db))"
    unfolding rows set_update_row using only by auto
  then show ?thesis
    using ok new dist key by (fastforce simp: verified_ok_def rows)
qed

lemma intents_driver_challenge [mfa_frame]:
  "intents (snd (driver_challenge env cfg now fresh d i u db)) = intents db"
  by (simp add: driver_challenge_def email_challenge_def create_row_def Let_def split: option.split)

lemma intents_challenge:
  "intents (snd (snd (challenge env cfg now fresh i driver db))) = intents db \<or>
   intents (snd (snd (challenge env cfg now fresh i driver db))) =
     update_row intent_id (intent_id i) (\<lambda>r. r\<lparr>intent_driver := Some driver\<rparr>) (intents db)"
proof (cases "use_driver cfg driver")
  case (Inr d)
  show ?thesis
  proof (cases "env_user env (intent_user i)")
    case (Some u)
    show ?thesis
      by (cases "intent_driver i = Some driver") (simp_all add: challenge_def Inr Some case_prod_unfold Let_def mfa_frame)
  qed (simp add: challenge_def Inr)
qed (simp add: challenge_def)

lemma submit_intents:
  assumes i: "findIntent iid db = Some i"
  obtains "intents (snd (submit env cfg iid (now, code) db)) = intents db"
    | s n where "intents (snd (submit env cfg iid (now, code) db)) =
        update_row intent_id iid (\<lambda>r. r\<lparr>intent_attempts := n, status := s\<rparr>) (intents db)" "s \<noteq> StatusVerified"
    | "intents (snd (submit env cfg iid (now, code) db)) =
        update_row intent_id iid (\<lambda>r. r\<lparr>status := StatusVerified, verified_at := Some now,
          verification_expires_at := Some (addMinutes now (verificationExpiresInMinutes cfg))\<rparr>) (intents db)"
      "grant_of env cfg (SubmitCode now iid code) db = Some (now, intent_user i, purpose i, binding i)"
proof -
  obtain p db1 where j: "judge env cfg now i code db = (p, db1)" by force
  have same: "intents db1 = intents db" using intents_judge [of env cfg now i code db] j by simp
  have iid: "intent_id i = iid" using i by (simp add: findIntent_def find_row_key)
  show thesis
  proof (cases p)
    case (Returned r)
    then show ?thesis using that(1) i j same by (simp add: submit_def verify_def)
  next
    case (Judged d r)
    note judged = judge_Judged [OF j [unfolded Judged]]
    show ?thesis
    proof (cases r)
      case InvalidCode
      then show ?thesis
        using that(2) i j Judged same judged
        by (simp add: submit_def verify_def settle_def countFailure_def Let_def iid intents_fireFailure)
    next
      case VerifiedResult
      then show ?thesis
        using that(3) i j Judged same by (simp add: submit_def verify_def settle_def markVerified_def Let_def iid)
    qed (use that(1) i j Judged same in \<open>simp_all add: submit_def verify_def settle_def\<close>)
  qed
qed

lemma apply_op_verified_ok:
  assumes ok: "verified_ok cfg G db"
  shows "verified_ok cfg (G \<union> set_option (grant_of env cfg op db)) (apply_op env cfg op db)"
proof (cases op)
  case (CreateIntent now uuid userId purp bind)
  have "verified_ok cfg G (apply_op env cfg op db)"
    using ok by (auto simp: CreateIntent createIntent_def create_row_def verified_ok_def Let_def split: option.split)
  then show ?thesis by (rule verified_ok_mono) simp
next
  case (ChallengeIntent now fresh iid driver)
  have "verified_ok cfg G (apply_op env cfg op db)"
  proof (cases "findIntent iid db")
    case None
    then show ?thesis using ok by (simp add: ChallengeIntent)
  next
    case (Some i)
    have iid: "intent_id i = iid" using Some by (simp add: findIntent_def find_row_key)
    consider "intents (apply_op env cfg op db) = intents db"
      | "intents (apply_op env cfg op db) = update_row intent_id iid (\<lambda>r. r\<lparr>intent_driver := Some driver\<rparr>) (intents db)"
      using intents_challenge [of env cfg now fresh i driver db] Some iid by (auto simp: ChallengeIntent)
    then show ?thesis
    proof cases
      case 1
      then show ?thesis using ok verified_ok_cong by blast
    next
      case 2
      show ?thesis
        by (rule verified_ok_update [OF ok Some _ _ 2])
          (use ok find_row_set [of intent_id iid "intents db" i] Some in \<open>auto simp: verified_ok_def findIntent_def\<close>)
    qed
  qed
  then show ?thesis by (rule verified_ok_mono) simp
next
  case (SubmitCode now iid code)
  show ?thesis
  proof (cases "findIntent iid db")
    case None
    then show ?thesis using ok by (simp add: SubmitCode submit_def)
  next
    case (Some i)
    let ?G = "G \<union> set_option (grant_of env cfg op db)"
    have okG: "verified_ok cfg ?G db" using ok by (rule verified_ok_mono) simp
    show ?thesis
    proof (rule submit_intents [OF Some, of env cfg now code])
      assume "intents (snd (submit env cfg iid (now, code) db)) = intents db"
      then have "intents (apply_op env cfg op db) = intents db" by (simp add: SubmitCode)
      then show ?thesis using okG verified_ok_cong by blast
    next
      fix s n assume rows: "intents (snd (submit env cfg iid (now, code) db)) =
        update_row intent_id iid (\<lambda>r. r\<lparr>intent_attempts := n, status := s\<rparr>) (intents db)" "s \<noteq> StatusVerified"
      show ?thesis unfolding SubmitCode apply_op.simps
        by (rule verified_ok_update [OF okG [unfolded SubmitCode] Some _ _ rows(1)])
          (use rows(2) in simp_all)
    next
      assume rows: "intents (snd (submit env cfg iid (now, code) db)) =
        update_row intent_id iid (\<lambda>r. r\<lparr>status := StatusVerified, verified_at := Some now,
          verification_expires_at := Some (addMinutes now (verificationExpiresInMinutes cfg))\<rparr>) (intents db)"
        "grant_of env cfg (SubmitCode now iid code) db = Some (now, intent_user i, purpose i, binding i)"
      show ?thesis unfolding SubmitCode apply_op.simps
        by (rule verified_ok_update [OF okG [unfolded SubmitCode] Some _ _ rows(1)])
          (auto simp: rows(2) simp del: grant_of.simps)
    qed
  qed
next
  case (CollectGarbage now)
  have "intents (apply_op env cfg op db) =
      filter (\<lambda>i. \<not> (intent_expires_at i \<le> now \<and> verified_at i = None) \<and>
        \<not> (case verification_expires_at i of None \<Rightarrow> False | Some t \<Rightarrow> t \<le> now)) (intents db)"
    by (simp add: CollectGarbage mfa_gc_def gc_def Let_def case_prod_unfold conj_commute)
  then show ?thesis using verified_ok_filter [OF ok] by (simp add: CollectGarbage)
next
  case (OtherTables ms cs rs)
  then show ?thesis using ok by (simp add: verified_ok_def)
qed

lemma history_verified_ok:
  "verified_ok cfg G db \<Longrightarrow>
    verified_ok cfg (G \<union> set (consumed (apply_op env cfg) (grant_of env cfg) db ops)) (fold (apply_op env cfg) ops db)"
proof (induction ops arbitrary: G db)
  case (Cons op ops)
  have "set (case grant_of env cfg op db of None \<Rightarrow> [] | Some c \<Rightarrow> [c]) = set_option (grant_of env cfg op db)"
    by (cases "grant_of env cfg op db") simp_all
  then show ?case
    using Cons.IH [OF apply_op_verified_ok [OF Cons.prems]] by (simp add: Un_assoc)
qed simp

section \<open>Properties\<close>

text \<open>
  C17. Submitted one after another, an intent takes a bounded number of wrong codes: from a pending
  row with \<open>a\<close> attempts counted at most \<open>maxAttempts - a\<close> submissions (and one when that is not
  positive) are answered \<open>invalid-code\<close>, from a locked or verified row none, whatever the codes and
  the times.
\<close>

theorem wrong_codes_are_bounded:
  assumes "findIntent iid db = Some i"
  shows "length (filter (\<lambda>r. r = Some (Inr InvalidCode)) (answers env cfg iid reqs db)) \<le>
    (if status i = StatusPending then nat (max 1 (maxAttempts cfg - intent_attempts i)) else 0)"
  using wrong_within_budget [OF assms, of env cfg reqs] by (simp add: wrong_def budget_def)

definition demo_cfg :: MfaConfig where
  "demo_cfg = \<lparr>drivers = [''totp'', ''email'', ''recovery''], cfg_intentExpiresInMinutes = None,
     cfg_verificationExpiresInMinutes = None, cfg_maxAttempts = Some 2, cfg_whenUnenrolled = None,
     cfg_bindToSession = None, totp_config = demo_totp, email_config = demo_email,
     recovery_config = \<lparr>recovery_count = None\<rparr>\<rparr>"

lemma demo_find: "findIntent ''i'' demo_db = Some demo_intent"
  by (simp add: findIntent_def find_row_def demo_db_def demo_intent_def)

theorem wrong_codes_are_bounded_witness:
  "answers demo_env demo_cfg ''i'' [(0, ''9''), (1, ''8''), (2, ''1'')] demo_db =
     [Some (Inr InvalidCode), Some (Inr InvalidCode), Some (Inr (Unavailable ''This verification is locked.''))] \<and>
   length (filter (\<lambda>r. r = Some (Inr InvalidCode))
     (answers demo_env demo_cfg ''i'' [(0, ''9''), (1, ''8''), (2, ''1'')] demo_db)) \<le> 2"
proof -
  have "answers demo_env demo_cfg ''i'' [(0, ''9''), (1, ''8''), (2, ''1'')] demo_db =
     [Some (Inr InvalidCode), Some (Inr InvalidCode), Some (Inr (Unavailable ''This verification is locked.''))]"
    by code_simp
  moreover have "status demo_intent = StatusPending" "nat (max 1 (maxAttempts demo_cfg - intent_attempts demo_intent)) = 2"
    by code_simp+
  ultimately show ?thesis
    using wrong_codes_are_bounded [OF demo_find, of demo_env demo_cfg "[(0, ''9''), (1, ''8''), (2, ''1'')]"] by simp
qed



text \<open>
  Wrong codes that are judged at the same time are counted once.  However many requests hold a
  copy of the row with \<open>a\<close> attempts and are answered \<open>invalid-code\<close>, their writes leave \<open>a + 1\<close>
  attempts and the status pending, also when other requests have locked or verified the intent since
  the copies were read.
\<close>

lemma stale_failures_count_once:
  assumes "status i = StatusPending" "intent_attempts i + 1 < maxAttempts cfg"
    and "findIntent (intent_id i) db \<noteq> None" "flights \<noteq> []"
  shows "\<exists>k. findIntent (intent_id i)
      (fold (\<lambda>(now, driver) db. snd (settle cfg now i driver InvalidCode db)) flights db) = Some k \<and>
    intent_attempts k = intent_attempts i + 1 \<and> status k = StatusPending"
proof -
  define hit where "hit = (\<lambda>(now, driver) db. snd (settle cfg now i driver InvalidCode db))"
  have hit: "findIntent (intent_id i) (hit f db) =
      map_option (\<lambda>r. r\<lparr>intent_attempts := intent_attempts i + 1, status := StatusPending\<rparr>) (findIntent (intent_id i) db)" for f db
    using assms(1,2)
    by (simp add: hit_def settle_def countFailure_def Let_def findIntent_cong [OF intents_fireFailure] findIntent_update
        split: prod.split)
  have "findIntent (intent_id i) (fold hit fs db) \<noteq> None" if "findIntent (intent_id i) db \<noteq> None" for fs db
    using that by (induction fs arbitrary: db) (simp_all add: hit)
  moreover obtain fs f where flights: "flights = fs @ [f]" using assms(4) by (cases flights rule: rev_cases) auto
  ultimately obtain k where "findIntent (intent_id i) (fold hit fs db) = Some k" using assms(3) by blast
  then show ?thesis unfolding hit_def [symmetric] flights by (simp add: hit)
qed


end
