(* ===== verification/TrustedProxies.thy ===== *)
theory TrustedProxies
  imports JsPrelude
begin

unbundle bit_operations_syntax

text \<open>
  The trust boundary of \<open>framework/http/src/trusted-proxies.ts\<close>: IPv4 blocks on 32-bit words, the
  right-to-left walk of the forwarding chain, the forwarded origin, and the host allow-list, with
  the part of \<open>request.ts\<close> they read and write.  The socket is a field of the request; the WHATWG
  URL parser behind \<open>hostsFromUrl\<close> is a parameter.
\<close>

section \<open>Addresses\<close>

text \<open>
  The body of the loop over the four parts; a number above 255 or a part that is not all digits
  ends it.
\<close>

fun quad_loop :: "string list \<Rightarrow> 32 word \<Rightarrow> 32 word option" where
  "quad_loop [] result = Some result"
| "quad_loop (part # parts) result =
     (if \<not> all_digits part then None
      else if 255 < number_of_digits part then None
      else quad_loop parts (push_bit 8 result OR of_nat (number_of_digits part)))"

definition ipv4ToInt :: "string \<Rightarrow> 32 word option" where
  "ipv4ToInt ip =
     (let parts = split_on CHR ''.'' ip in if length parts \<noteq> 4 then None else quad_loop parts 0)"

definition normalizeIp :: "string \<Rightarrow> string" where
  "normalizeIp ip =
     (let rest = drop 7 ip; parts = split_on CHR ''.'' rest in
      if toLowerCase (take 7 ip) = ''::ffff:'' \<and> length parts = 4 \<and> list_all all_digits parts then rest else ip)"

text \<open>
  \<open>Number(s)\<close> as far as \<open>Number.isInteger\<close> and a comparison with 0 and 32 see it: the integer
  \<open>s\<close> denotes, if it does.  Decimal notation has an optional sign, fraction and exponent; the
  other radices have a prefix and no sign.  The empty string is zero.  Decimal notation is exact
  here, which agrees with the double for at most fifteen digits and no underflow.
\<close>

definition digits_prefix :: "string \<Rightarrow> string \<times> string" where
  "digits_prefix s = (takeWhile is_digit s, dropWhile is_digit s)"

definition split_sign :: "string \<Rightarrow> int \<times> string" where
  "split_sign s =
     (case s of [] \<Rightarrow> (1, [])
      | c # cs \<Rightarrow> if c = CHR ''-'' then (- 1, cs) else if c = CHR ''+'' then (1, cs) else (1, s))"

definition exponent :: "string \<Rightarrow> int option" where
  "exponent s =
     (case s of [] \<Rightarrow> Some 0
      | e # cs \<Rightarrow>
          (if e = CHR ''e'' \<or> e = CHR ''E'' then
             let (sign, ds) = split_sign cs in
             if all_digits ds then Some (sign * int (number_of_digits ds)) else None
           else None))"

definition decimal :: "string \<Rightarrow> int option" where
  "decimal s =
     (let (sign, u) = split_sign s;
          (whole, rest) = digits_prefix u;
          (frac, rest') = (case rest of [] \<Rightarrow> ([], [])
                           | c # cs \<Rightarrow> if c = CHR ''.'' then digits_prefix cs else ([], rest)) in
      if whole = [] \<and> frac = [] then None
      else case exponent rest' of
        None \<Rightarrow> None
      | Some e \<Rightarrow>
          (let m = sign * int (number_of_digits (whole @ frac)); e' = e - int (length frac) in
           if 0 \<le> e' then Some (m * 10 ^ nat e')
           else if (10 ^ nat (- e')) dvd m then Some (m div 10 ^ nat (- e')) else None))"

definition radix_digit :: "char \<Rightarrow> nat option" where
  "radix_digit c =
     (let n = of_char c :: nat in
      if 48 \<le> n \<and> n \<le> 57 then Some (n - 48)
      else if 97 \<le> n \<and> n \<le> 102 then Some (n - 87)
      else if 65 \<le> n \<and> n \<le> 70 then Some (n - 55) else None)"

definition radix_number :: "nat \<Rightarrow> string \<Rightarrow> int option" where
  "radix_number r ds =
     (if ds \<noteq> [] \<and> list_all (\<lambda>c. case radix_digit c of None \<Rightarrow> False | Some d \<Rightarrow> d < r) ds
      then Some (int (foldl (\<lambda>n c. r * n + the (radix_digit c)) 0 ds)) else None)"

definition Number_integer :: "string \<Rightarrow> int option" where
  "Number_integer str =
     (let s = trim str; p = toLowerCase (take 2 s) in
      if s = [] then Some 0
      else if p = ''0x'' then radix_number 16 (drop 2 s)
      else if p = ''0o'' then radix_number 8 (drop 2 s)
      else if p = ''0b'' then radix_number 2 (drop 2 s)
      else decimal s)"

definition ipMatches :: "string \<Rightarrow> string \<Rightarrow> bool" where
  "ipMatches ip pattern =
     (if pattern = ''*'' then True
      else
        let normalizedIp = normalizeIp ip in
        if normalizedIp = pattern then True
        else case index_of CHR ''/'' pattern of
          None \<Rightarrow> False
        | Some slash \<Rightarrow>
            (case Number_integer (drop (slash + 1) pattern) of
               None \<Rightarrow> False
             | Some bits \<Rightarrow>
                 (if bits < 0 \<or> 32 < bits then False
                  else case (ipv4ToInt normalizedIp, ipv4ToInt (take slash pattern)) of
                    (Some ipInt, Some baseInt) \<Rightarrow>
                      (if bits = 0 then True
                       else let mask = push_bit (32 - nat bits) (0xFFFFFFFF :: 32 word) in
                         ipInt AND mask = baseInt AND mask)
                  | _ \<Rightarrow> False)))"

section \<open>The request\<close>

record ProxyRequest =
  socket_peer :: "string option"
  raw_peer :: "string option"
  headers :: "string \<Rightarrow> string option"
  resolved_ip :: "string option"
  scheme_name :: string
  host_name :: string

definition peerAddress :: "ProxyRequest \<Rightarrow> string option" where
  "peerAddress request = (case socket_peer request of Some p \<Rightarrow> Some p | None \<Rightarrow> raw_peer request)"

definition request_ip :: "ProxyRequest \<Rightarrow> string option" where
  "request_ip request = (case resolved_ip request of Some a \<Rightarrow> Some a | None \<Rightarrow> socket_peer request)"

definition setForwardedOrigin :: "string option \<Rightarrow> string option \<Rightarrow> ProxyRequest \<Rightarrow> ProxyRequest" where
  "setForwardedOrigin sch host request =
     (let r = (case sch of Some s \<Rightarrow> request\<lparr>scheme_name := s\<rparr> | None \<Rightarrow> request) in
      case host of Some h \<Rightarrow> r\<lparr>host_name := h\<rparr> | None \<Rightarrow> r)"

section \<open>The chain\<close>

text \<open>\<open>header.split(",").map(trim).filter(Boolean)\<close>; a missing or empty header has no hops.\<close>

definition hops :: "string \<Rightarrow> string list" where
  "hops header = filter (\<lambda>p. p \<noteq> []) (map trim (split_on CHR '','' header))"

definition forwardedChain :: "string option \<Rightarrow> string list" where
  "forwardedChain header = (case header of None \<Rightarrow> [] | Some h \<Rightarrow> if h = [] then [] else hops h)"

definition lastHop :: "string option \<Rightarrow> string option" where
  "lastHop header =
     (case header of None \<Rightarrow> None
      | Some h \<Rightarrow> if h = [] then None else if hops h = [] then None else Some (last (hops h)))"

definition isTrusted :: "string list \<Rightarrow> string \<Rightarrow> bool" where
  "isTrusted proxies ip = list_ex (ipMatches ip) proxies"

text \<open>The loop from the last index down, on the reversed chain.\<close>

fun resolve_loop :: "string list \<Rightarrow> string \<Rightarrow> string list \<Rightarrow> string" where
  "resolve_loop [] peer proxies = peer"
| "resolve_loop (hop # hs) peer proxies = (if \<not> isTrusted proxies hop then hop else resolve_loop hs peer proxies)"

definition resolveForwardedClient :: "string list \<Rightarrow> string \<Rightarrow> string list \<Rightarrow> string" where
  "resolveForwardedClient chain peer proxies = resolve_loop (rev chain) peer proxies"

section \<open>Hosts\<close>

text \<open>\<open>toLowerCase\<close> on the code units below 256.\<close>

definition lower_latin1 :: "string \<Rightarrow> string" where
  "lower_latin1 s =
     map (\<lambda>c. let n = of_char c :: nat in if 192 \<le> n \<and> n \<le> 222 \<and> n \<noteq> 215 then char_of (n + 32) else to_lower c) s"

definition port_suffix :: "string \<Rightarrow> bool" where
  "port_suffix s =
     (case s of [] \<Rightarrow> True | c # ds \<Rightarrow> c = CHR '':'' \<and> all_digits ds \<and> length ds \<le> 5)"

definition is_lower :: "char \<Rightarrow> bool" where
  "is_lower c = (97 \<le> (of_char c :: nat) \<and> (of_char c :: nat) \<le> 122)"

definition ipv6_char :: "char \<Rightarrow> bool" where
  "ipv6_char c = (is_digit c \<or> (97 \<le> (of_char c :: nat) \<and> (of_char c :: nat) \<le> 102) \<or> c = CHR '':'' \<or> c = CHR ''.'')"

definition host_char :: "char \<Rightarrow> bool" where
  "host_char c = (is_lower c \<or> is_digit c \<or> c = CHR ''.'' \<or> c = CHR ''-'')"

definition ipv6_host :: "string \<Rightarrow> bool" where
  "ipv6_host s =
     (case s of [] \<Rightarrow> False
      | c # cs \<Rightarrow> c = CHR ''['' \<and> takeWhile ipv6_char cs \<noteq> [] \<and>
          (case dropWhile ipv6_char cs of [] \<Rightarrow> False | d # ds \<Rightarrow> d = CHR '']'' \<and> port_suffix ds))"

definition plain_host :: "string \<Rightarrow> bool" where
  "plain_host s = (takeWhile host_char s \<noteq> [] \<and> port_suffix (dropWhile host_char s))"

definition sanitizeHost :: "string \<Rightarrow> string option" where
  "sanitizeHost host =
     (let trimmed = lower_latin1 (trim host) in
      if trimmed = '''' then None else if ipv6_host trimmed \<or> plain_host trimmed then Some trimmed else None)"

definition hostWithoutPort :: "string \<Rightarrow> string" where
  "hostWithoutPort host =
     (let trimmed = lower_latin1 (trim host) in
      if starts_with trimmed ''['' then
        (case index_of CHR '']'' trimmed of None \<Rightarrow> trimmed | Some close \<Rightarrow> take (close + 1) trimmed)
      else (case index_of CHR '':'' trimmed of None \<Rightarrow> trimmed | Some colon \<Rightarrow> take colon trimmed))"

definition hostMatches :: "string \<Rightarrow> string \<Rightarrow> bool" where
  "hostMatches host pattern =
     (let normalized = lower_latin1 pattern in
      if starts_with normalized ''*.'' then ends_with host (drop 1 normalized) \<or> host = drop 2 normalized
      else host = normalized)"

definition hostsFromUrl :: "(string \<Rightarrow> string option) \<Rightarrow> string option \<Rightarrow> string list" where
  "hostsFromUrl parse url =
     (case url of None \<Rightarrow> []
      | Some u \<Rightarrow> if u = [] then [] else (case parse u of None \<Rightarrow> [] | Some h \<Rightarrow> [lower_latin1 h]))"

section \<open>The middleware\<close>

definition applyForwardedOrigin :: "ProxyRequest \<Rightarrow> ProxyRequest" where
  "applyForwardedOrigin request =
     (let sch = map_option lower_latin1 (lastHop (headers request ''x-forwarded-proto''));
          forwardedHost = lastHop (headers request ''x-forwarded-host'');
          forwardedPort = lastHop (headers request ''x-forwarded-port'');
          origin_scheme = (if sch = Some ''https'' \<or> sch = Some ''http'' then sch else None);
          origin_host =
            (case forwardedHost of None \<Rightarrow> None
             | Some fh \<Rightarrow>
                 (case sanitizeHost fh of None \<Rightarrow> None
                  | Some host \<Rightarrow>
                      (case forwardedPort of
                         None \<Rightarrow> Some host
                       | Some port \<Rightarrow> if CHR '':'' \<in> set host then Some host else Some (host @ '':'' @ port)))) in
      if origin_scheme \<noteq> None \<or> origin_host \<noteq> None then setForwardedOrigin origin_scheme origin_host request
      else request)"

text \<open>What \<open>trustProxies(proxies, options)\<close> hands to the rest of the pipe.\<close>

definition trustProxies :: "string list \<Rightarrow> bool option \<Rightarrow> ProxyRequest \<Rightarrow> ProxyRequest" where
  "trustProxies proxies forwardedOrigin request =
     (case peerAddress request of
        None \<Rightarrow> request\<lparr>resolved_ip := None\<rparr>
      | Some peer \<Rightarrow>
          (if \<not> isTrusted proxies peer then request\<lparr>resolved_ip := Some peer\<rparr>
           else
             let request' = request\<lparr>resolved_ip :=
               Some (resolveForwardedClient (forwardedChain (headers request ''x-forwarded-for'')) peer proxies)\<rparr> in
             if nullish forwardedOrigin True then applyForwardedOrigin request' else request'))"

datatype http_error = Forbidden string

definition trustHosts :: "string list \<Rightarrow> ProxyRequest \<Rightarrow> http_error + ProxyRequest" where
  "trustHosts patterns request =
     (let host = hostWithoutPort (host_name request) in
      if host = [] \<or> \<not> list_ex (hostMatches host) patterns then Inl (Forbidden ''Untrusted host.'') else Inr request)"

section \<open>Lemmas on strings\<close>

lemma split_on_append_sep: "split_on c (u @ c # v) = split_on c u @ split_on c v"
  by (induction u) (auto split: list.splits)

lemma hops_append: "hops (u @ CHR '','' # v) = hops u @ hops v"
  by (simp add: hops_def split_on_append_sep)

lemma digit_not:
  "\<not> is_digit CHR ''.''" "\<not> is_digit CHR ''/''" "\<not> is_digit CHR '':''" "\<not> is_digit CHR ''*''" "\<not> is_digit CHR ''-''"
  "\<not> is_digit CHR ''+''" "is_digit c \<Longrightarrow> \<not> is_ws c"
  "is_digit c \<Longrightarrow> to_lower c = c"
  by (auto simp: is_digit_def is_ws_def to_lower_def)

lemma trim_digits: "list_all is_digit s \<Longrightarrow> trim s = s"
proof -
  assume d: "list_all is_digit s"
  have ws: "dropWhile is_ws t = t" if "list_all is_digit t" for t
    using that digit_not(7) by (cases t) auto
  show ?thesis using d by (simp add: trim_def ws list_all_rev)
qed

lemma Number_digits:
  assumes "all_digits s"
  shows "Number_integer s = Some (int (number_of_digits s))"
proof -
  have s: "s \<noteq> []" "list_all is_digit s" using assms by (simp_all add: all_digits_def)
  then obtain c cs where c: "s = c # cs" "is_digit c" by (cases s) auto
  have "\<forall>d \<in> set (toLowerCase (take 2 s)). is_digit d"
    using s(2) digit_not(8) by (auto simp: list_all_iff dest!: in_set_takeD)
  then have "toLowerCase (take 2 s) \<notin> {''0x'', ''0o'', ''0b''}"
    by (auto simp: is_digit_def)
  moreover have "split_sign s = (1, s)" using c digit_not(5,6) by (auto simp: split_sign_def)
  moreover have "digits_prefix s = (s, [])"
    using s(2) by (simp add: digits_prefix_def list_all_iff)
  ultimately show ?thesis
    using s by (simp add: Number_integer_def trim_digits Let_def decimal_def exponent_def)
qed

section \<open>Lemmas on addresses\<close>

definition quad :: "nat list \<Rightarrow> string" where
  "quad ns = join_with ''.'' (map string_of_nat ns)"

definition address :: "nat list \<Rightarrow> nat" where
  "address ns = foldl (\<lambda>m n. 256 * m + n) 0 ns"

lemma push_octet:
  assumes "n < 256"
  shows "push_bit 8 (of_nat m) OR of_nat n = (of_nat (256 * m + n) :: 32 word)"
proof -
  have "n < 2 ^ 8" using assms by simp
  then have "take_bit 8 n = n" by (rule take_bit_nat_eq_self)
  then have high: "\<not> bit n k" if "8 \<le> k" for k using that by (metis bit_take_bit_iff not_less)
  have "push_bit 8 m + n = push_bit 8 m OR n"
    by (rule disjunctive_add) (use high in \<open>auto simp: bit_push_bit_iff not_le\<close>)
  then have "of_nat (push_bit 8 m OR n) = (of_nat (256 * m + n) :: 32 word)"
    by (simp add: push_bit_eq_mult mult.commute)
  then show ?thesis by (simp only: of_nat_or_eq push_bit_of_nat)
qed

lemma quad_loop_numbers:
  "\<forall>n \<in> set ns. n < 256 \<Longrightarrow>
    quad_loop (map string_of_nat ns) (of_nat m) = Some (of_nat (foldl (\<lambda>m n. 256 * m + n) m ns))"
proof (induction ns arbitrary: m)
  case (Cons n ns)
  from Cons.IH [of "256 * m + n"] Cons.prems show ?case by (simp add: push_octet del: of_nat_add of_nat_mult)
qed simp

lemma ipv4ToInt_quad:
  assumes "length ns = 4" "\<forall>n \<in> set ns. n < 256"
  shows "ipv4ToInt (quad ns) = Some (of_nat (address ns))"
proof -
  have "split_on CHR ''.'' (quad ns) = map string_of_nat ns"
    unfolding quad_def using assms(1) digit_not(1) string_of_nat_digits
    by (intro split_on_join) auto
  then show ?thesis
    using assms quad_loop_numbers [OF assms(2), of 0] by (simp add: ipv4ToInt_def address_def)
qed

lemma foldl_256: "\<forall>n \<in> set ns. n < 256 \<Longrightarrow> foldl (\<lambda>m n. 256 * m + n) (m :: nat) ns < 256 ^ length ns * Suc m"
proof (induction ns arbitrary: m)
  case (Cons n ns)
  then have "foldl (\<lambda>m n. 256 * m + n) (256 * m + n) ns < 256 ^ length ns * Suc (256 * m + n)" by simp
  also have "\<dots> \<le> 256 ^ length ns * (256 * Suc m)"
    by (rule mult_le_mono2) (use Cons.prems in simp)
  also have "\<dots> = 256 ^ length (n # ns) * Suc m" by (simp add: algebra_simps)
  finally show ?case by simp
qed simp

lemma address_bound: "length ns = 4 \<Longrightarrow> \<forall>n \<in> set ns. n < 256 \<Longrightarrow> address ns < 2 ^ 32"
  using foldl_256 [of ns 0] by (simp add: address_def)

lemma mask_eq_iff_prefix:
  fixes x y :: "32 word"
  assumes "k \<le> 32"
  shows "x AND push_bit k 0xFFFFFFFF = y AND push_bit k 0xFFFFFFFF \<longleftrightarrow> unat x div 2 ^ k = unat y div 2 ^ k"
proof -
  have ones: "(0xFFFFFFFF :: 32 word) = mask 32" by (simp add: mask_eq_exp_minus_1)
  have "x AND push_bit k 0xFFFFFFFF = y AND push_bit k 0xFFFFFFFF \<longleftrightarrow> (\<forall>n. k \<le> n \<and> n < 32 \<longrightarrow> bit x n = bit y n)"
    unfolding ones by (auto simp: bit_eq_iff bit_and_iff bit_push_bit_iff bit_mask_iff)
  also have "\<dots> \<longleftrightarrow> drop_bit k (unat x) = drop_bit k (unat y)"
  proof -
    have hi: "\<not> bit w n" if "32 \<le> n" for w :: "32 word" and n using that bit_imp_le_length [of w n] by auto
    show ?thesis
      by (auto simp: bit_eq_iff [of "drop_bit k (unat x)"] bit_drop_bit_eq bit_unsigned_iff)
        (metis hi le_add1 le_add_diff_inverse not_le)+
  qed
  finally show ?thesis by (simp add: drop_bit_eq_div)
qed

lemma quad_chars: "\<forall>n \<in> set ns. n < 256 \<Longrightarrow> c \<in> set (quad ns) \<Longrightarrow> is_digit c \<or> c = CHR ''.''"
proof -
  have "c \<in> set (join_with ''.'' ws) \<Longrightarrow> (\<exists>w \<in> set ws. c \<in> set w) \<or> c = CHR ''.''" for ws
    by (induction "''.''" ws rule: join_with.induct) auto
  then show "c \<in> set (quad ns) \<Longrightarrow> ?thesis" using string_of_nat_digits by (fastforce simp: quad_def)
qed

lemma normalize_quad:
  assumes "\<forall>n \<in> set ns. n < 256"
  shows "normalizeIp (quad ns) = quad ns"
proof -
  have "CHR '':'' \<notin> set (toLowerCase (take 7 (quad ns)))"
    using quad_chars [OF assms] digit_not(3,8) by (force simp: to_lower_def dest!: in_set_takeD)
  then have "toLowerCase (take 7 (quad ns)) \<noteq> ''::ffff:''" by auto
  then show ?thesis by (simp add: normalizeIp_def Let_def)
qed

text \<open>The walk, as the last hop of the chain that no pattern matches.\<close>

lemma resolve_last_untrusted:
  "resolveForwardedClient chain peer proxies =
    (if filter (\<lambda>h. \<not> isTrusted proxies h) chain = [] then peer
     else last (filter (\<lambda>h. \<not> isTrusted proxies h) chain))"
proof -
  have "resolve_loop hs peer proxies =
      (if filter (\<lambda>h. \<not> isTrusted proxies h) hs = [] then peer
       else hd (filter (\<lambda>h. \<not> isTrusted proxies h) hs))" for hs
    by (induction hs) auto
  moreover have "filter (\<lambda>h. \<not> isTrusted proxies h) (rev chain) = rev (filter (\<lambda>h. \<not> isTrusted proxies h) chain)"
    by (simp add: rev_filter)
  ultimately show ?thesis
    by (simp add: resolveForwardedClient_def hd_rev)
qed

lemma origin_keeps_ip: "resolved_ip (applyForwardedOrigin request) = resolved_ip request"
  by (simp add: applyForwardedOrigin_def setForwardedOrigin_def Let_def split: option.split)

lemma origin_keeps_peer: "socket_peer (applyForwardedOrigin request) = socket_peer request"
  by (simp add: applyForwardedOrigin_def setForwardedOrigin_def Let_def split: option.split)

lemma trusted_ip:
  assumes "peerAddress request = Some peer" "isTrusted proxies peer"
  shows "request_ip (trustProxies proxies opt request) =
    Some (resolveForwardedClient (forwardedChain (headers request ''x-forwarded-for'')) peer proxies)"
  using assms by (simp add: trustProxies_def request_ip_def Let_def origin_keeps_ip origin_keeps_peer)

text \<open>A host name survives the removal of whatever follows its first colon.\<close>

lemma trim_colon:
  assumes "host \<noteq> []" "\<forall>c \<in> set host. \<not> is_ws c"
  shows "\<exists>port'. trim (host @ CHR '':'' # port) = host @ CHR '':'' # port'"
proof -
  have stop: "dropWhile is_ws (xs @ CHR '':'' # ys) = dropWhile is_ws xs @ CHR '':'' # ys" for xs ys
    by (induction xs) (simp_all add: is_ws_def)
  have "dropWhile is_ws (host @ CHR '':'' # port) = host @ CHR '':'' # port"
    using assms by (cases host) auto
  then have "trim (host @ CHR '':'' # port) = host @ CHR '':'' # rev (dropWhile is_ws (rev port))"
    by (simp add: trim_def stop)
  then show ?thesis by blast
qed

lemma hostWithoutPort_plain:
  assumes "plain_host host" "CHR '':'' \<notin> set host"
  shows "hostWithoutPort (host @ '':'' @ port) = host"
proof -
  have "\<forall>c \<in> set host. host_char c"
  proof (cases "dropWhile host_char host")
    case Nil
    then show ?thesis by (simp add: dropWhile_eq_Nil_conv)
  next
    case (Cons c cs)
    then have "c = CHR '':''" using assms(1) by (simp add: plain_host_def port_suffix_def)
    then show ?thesis using Cons assms(2) by (metis list.set_intros(1) set_dropWhileD)
  qed
  then have chars: "\<forall>c \<in> set host. \<not> is_ws c \<and> c \<noteq> CHR ''['' \<and> lower_latin1 [c] = [c]"
    by (auto simp: host_char_def is_digit_def is_lower_def is_ws_def lower_latin1_def to_lower_def Let_def)
  have ne: "host \<noteq> []" using assms(1) by (auto simp: plain_host_def)
  obtain port' where port': "trim (host @ CHR '':'' # port) = host @ CHR '':'' # port'"
    using trim_colon [OF ne] chars by blast
  have "lower_latin1 host = host"
    using chars by (induction host) (auto simp: lower_latin1_def Let_def)
  then have low: "lower_latin1 (host @ CHR '':'' # port') = host @ CHR '':'' # lower_latin1 port'"
    by (simp add: lower_latin1_def to_lower_def)
  have "\<not> starts_with (host @ CHR '':'' # lower_latin1 port') ''[''"
    using ne chars by (cases host) (auto simp: starts_with_def)
  then show ?thesis
    using index_of_append [OF assms(2)] by (simp add: hostWithoutPort_def Let_def port' low)
qed

text \<open>A pattern whose prefix length is missing is a block of length zero: every IPv4 address.\<close>

lemma missing_prefix_length_matches_all:
  assumes "length ns = 4" "\<forall>n \<in> set ns. n < 256"
  shows "ipMatches (quad ns) ''10.0.0.0/''"
proof -
  have "Number_integer [] = Some 0" "ipv4ToInt ''10.0.0.0'' = Some 0x0A000000" by code_simp+
  moreover have "quad ns \<noteq> ''10.0.0.0/''"
    using quad_chars [OF assms(2)] digit_not(2) by fastforce
  ultimately show ?thesis
    by (simp add: ipMatches_def Let_def normalize_quad assms ipv4ToInt_quad)
qed

section \<open>Properties\<close>

text \<open>
  C19. A client cannot choose its address.  From an untrusted peer every forwarding header is ignored:
  the address is the peer and scheme and host stay.  From a trusted proxy, whatever text a client puts
  in front of the part of the chain the proxies appended, the address is the last hop of that part
  that no pattern matches.
\<close>

theorem forged_hops_are_ignored:
  assumes peer: "peerAddress request = Some peer"
    and header: "headers request ''x-forwarded-for'' = Some (forged @ '','' @ appended)"
    and client: "\<exists>h \<in> set (hops appended). \<not> isTrusted proxies h"
  shows "(\<not> isTrusted proxies peer \<longrightarrow> trustProxies proxies opt request = request\<lparr>resolved_ip := Some peer\<rparr>) \<and>
    (isTrusted proxies peer \<longrightarrow> request_ip (trustProxies proxies opt request) =
      Some (last (filter (\<lambda>h. \<not> isTrusted proxies h) (hops appended))))"
proof -
  have "filter (\<lambda>h. \<not> isTrusted proxies h) (hops appended) \<noteq> []"
    using client by (auto simp: filter_empty_conv)
  then have "resolveForwardedClient (forwardedChain (headers request ''x-forwarded-for'')) peer proxies =
      last (filter (\<lambda>h. \<not> isTrusted proxies h) (hops appended))"
    by (simp add: resolve_last_untrusted header forwardedChain_def hops_append)
  with trusted_ip [OF peer, of proxies opt]
  have "isTrusted proxies peer \<longrightarrow> request_ip (trustProxies proxies opt request) =
      Some (last (filter (\<lambda>h. \<not> isTrusted proxies h) (hops appended)))" by simp
  moreover have "\<not> isTrusted proxies peer \<longrightarrow> trustProxies proxies opt request = request\<lparr>resolved_ip := Some peer\<rparr>"
    using peer by (simp add: trustProxies_def)
  ultimately show ?thesis by blast
qed

definition demo_request :: "(string \<times> string) list \<Rightarrow> ProxyRequest" where
  "demo_request hs = \<lparr>socket_peer = Some ''10.0.0.2'', raw_peer = None, headers = map_of hs,
     resolved_ip = None, scheme_name = ''http'', host_name = ''internal''\<rparr>"

theorem forged_hops_are_ignored_witness:
  "request_ip (trustProxies [''10.0.0.0/8''] None
     (demo_request [(''x-forwarded-for'', ''1.2.3.4, 10.0.0.9, 203.0.113.7, 10.0.0.1'')])) = Some ''203.0.113.7''"
proof -
  let ?r = "demo_request [(''x-forwarded-for'', ''1.2.3.4, 10.0.0.9, 203.0.113.7, 10.0.0.1'')]"
  have peer: "peerAddress ?r = Some ''10.0.0.2''"
    and header: "headers ?r ''x-forwarded-for'' = Some (''1.2.3.4, 10.0.0.9'' @ '','' @ '' 203.0.113.7, 10.0.0.1'')"
    by (simp_all add: demo_request_def peerAddress_def)
  have trusted: "isTrusted [''10.0.0.0/8''] ''10.0.0.2''"
    and hops: "filter (\<lambda>h. \<not> isTrusted [''10.0.0.0/8''] h) (hops '' 203.0.113.7, 10.0.0.1'') = [''203.0.113.7'']" by code_simp+
  have client: "\<exists>h \<in> set (hops '' 203.0.113.7, 10.0.0.1''). \<not> isTrusted [''10.0.0.0/8''] h"
    using hops by (metis filter_False list.distinct(1))
  from forged_hops_are_ignored [OF peer header client, of None] trusted show ?thesis by (simp add: hops)
qed

text \<open>
  C20. A CIDR pattern matches exactly the addresses of its block: with dotted quads of octets and a
  prefix length of at most 32, \<open>ipMatches\<close> agrees with equality of the leading bits of the two
  addresses, as integer division by the block size states it.
\<close>

theorem cidr_matches_prefix:
  assumes "length ip = 4" "\<forall>n \<in> set ip. n < 256" "length base = 4" "\<forall>n \<in> set base. n < 256" "bits \<le> 32"
  shows "ipMatches (quad ip) (quad base @ ''/'' @ string_of_nat bits) \<longleftrightarrow>
    address ip div 2 ^ (32 - bits) = address base div 2 ^ (32 - bits)"
proof -
  have slash: "CHR ''/'' \<notin> set (quad ns)" if "\<forall>n \<in> set ns. n < 256" for ns
    using quad_chars [OF that] digit_not(2) by auto
  let ?p = "quad base @ ''/'' @ string_of_nat bits"
  have in_p: "CHR ''/'' \<in> set ?p" by simp
  have "?p \<noteq> ''*''"
  proof
    assume "?p = ''*''"
    with in_p have "CHR ''/'' \<in> set ''*''" by (simp only:)
    then show False by simp
  qed
  moreover have "quad ip \<noteq> ?p" using slash [OF assms(2)] in_p by auto
  moreover have "index_of CHR ''/'' ?p = Some (length (quad base))"
    using index_of_append [OF slash [OF assms(4)]] by simp
  moreover have "Number_integer (string_of_nat bits) = Some (int bits)" using Number_digits by simp
  moreover have "unat (of_nat (address ns) :: 32 word) = address ns" if "length ns = 4" "\<forall>n \<in> set ns. n < 256" for ns
    using address_bound [OF that] by (simp add: unsigned_of_nat take_bit_nat_eq_self)
  moreover have "address ns div 2 ^ 32 = 0" if "length ns = 4" "\<forall>n \<in> set ns. n < 256" for ns
    using address_bound [OF that] by simp
  ultimately show ?thesis
    using assms mask_eq_iff_prefix [of "32 - bits" "of_nat (address ip)" "of_nat (address base)"]
    by (auto simp: ipMatches_def Let_def normalize_quad ipv4ToInt_quad)
qed

theorem cidr_matches_prefix_witness:
  "ipMatches ''172.31.255.1'' ''172.16.0.0/12'' \<and> \<not> ipMatches ''172.32.0.1'' ''172.16.0.0/12''"
proof -
  have q: "quad [172, 31, 255, 1] = ''172.31.255.1''" "quad [172, 32, 0, 1] = ''172.32.0.1''"
    "quad [172, 16, 0, 0] @ ''/'' @ string_of_nat 12 = ''172.16.0.0/12''" by code_simp+
  show ?thesis
    using cidr_matches_prefix [of "[172, 31, 255, 1]" "[172, 16, 0, 0]" 12]
      cidr_matches_prefix [of "[172, 32, 0, 1]" "[172, 16, 0, 0]" 12]
    unfolding q by (simp add: address_def)
qed

text \<open>
  The forwarded port is not validated.  Behind a trusted proxy that sends a plain host, the text
  of the last \<open>X-Forwarded-Port\<close> entry, whatever it is, becomes part of the host of the request, and
  \<open>trustHosts\<close> judges that host as if the port were not there: it lets the request through exactly when
  the plain host is listed.
\<close>

lemma forwarded_port_is_not_validated:
  assumes "peerAddress request = Some peer" "isTrusted proxies peer"
    and "lastHop (headers request ''x-forwarded-host'') = Some fh"
    and "sanitizeHost fh = Some host" "plain_host host" "CHR '':'' \<notin> set host"
    and "lastHop (headers request ''x-forwarded-port'') = Some port"
  shows "host_name (trustProxies proxies None request) = host @ '':'' @ port \<and>
    (trustHosts patterns (trustProxies proxies None request) = Inr (trustProxies proxies None request) \<longleftrightarrow>
      (\<exists>p \<in> set patterns. hostMatches host p))"
proof -
  have name: "host_name (trustProxies proxies None request) = host @ '':'' @ port"
    using assms by (simp add: trustProxies_def applyForwardedOrigin_def setForwardedOrigin_def Let_def)
  moreover have "hostWithoutPort (host @ '':'' @ port) = host" "host \<noteq> []"
    using hostWithoutPort_plain [OF assms(5,6)] assms(5) by (auto simp: plain_host_def)
  ultimately show ?thesis by (simp add: trustHosts_def list_ex_iff)
qed


end
