(* ===== verification/ScheduledTasks.thy ===== *)
theory ScheduledTasks
  imports Cron
begin

text \<open>
  The fluent task builder of \<open>framework/schedule/src/scheduled-task.ts\<close>: the five cron fields and
  the setters that splice them, the settings that key locks, and evaluation.  A callback and a
  filter act on the application's state, which is a type variable; a thrown error is a string.
  Times of day are \<open>HH:MM\<close> strings.  A time zone is its offset function.
\<close>

section \<open>The task\<close>

datatype schedule_error =
    InvalidOffset int
  | InvalidDayOfWeek int
  | InvalidDayOfMonth int
  | InvalidTime string
  | InvalidExpiry int
  | EmptyName
  | CronError cron_error
  | UnnamedLock string
  | DuplicateLockName string

record 'w ScheduledTask =
  callback :: "'w \<Rightarrow> string option \<times> 'w"
  task_fields :: "string list"
  description :: "string option"
  overlapping :: bool
  overlapExpiresAfterMinutes :: int
  oneServer :: bool
  oneServerExpiresAfterMinutes :: int
  background :: bool
  defaultName :: "string option"
  timeZone :: "(int \<Rightarrow> int) option"
  filters :: "('w \<Rightarrow> (string + bool) \<times> 'w) list"
  rejects :: "('w \<Rightarrow> (string + bool) \<times> 'w) list"

definition DEFAULT_OVERLAP_EXPIRY_MINUTES :: int where
  "DEFAULT_OVERLAP_EXPIRY_MINUTES = 60"

definition new_task :: "('w \<Rightarrow> string option \<times> 'w) \<Rightarrow> 'w ScheduledTask" where
  "new_task cb =
     \<lparr>callback = cb, task_fields = [''*'', ''*'', ''*'', ''*'', ''*''], description = None, overlapping = False,
      overlapExpiresAfterMinutes = DEFAULT_OVERLAP_EXPIRY_MINUTES, oneServer = False,
      oneServerExpiresAfterMinutes = DEFAULT_OVERLAP_EXPIRY_MINUTES, background = False,
      defaultName = None, timeZone = None, filters = [], rejects = []\<rparr>"

text \<open>The positions of \<open>CronField\<close>.\<close>

datatype CronField = Minute | Hour | DayOfMonth | Month | DayOfWeek

fun position :: "CronField \<Rightarrow> nat" where
  "position Minute = 0" | "position Hour = 1" | "position DayOfMonth = 2" | "position Month = 3" | "position DayOfWeek = 4"

definition splice :: "CronField \<Rightarrow> string \<Rightarrow> 'w ScheduledTask \<Rightarrow> 'w ScheduledTask" where
  "splice pos v t = t\<lparr>task_fields := (task_fields t)[position pos := v]\<rparr>"

section \<open>Frequencies\<close>

definition everyMinute where "everyMinute = splice Minute ''*''"
definition everyTwoMinutes where "everyTwoMinutes = splice Minute ''*/2''"
definition everyThreeMinutes where "everyThreeMinutes = splice Minute ''*/3''"
definition everyFourMinutes where "everyFourMinutes = splice Minute ''*/4''"
definition everyFiveMinutes where "everyFiveMinutes = splice Minute ''*/5''"
definition everyTenMinutes where "everyTenMinutes = splice Minute ''*/10''"
definition everyFifteenMinutes where "everyFifteenMinutes = splice Minute ''*/15''"
definition everyThirtyMinutes where "everyThirtyMinutes = splice Minute ''*/30''"
definition hourly where "hourly = splice Minute ''0''"

definition hourlyAt :: "int \<Rightarrow> 'w ScheduledTask \<Rightarrow> schedule_error + 'w ScheduledTask" where
  "hourlyAt offset t =
     (if offset < 0 \<or> 59 < offset then Inl (InvalidOffset offset)
      else Inr (splice Minute (string_of_nat (nat offset)) t))"

definition everyTwoHours where "everyTwoHours t = splice Hour ''*/2'' (splice Minute ''0'' t)"
definition everyThreeHours where "everyThreeHours t = splice Hour ''*/3'' (splice Minute ''0'' t)"
definition everyFourHours where "everyFourHours t = splice Hour ''*/4'' (splice Minute ''0'' t)"
definition everySixHours where "everySixHours t = splice Hour ''*/6'' (splice Minute ''0'' t)"
definition daily where "daily t = splice Hour ''0'' (splice Minute ''0'' t)"

text \<open>\<open>/^(\d{1,2}):(\d{1,2})$/\<close> and the range check.\<close>

definition one_or_two_digits :: "string \<Rightarrow> bool" where
  "one_or_two_digits s = (all_digits s \<and> length s \<le> 2)"

definition parseTime :: "string \<Rightarrow> schedule_error + nat \<times> nat" where
  "parseTime time =
     (case split_on CHR '':'' time of
        [h, m] \<Rightarrow>
          (if one_or_two_digits h \<and> one_or_two_digits m then
             (if 23 < number_of_digits h \<or> 59 < number_of_digits m then Inl (InvalidTime time)
              else Inr (number_of_digits h, number_of_digits m))
           else Inl (InvalidTime time))
      | _ \<Rightarrow> Inl (InvalidTime time))"

definition dailyAt :: "string \<Rightarrow> 'w ScheduledTask \<Rightarrow> schedule_error + 'w ScheduledTask" where
  "dailyAt time t =
     bindE (parseTime time) (\<lambda>(h, m). Inr (splice Hour (string_of_nat h) (splice Minute (string_of_nat m) t)))"

definition weekly where "weekly t = splice DayOfWeek ''0'' (daily t)"

definition weeklyOn :: "int \<Rightarrow> string \<Rightarrow> 'w ScheduledTask \<Rightarrow> schedule_error + 'w ScheduledTask" where
  "weeklyOn dow time t =
     (if dow < 0 \<or> 6 < dow then Inl (InvalidDayOfWeek dow)
      else bindE (dailyAt time t) (\<lambda>t'. Inr (splice DayOfWeek (string_of_nat (nat dow)) t')))"

definition weekdays where "weekdays = splice DayOfWeek ''1,2,3,4,5''"
definition weekends where "weekends = splice DayOfWeek ''0,6''"
definition sundays where "sundays = splice DayOfWeek ''0''"
definition mondays where "mondays = splice DayOfWeek ''1''"
definition tuesdays where "tuesdays = splice DayOfWeek ''2''"
definition wednesdays where "wednesdays = splice DayOfWeek ''3''"
definition thursdays where "thursdays = splice DayOfWeek ''4''"
definition fridays where "fridays = splice DayOfWeek ''5''"
definition saturdays where "saturdays = splice DayOfWeek ''6''"
definition monthly where "monthly t = splice DayOfMonth ''1'' (daily t)"

definition monthlyOn :: "int \<Rightarrow> string \<Rightarrow> 'w ScheduledTask \<Rightarrow> schedule_error + 'w ScheduledTask" where
  "monthlyOn day time t =
     (if day < 1 \<or> 31 < day then Inl (InvalidDayOfMonth day)
      else bindE (dailyAt time t) (\<lambda>t'. Inr (splice DayOfMonth (string_of_nat (nat day)) t')))"

definition lastDayOfMonth :: "string \<Rightarrow> 'w ScheduledTask \<Rightarrow> schedule_error + 'w ScheduledTask" where
  "lastDayOfMonth time t = bindE (dailyAt time t) (\<lambda>t'. Inr (splice DayOfMonth ''L'' t'))"

text \<open>The parser's memo is transparent, so the setter compiles afresh.\<close>

definition cron :: "string \<Rightarrow> 'w ScheduledTask \<Rightarrow> schedule_error + 'w ScheduledTask" where
  "cron expr t =
     (case compileExpression expr of
        Inl e \<Rightarrow> Inl (CronError e)
      | Inr compiled \<Rightarrow> Inr (t\<lparr>task_fields := cron_fields compiled\<rparr>))"

section \<open>Settings\<close>

definition timezone where "timezone zone t = t\<lparr>timeZone := Some zone\<rparr>"
definition when_filter where "when_filter f t = t\<lparr>filters := filters t @ [f]\<rparr>"
definition skip_filter where "skip_filter f t = t\<lparr>rejects := rejects t @ [f]\<rparr>"
definition runInBackground where "runInBackground t = t\<lparr>background := True\<rparr>"
definition withDefaultName where "withDefaultName resolved t = t\<lparr>defaultName := resolved\<rparr>"

definition task_name :: "string \<Rightarrow> 'w ScheduledTask \<Rightarrow> schedule_error + 'w ScheduledTask" where
  "task_name text t = (if trim text = '''' then Inl EmptyName else Inr (t\<lparr>description := Some text\<rparr>))"

definition withoutOverlapping :: "int \<Rightarrow> 'w ScheduledTask \<Rightarrow> schedule_error + 'w ScheduledTask" where
  "withoutOverlapping minutes t =
     (if minutes \<le> 0 then Inl (InvalidExpiry minutes)
      else Inr (t\<lparr>overlapping := True, overlapExpiresAfterMinutes := minutes\<rparr>))"

definition onOneServer :: "int \<Rightarrow> 'w ScheduledTask \<Rightarrow> schedule_error + 'w ScheduledTask" where
  "onOneServer minutes t =
     (if minutes \<le> 0 then Inl (InvalidExpiry minutes)
      else Inr (t\<lparr>oneServer := True, oneServerExpiresAfterMinutes := minutes\<rparr>))"

definition getName :: "'w ScheduledTask \<Rightarrow> string option" where
  "getName t = (case description t of Some d \<Rightarrow> Some d | None \<Rightarrow> defaultName t)"

definition getCronExpression :: "'w ScheduledTask \<Rightarrow> string" where
  "getCronExpression t = join_with '' '' (task_fields t)"

definition getDescription :: "'w ScheduledTask \<Rightarrow> string" where
  "getDescription t = nullish (getName t) (getCronExpression t)"

definition getOverlapKey :: "'w ScheduledTask \<Rightarrow> string option" where
  "getOverlapKey t =
     (if \<not> overlapping t then None else Some (''schedule-overlap:'' @ nullish (getName t) (getCronExpression t)))"

text \<open>Two digits, and the UTC minute of an instant in milliseconds as twelve of them.\<close>

definition pad2 :: "nat \<Rightarrow> string" where
  "pad2 n = replicate (2 - length (string_of_nat n)) CHR ''0'' @ string_of_nat n"

definition utc_minute :: "int \<Rightarrow> string" where
  "utc_minute t =
     (let (y, mo, d) = civil_of_day (local_day (\<lambda>_. 0) t); m = nat (local_minute (\<lambda>_. 0) t) in
      string_of_nat (nat y) @ pad2 mo @ pad2 d @ pad2 (m div 60) @ pad2 (m mod 60))"

definition getOneServerKey :: "int \<Rightarrow> 'w ScheduledTask \<Rightarrow> string option" where
  "getOneServerKey t task =
     (if \<not> oneServer task then None
      else Some (''schedule-one-server:'' @ nullish (getName task) (getCronExpression task) @ '':'' @ utc_minute t))"

section \<open>Evaluation\<close>

text \<open>The server's zone is the last argument of \<open>isDueAt\<close>.\<close>

definition isDueAt :: "int \<Rightarrow> (int \<Rightarrow> int) \<Rightarrow> 'w ScheduledTask \<Rightarrow> schedule_error + bool" where
  "isDueAt t server task =
     (case compileExpression (getCronExpression task) of
        Inl e \<Rightarrow> Inl (CronError e)
      | Inr compiled \<Rightarrow> Inr (isCompiledCronDue compiled t (nullish (timeZone task) server)))"

fun all_filters :: "('w \<Rightarrow> (string + bool) \<times> 'w) list \<Rightarrow> 'w \<Rightarrow> (string + bool) \<times> 'w" where
  "all_filters [] w = (Inr True, w)"
| "all_filters (f # fs) w =
     (case f w of
        (Inl e, w') \<Rightarrow> (Inl e, w')
      | (Inr b, w') \<Rightarrow> if \<not> b then (Inr False, w') else all_filters fs w')"

fun no_rejects :: "('w \<Rightarrow> (string + bool) \<times> 'w) list \<Rightarrow> 'w \<Rightarrow> (string + bool) \<times> 'w" where
  "no_rejects [] w = (Inr True, w)"
| "no_rejects (f # fs) w =
     (case f w of
        (Inl e, w') \<Rightarrow> (Inl e, w')
      | (Inr b, w') \<Rightarrow> if b then (Inr False, w') else no_rejects fs w')"

definition filtersPass :: "'w ScheduledTask \<Rightarrow> 'w \<Rightarrow> (string + bool) \<times> 'w" where
  "filtersPass task w =
     (case all_filters (filters task) w of
        (Inr True, w') \<Rightarrow> no_rejects (rejects task) w' | r \<Rightarrow> r)"

section \<open>The registry\<close>

text \<open>\<open>Schedule.dueTasks\<close>: the due tasks in registration order, and the excluded ones.\<close>

fun dueTasks ::
  "int \<Rightarrow> (int \<Rightarrow> int) \<Rightarrow> 'w ScheduledTask list \<Rightarrow> 'w ScheduledTask list \<times> ('w ScheduledTask \<times> schedule_error) list" where
  "dueTasks t server [] = ([], [])"
| "dueTasks t server (task # tasks) =
     (let (due, errors) = dueTasks t server tasks in
      case isDueAt t server task of
        Inl e \<Rightarrow> (due, (task, e) # errors)
      | Inr b \<Rightarrow> (if b then task # due else due, errors))"

fun validate_loop :: "string list \<Rightarrow> 'w ScheduledTask list \<Rightarrow> schedule_error + unit" where
  "validate_loop seen [] = Inr ()"
| "validate_loop seen (task # tasks) =
     (if \<not> (overlapping task \<or> oneServer task) then validate_loop seen tasks
      else case getName task of
        None \<Rightarrow> Inl (UnnamedLock (getCronExpression task))
      | Some n \<Rightarrow> if n \<in> set seen then Inl (DuplicateLockName n) else validate_loop (set_add n seen) tasks)"

definition validate :: "'w ScheduledTask list \<Rightarrow> schedule_error + unit" where
  "validate tasks = validate_loop [] tasks"

section \<open>Fields that compile\<close>

text \<open>A word of an expression: what splitting at white space gives back unchanged.\<close>

definition word :: "string \<Rightarrow> bool" where
  "word f \<longleftrightarrow> f \<noteq> [] \<and> (\<forall>c \<in> set f. \<not> is_ws c)"

definition compiles :: "CronField \<Rightarrow> string \<Rightarrow> bool" where
  "compiles pos f \<longleftrightarrow> word f \<and>
     (case pos of
        Minute \<Rightarrow> (\<forall>e. \<exists>cf. compileField f MINUTE e = Inr cf) \<and> hd f \<noteq> CHR ''@''
      | Hour \<Rightarrow> (\<forall>e. \<exists>cf. compileField f HOUR e = Inr cf)
      | DayOfMonth \<Rightarrow> (\<forall>e. \<exists>cf. compileDayOfMonth f e = Inr cf)
      | Month \<Rightarrow> (\<forall>e. \<exists>cf. compileField f MONTH e = Inr cf)
      | DayOfWeek \<Rightarrow> (\<forall>e. \<exists>cf. compileField f DAY_OF_WEEK e = Inr cf))"

definition task_ok :: "'w ScheduledTask \<Rightarrow> bool" where
  "task_ok t \<longleftrightarrow> length (task_fields t) = 5 \<and> (\<forall>pos. compiles pos (task_fields t ! position pos))"

lemma position_less [simp]: "position pos < 5"
  by (cases pos) simp_all

lemma position_inject [simp]: "position p = position q \<longleftrightarrow> p = q"
  by (cases p; cases q) simp_all

lemma splice_ok: "task_ok t \<Longrightarrow> compiles pos f \<Longrightarrow> task_ok (splice pos f t)"
  by (simp add: task_ok_def splice_def nth_list_update)

text \<open>Splitting a joined expression.\<close>

lemma takeWhile_word: "word f \<Longrightarrow> takeWhile (\<lambda>c. \<not> is_ws c) (f @ CHR '' '' # s) = f"
  by (simp add: word_def is_ws_def)

lemma dropWhile_word: "word f \<Longrightarrow> dropWhile (\<lambda>c. \<not> is_ws c) (f @ CHR '' '' # s) = CHR '' '' # s"
  by (simp add: word_def is_ws_def)

lemma split_ws_word: "word f \<Longrightarrow> split_ws f = [f]"
  by (subst split_ws.simps) (simp add: word_def dropWhile_eq_Nil_conv [THEN iffD2] Let_def)

lemma split_ws_join:
  "fs \<noteq> [] \<Longrightarrow> \<forall>f \<in> set fs. word f \<Longrightarrow> split_ws (join_with '' '' fs) = fs"
proof (induction fs rule: induct_list012)
  case (3 f g fs)
  have "hd (join_with '' '' (g # fs)) = hd g" "join_with '' '' (g # fs) \<noteq> []" "\<not> is_ws (hd g)"
    using 3(4) by (cases fs; cases g; simp add: word_def)+
  then have lead: "dropWhile is_ws (CHR '' '' # join_with '' '' (g # fs)) = join_with '' '' (g # fs)"
    by (cases "join_with '' '' (g # fs)") (simp_all add: is_ws_def)
  have "split_ws (join_with '' '' (f # g # fs)) = f # split_ws (join_with '' '' (g # fs))"
    using 3(4) lead by (subst split_ws.simps) (simp add: takeWhile_word dropWhile_word Let_def)
  then show ?case using 3(2) 3(4) by simp
qed (simp_all add: split_ws_word)

lemma trim_words:
  assumes "fs \<noteq> []" "\<forall>f \<in> set fs. word f"
  shows "trim (join_with '' '' fs) = join_with '' '' fs"
proof -
  let ?s = "join_with '' '' fs"
  have "?s \<noteq> [] \<and> hd ?s = hd (hd fs) \<and> last ?s = last (last fs)"
    using assms
  proof (induction fs rule: induct_list012)
    case (3 f g fs)
    then show ?case by (auto simp: word_def)
  qed (simp_all add: word_def)
  moreover have "word (hd fs)" "word (last fs)" using assms by auto
  then have "\<not> is_ws (hd (hd fs))" "\<not> is_ws (last (last fs))"
    by (auto simp: word_def)
  ultimately have ends: "\<not> is_ws (hd ?s)" "\<not> is_ws (hd (rev ?s))" by (simp_all add: hd_rev)
  then have "dropWhile is_ws ?s = ?s" "dropWhile is_ws (rev ?s) = rev ?s"
    by (simp_all add: dropWhile_eq_self_iff)
  then show ?thesis by (simp add: trim_def)
qed

lemma task_ok_compiles:
  assumes "task_ok t"
  shows "\<exists>c. compileExpression (getCronExpression t) = Inr c"
proof -
  obtain mi h d mo w where fs: "task_fields t = [mi, h, d, mo, w]"
    using assms by (auto simp: task_ok_def length_Suc_conv eval_nat_numeral)
  have c: "compiles Minute mi" "compiles Hour h" "compiles DayOfMonth d" "compiles Month mo" "compiles DayOfWeek w"
    using assms unfolding task_ok_def fs by (force dest: spec [of _ Minute] spec [of _ Hour] spec [of _ DayOfMonth] spec [of _ Month] spec [of _ DayOfWeek])+
  have words: "\<forall>f \<in> set [mi, h, d, mo, w]. word f" using c by (auto simp: compiles_def)
  let ?e = "join_with '' '' [mi, h, d, mo, w]"
  have "trim ?e = ?e" "split_ws ?e = [mi, h, d, mo, w]"
    using trim_words [OF _ words] split_ws_join [OF _ words] by simp_all
  moreover have "\<not> starts_with ?e ''@''"
    using c(1) by (cases mi) (auto simp: compiles_def word_def starts_with_def)
  moreover have "\<exists>c. compileFields ?e [mi, h, d, mo, w] (mi, h, d, mo, w) = Inr c"
    using c unfolding compiles_def compileFields_def by (fastforce simp: bindE_Inr_iff)
  ultimately show ?thesis by (simp add: compileExpression_def getCronExpression_def fs Let_def)
qed

section \<open>The values the setters write\<close>

definition pos_range :: "CronField \<Rightarrow> nat set" where
  "pos_range pos = (case pos of Minute \<Rightarrow> {0..59} | Hour \<Rightarrow> {0..23} | DayOfMonth \<Rightarrow> {1..31} | Month \<Rightarrow> {1..12} | DayOfWeek \<Rightarrow> {0..6})"

lemma star_or_number_compiles:
  assumes "f = ''*'' \<or> (\<exists>n. f = ''*/'' @ string_of_nat n \<and> 0 < n) \<or> (\<exists>n. f = string_of_nat n \<and> n \<in> pos_range pos)"
  shows "compiles pos f"
proof -
  define spec where "spec = (case pos of Minute \<Rightarrow> MINUTE | Hour \<Rightarrow> HOUR | DayOfMonth \<Rightarrow> DAY_OF_MONTH | Month \<Rightarrow> MONTH | DayOfWeek \<Rightarrow> DAY_OF_WEEK)"
  have spec: "spec \<in> set cron_specs" by (cases pos) (simp_all add: spec_def cron_specs_def)
  obtain item where item: "f = show_item item" "item_ok spec item" "item = AnyItem \<or> (\<exists>n. item = EveryItem n) \<or> (\<exists>n. item = ValueItem n)"
  proof -
    consider "f = ''*''" | n where "f = ''*/'' @ string_of_nat n" "0 < n" | n where "f = string_of_nat n" "n \<in> pos_range pos"
      using assms by auto
    then show thesis
    proof cases
      case 1 then show ?thesis using that [of AnyItem] by simp
    next
      case 2 then show ?thesis using that [of "EveryItem n"] by simp
    next
      case 3 then show ?thesis using that [of "ValueItem n"]
        by (cases pos) (simp_all add: spec_def field_specs pos_range_def)
    qed
  qed
  have ws: "\<not> is_ws c \<and> c \<noteq> CHR ''@''" if "c \<in> set f" for c
    using that item(1,3) string_of_nat_digits [of c] by (auto simp: is_ws_def is_digit_def)
  have ne: "f \<noteq> []" using item(1) by simp
  have single: "split_on CHR '','' f = [f]" using item(1) by (simp add: split_on_single)
  obtain vs where vs: "expandComponent f spec [] = Inr vs"
    using expandComponent_item [OF spec item(2), of "[]"] item(1) by auto
  have field: "\<exists>cf. compileField f spec e = Inr cf" for e
    using vs ne by (simp add: compileField_def single)
  have letter: "toUpperCase f \<noteq> ''L''"
  proof
    assume "toUpperCase f = ''L''"
    then obtain c where "f = [c]" "to_upper c = CHR ''L''" by auto
    moreover have "\<not> is_digit c" using \<open>to_upper c = CHR ''L''\<close> by (auto simp: to_upper_def is_digit_def split: if_splits)
    moreover have "c \<noteq> CHR ''*''" using \<open>to_upper c = CHR ''L''\<close> by (auto simp: to_upper_def split: if_splits)
    moreover have "c \<in> set f" using \<open>f = [c]\<close> by simp
    then have "is_digit c" if "item = ValueItem n" for n
      using that item(1) string_of_nat_digits [of c n] by simp
    ultimately show False using item(1,3) \<open>f = [c]\<close> by auto
  qed
  have dom: "\<exists>cf. compileDayOfMonth f e = Inr cf" if "pos = DayOfMonth" for e
    using vs ne letter that by (simp add: compileDayOfMonth_def single spec_def)
  have "word f" "hd f \<noteq> CHR ''@''" using ws ne by (auto simp: word_def)
  then show ?thesis using field dom by (cases pos) (auto simp: compiles_def spec_def)
qed

lemma compiles_star: "compiles pos ''*''"
  by (rule star_or_number_compiles) simp

lemma compiles_every: "0 < n \<Longrightarrow> compiles pos (''*/'' @ string_of_nat n)"
  by (rule star_or_number_compiles) auto

lemma compiles_number: "n \<in> pos_range pos \<Longrightarrow> compiles pos (string_of_nat n)"
  by (rule star_or_number_compiles) auto

lemma compiles_digits:
  "compiles Minute ''0''" "compiles Hour ''0''" "compiles DayOfMonth ''1''" "compiles DayOfWeek ''0''"
  "compiles DayOfWeek ''1''" "compiles DayOfWeek ''2''" "compiles DayOfWeek ''3''" "compiles DayOfWeek ''4''"
  "compiles DayOfWeek ''5''" "compiles DayOfWeek ''6''"
  "compiles pos ''*/2''" "compiles pos ''*/3''" "compiles pos ''*/4''" "compiles pos ''*/5''"
  "compiles pos ''*/6''" "compiles pos ''*/10''" "compiles pos ''*/15''" "compiles pos ''*/30''"
proof -
  have nums: "string_of_nat 0 = ''0''" "string_of_nat (Suc 0) = ''1''" "string_of_nat 2 = ''2''" "string_of_nat 3 = ''3''"
    "string_of_nat 4 = ''4''" "string_of_nat 5 = ''5''" "string_of_nat 6 = ''6''" "string_of_nat 10 = ''10''"
    "string_of_nat 15 = ''15''" "string_of_nat 30 = ''30''" by code_simp+
  note [simp] = pos_range_def
  show "compiles Minute ''0''" "compiles Hour ''0''" "compiles DayOfMonth ''1''" "compiles DayOfWeek ''0''"
    "compiles DayOfWeek ''1''" "compiles DayOfWeek ''2''" "compiles DayOfWeek ''3''" "compiles DayOfWeek ''4''"
    "compiles DayOfWeek ''5''" "compiles DayOfWeek ''6''"
    using compiles_number [of 0 Minute] compiles_number [of 0 Hour] compiles_number [of 1 DayOfMonth]
      compiles_number [of 0 DayOfWeek] compiles_number [of 1 DayOfWeek] compiles_number [of 2 DayOfWeek]
      compiles_number [of 3 DayOfWeek] compiles_number [of 4 DayOfWeek] compiles_number [of 5 DayOfWeek]
      compiles_number [of 6 DayOfWeek] by (simp_all add: nums)
  show "compiles pos ''*/2''" "compiles pos ''*/3''" "compiles pos ''*/4''" "compiles pos ''*/5''"
    "compiles pos ''*/6''" "compiles pos ''*/10''" "compiles pos ''*/15''" "compiles pos ''*/30''"
    using compiles_every [of 2 pos] compiles_every [of 3 pos] compiles_every [of 4 pos] compiles_every [of 5 pos]
      compiles_every [of 6 pos] compiles_every [of 10 pos] compiles_every [of 15 pos] compiles_every [of 30 pos]
    by (simp_all add: nums)
qed

lemma compiles_literals:
  "compiles DayOfWeek ''1,2,3,4,5''" "compiles DayOfWeek ''0,6''" "compiles DayOfMonth ''L''"
proof -
  have "\<exists>vs. expandComponents ''1,2,3,4,5'' DAY_OF_WEEK (split_on CHR '','' ''1,2,3,4,5'') [] = Inr vs"
    "\<exists>vs. expandComponents ''0,6'' DAY_OF_WEEK (split_on CHR '','' ''0,6'') [] = Inr vs"
    by (rule exI, code_simp)+
  then show "compiles DayOfWeek ''1,2,3,4,5''" "compiles DayOfWeek ''0,6''"
    by (auto simp: compiles_def compileField_def word_def is_ws_def)
  have "expandDomComponents ''L'' (split_on CHR '','' ''L'') [] False = Inr ([], True)" by code_simp
  then show "compiles DayOfMonth ''L''" by (auto simp: compiles_def compileDayOfMonth_def word_def is_ws_def)
qed

section \<open>An expression given whole\<close>

lemma compileField_any: "compileField f spec e = Inr cf \<Longrightarrow> compileField f spec e' = Inr cf"
  by (auto simp: compileField_def split: sum.splits)

lemma compileDayOfMonth_any: "compileDayOfMonth f e = Inr cf \<Longrightarrow> compileDayOfMonth f e' = Inr cf"
  by (auto simp: compileDayOfMonth_def split: sum.splits)

definition edged :: "string \<Rightarrow> bool" where
  "edged s \<longleftrightarrow> s \<noteq> [] \<and> \<not> is_ws (hd s) \<and> \<not> is_ws (last s)"

lemma trim_edged: "trim s = [] \<or> edged (trim s)"
proof -
  let ?m = "dropWhile is_ws s"
  let ?r = "dropWhile is_ws (rev ?m)"
  have "edged (trim s)" if "?r \<noteq> []"
  proof -
    have hd_r: "\<not> is_ws (hd ?r)" using that by (simp add: hd_dropWhile)
    have "?m \<noteq> []" using that by (cases "?m = []") simp_all
    then have "\<not> is_ws (last (rev ?m))" by (simp add: last_rev hd_dropWhile)
    moreover have "last ?r = last (rev ?m)"
      by (metis dropWhile_eq_Nil_conv dropWhile_last that)
    ultimately show ?thesis using that hd_r by (simp add: edged_def trim_def hd_rev last_rev)
  qed
  then show ?thesis by (auto simp: trim_def)
qed

lemma split_ws_words: "edged s \<Longrightarrow> (\<forall>f \<in> set (split_ws s). word f) \<and> hd (hd (split_ws s)) = hd s"
proof (induction s rule: split_ws.induct)
  case (1 s)
  let ?w = "takeWhile (\<lambda>c. \<not> is_ws c) s"
  let ?rest = "dropWhile (\<lambda>c. \<not> is_ws c) s"
  have w: "word ?w" "hd ?w = hd s"
    using 1(2) by (cases s; auto simp: edged_def word_def dest: set_takeWhileD)+
  show ?case
  proof (cases ?rest)
    case Nil
    then have "split_ws s = [?w]" by (subst split_ws.simps) (simp only: Let_def list.case)
    then show ?thesis using w by simp
  next
    case (Cons a as)
    let ?next = "dropWhile is_ws ?rest"
    have "last ?rest = last s"
      using Cons by (metis dropWhile_eq_Nil_conv dropWhile_last list.discI)
    then have "\<not> is_ws (last ?rest)" using 1(2) by (simp add: edged_def)
    moreover have "?rest \<noteq> []" using Cons by simp
    ultimately have "?next \<noteq> []" "last ?next = last ?rest"
      by (metis dropWhile_eq_Nil_conv last_in_set, metis \<open>?rest \<noteq> []\<close> \<open>\<not> is_ws (last ?rest)\<close> dropWhile_last last_in_set)
    then have "edged ?next"
      using \<open>\<not> is_ws (last ?rest)\<close> hd_dropWhile [of is_ws ?rest] by (simp add: edged_def)
    then have "\<forall>f \<in> set (split_ws ?next). word f" using 1(1) Cons by simp
    moreover have "split_ws s = ?w # split_ws ?next"
      using Cons by (subst split_ws.simps) (simp only: Let_def list.case)
    ultimately show ?thesis using w by simp
  qed
qed

lemma alias_edged: "expandAlias e s = Inr a \<Longrightarrow> edged a \<and> \<not> starts_with a ''@''"
  by (auto simp: expandAlias_def ALIASES_def edged_def starts_with_def is_ws_def split: option.splits if_splits)

lemma cron_task_ok:
  assumes "cron e t = Inr t'"
  shows "task_ok t'"
proof -
  obtain c where c: "compileExpression e = Inr c" "t' = t\<lparr>task_fields := cron_fields c\<rparr>"
    using assms by (auto simp: cron_def split: sum.splits)
  obtain x where x: "(if starts_with (trim e) ''@'' then expandAlias e (trim e) else Inr (trim e)) = Inr x"
    and fs: "(case split_ws x of [mi, h, d, mo, w] \<Rightarrow> compileFields e (split_ws x) (mi, h, d, mo, w)
              | _ \<Rightarrow> Inl (FieldCount e (length (split_ws x)))) = Inr c"
    using c(1) unfolding compileExpression_def Let_def bindE_Inr_iff by blast
  obtain mi h d mo w where sp: "split_ws x = [mi, h, d, mo, w]"
    and fields: "compileFields e (split_ws x) (mi, h, d, mo, w) = Inr c"
    using fs by (auto split: list.splits)
  have "split_ws [] = [[]]" by code_simp
  then have "x \<noteq> []" using sp by auto
  then have edged: "edged x" "\<not> starts_with x ''@''"
    using x trim_edged [of e] alias_edged [of e "trim e" x] by (auto split: if_splits)
  then have words: "word mi" "word h" "word d" "word mo" "word w" "hd mi \<noteq> CHR ''@''"
  proof -
    show "word mi" "word h" "word d" "word mo" "word w" using split_ws_words [OF edged(1)] sp by simp_all
    have "hd mi = hd x" using split_ws_words [OF edged(1)] sp by simp
    then show "hd mi \<noteq> CHR ''@''" using edged(2) \<open>x \<noteq> []\<close> by (cases x) (simp_all add: starts_with_def)
  qed
  have parts: "cron_fields c = [mi, h, d, mo, w]"
    "\<exists>r. compileField mi MINUTE e = Inr r" "\<exists>r. compileField h HOUR e = Inr r"
    "\<exists>r. compileDayOfMonth d e = Inr r" "\<exists>r. compileField mo MONTH e = Inr r"
    "\<exists>r. compileField w DAY_OF_WEEK e = Inr r"
    using fields sp by (auto simp: compileFields_def bindE_Inr_iff)
  have "compiles pos ([mi, h, d, mo, w] ! position pos)" for pos
    using parts words by (cases pos) (auto simp: compiles_def dest: compileField_any compileDayOfMonth_any)
  then show ?thesis by (simp add: task_ok_def c(2) parts(1))
qed

section \<open>Tasks that setters build\<close>

text \<open>A task as an application obtains it: a new one, then setters, those that throw only when they return.\<close>

inductive built :: "'w ScheduledTask \<Rightarrow> bool" where
  start: "built (new_task cb)"
| frequency: "built t \<Longrightarrow>
    set_to \<in> {everyMinute, everyTwoMinutes, everyThreeMinutes, everyFourMinutes, everyFiveMinutes,
      everyTenMinutes, everyFifteenMinutes, everyThirtyMinutes, hourly, everyTwoHours, everyThreeHours,
      everyFourHours, everySixHours, daily, weekly, weekdays, weekends, sundays, mondays, tuesdays,
      wednesdays, thursdays, fridays, saturdays, monthly} \<Longrightarrow> built (set_to t)"
| hourlyAt: "built t \<Longrightarrow> hourlyAt offset t = Inr t' \<Longrightarrow> built t'"
| dailyAt: "built t \<Longrightarrow> dailyAt time t = Inr t' \<Longrightarrow> built t'"
| weeklyOn: "built t \<Longrightarrow> weeklyOn dow time t = Inr t' \<Longrightarrow> built t'"
| monthlyOn: "built t \<Longrightarrow> monthlyOn day time t = Inr t' \<Longrightarrow> built t'"
| lastDayOfMonth: "built t \<Longrightarrow> lastDayOfMonth time t = Inr t' \<Longrightarrow> built t'"
| cron: "built t \<Longrightarrow> cron e t = Inr t' \<Longrightarrow> built t'"
| setting: "built t \<Longrightarrow>
    set_to \<in> {timezone zone, when_filter f, skip_filter f, runInBackground, withDefaultName nm} \<Longrightarrow> built (set_to t)"
| task_name: "built t \<Longrightarrow> task_name text t = Inr t' \<Longrightarrow> built t'"
| withoutOverlapping: "built t \<Longrightarrow> withoutOverlapping m t = Inr t' \<Longrightarrow> built t'"
| onOneServer: "built t \<Longrightarrow> onOneServer m t = Inr t' \<Longrightarrow> built t'"

lemma task_ok_fields: "task_ok t \<Longrightarrow> task_fields t' = task_fields t \<Longrightarrow> task_ok t'"
  by (simp add: task_ok_def)

lemma dailyAt_ok: "task_ok t \<Longrightarrow> dailyAt time t = Inr t' \<Longrightarrow> task_ok t'"
  by (auto simp: dailyAt_def bindE_Inr_iff parseTime_def pos_range_def
      intro!: splice_ok compiles_number split: list.splits if_splits)

lemmas frequency_defs =
  everyMinute_def everyTwoMinutes_def everyThreeMinutes_def everyFourMinutes_def everyFiveMinutes_def
  everyTenMinutes_def everyFifteenMinutes_def everyThirtyMinutes_def hourly_def everyTwoHours_def
  everyThreeHours_def everyFourHours_def everySixHours_def daily_def weekly_def weekdays_def weekends_def
  sundays_def mondays_def tuesdays_def wednesdays_def thursdays_def fridays_def saturdays_def monthly_def

lemmas setting_defs =
  timezone_def when_filter_def skip_filter_def runInBackground_def withDefaultName_def

lemma frequency_ok:
  assumes "task_ok t"
  shows "task_ok (everyMinute t)" "task_ok (everyTwoMinutes t)" "task_ok (everyThreeMinutes t)"
    "task_ok (everyFourMinutes t)" "task_ok (everyFiveMinutes t)" "task_ok (everyTenMinutes t)"
    "task_ok (everyFifteenMinutes t)" "task_ok (everyThirtyMinutes t)" "task_ok (hourly t)"
    "task_ok (everyTwoHours t)" "task_ok (everyThreeHours t)" "task_ok (everyFourHours t)"
    "task_ok (everySixHours t)" "task_ok (daily t)" "task_ok (weekly t)" "task_ok (weekdays t)"
    "task_ok (weekends t)" "task_ok (sundays t)" "task_ok (mondays t)" "task_ok (tuesdays t)"
    "task_ok (wednesdays t)" "task_ok (thursdays t)" "task_ok (fridays t)" "task_ok (saturdays t)"
    "task_ok (monthly t)"
  unfolding frequency_defs
  by (rule splice_ok compiles_star compiles_digits compiles_literals assms)+

lemma built_ok: "built t \<Longrightarrow> task_ok t"
proof (induction rule: built.induct)
  case (start cb)
  have "task_fields (new_task cb) ! position pos = ''*''" for pos by (cases pos) (simp_all add: new_task_def)
  then show ?case by (simp add: task_ok_def compiles_star) (simp add: new_task_def)
next
  case (frequency t set_to)
  show ?case using frequency(2)
    by (elim insertE emptyE) (simp_all only: frequency_ok [OF frequency(3)])
next
  case (setting t set_to zone f nm)
  then show ?case by (auto simp: setting_defs elim!: task_ok_fields)
next
  case (hourlyAt t offset t')
  then show ?case
    by (auto simp: hourlyAt_def pos_range_def intro!: splice_ok compiles_number split: if_splits)
next
  case (weeklyOn t dow time t')
  show ?case using weeklyOn(2)
    by (auto simp: weeklyOn_def bindE_Inr_iff pos_range_def intro!: splice_ok compiles_number intro: dailyAt_ok [OF weeklyOn(3)] split: if_splits)
next
  case (monthlyOn t day time t')
  show ?case using monthlyOn(2)
    by (auto simp: monthlyOn_def bindE_Inr_iff pos_range_def intro!: splice_ok compiles_number intro: dailyAt_ok [OF monthlyOn(3)] split: if_splits)
next
  case (lastDayOfMonth t time t')
  show ?case using lastDayOfMonth(2)
    by (auto simp: lastDayOfMonth_def bindE_Inr_iff intro!: splice_ok compiles_literals intro: dailyAt_ok [OF lastDayOfMonth(3)] split: if_splits)
next
  case (dailyAt t time t')
  show ?case using dailyAt(3,2) by (rule dailyAt_ok)
next
  case (cron t e t')
  show ?case using cron(2) by (rule cron_task_ok)
qed (auto simp: task_name_def withoutOverlapping_def onOneServer_def elim!: task_ok_fields split: if_splits)



end
