(* ===== verification/Files.thy ===== *)
theory Files
  imports Main
begin

text \<open>
  Files as node's promises API offers them, as far as the framework's locks and file store rely on
  them: each path has its own inodes, creating with \<open>wx\<close> makes an empty file and fails when the path
  exists, a handle writes to its inode, renaming puts a whole file at the path, and removing unlinks
  the path.  Reading or writing a file is one step.
\<close>

record 'c file_path =
  link :: "nat option"
  contents :: "nat \<Rightarrow> 'c option"
  next_inode :: nat

definition no_file :: "'c file_path" where
  "no_file = \<lparr>link = None, contents = (\<lambda>_. None), next_inode = 0\<rparr>"

definition open_wx :: "'c file_path \<Rightarrow> (nat \<times> 'c file_path) option" where
  "open_wx f =
     (case link f of
        Some _ \<Rightarrow> None
      | None \<Rightarrow> let i = next_inode f in
          Some (i, \<lparr>link = Some i, contents = (contents f)(i := None), next_inode = Suc i\<rparr>))"

definition write_file :: "nat \<Rightarrow> 'c \<Rightarrow> 'c file_path \<Rightarrow> 'c file_path" where
  "write_file i c f = f\<lparr>contents := (contents f)(i \<mapsto> c)\<rparr>"

definition read_file :: "'c file_path \<Rightarrow> 'c option option" where
  "read_file f = map_option (contents f) (link f)"

definition rm_file :: "'c file_path \<Rightarrow> 'c file_path" where
  "rm_file f = f\<lparr>link := None\<rparr>"

text \<open>Writing a temporary file and renaming it over the path.\<close>

definition rename_over :: "'c \<Rightarrow> 'c file_path \<Rightarrow> 'c file_path" where
  "rename_over c f =
     \<lparr>link = Some (next_inode f), contents = (contents f)(next_inode f \<mapsto> c), next_inode = Suc (next_inode f)\<rparr>"

lemma file_simps [simp]:
  "link (rm_file f) = None" "contents (rm_file f) = contents f" "next_inode (rm_file f) = next_inode f"
  "link (write_file i c f) = link f" "contents (write_file i c f) = (contents f)(i \<mapsto> c)"
  "next_inode (write_file i c f) = next_inode f"
  by (simp_all add: rm_file_def write_file_def)

lemma open_wx_SomeD:
  "open_wx f = Some (i, f') \<Longrightarrow>
    link f = None \<and> i = next_inode f \<and> f' = \<lparr>link = Some i, contents = (contents f)(i := None), next_inode = Suc i\<rparr>"
  by (auto simp: open_wx_def Let_def split: option.splits)

text \<open>A file that is missing, or still empty, reads as nothing.\<close>

definition read_whole :: "'c file_path \<Rightarrow> 'c option" where
  "read_whole f = (case read_file f of Some (Some c) \<Rightarrow> Some c | _ \<Rightarrow> None)"

lemma read_whole_simps [simp]:
  "read_whole (rename_over c f) = Some c" "read_whole (rm_file f) = None" "read_whole no_file = None"
  "open_wx f = Some (i, f') \<Longrightarrow> read_whole (write_file i c f') = Some c"
  "link f = None \<Longrightarrow> read_whole f = None"
  by (auto simp: read_whole_def read_file_def rename_over_def no_file_def dest: open_wx_SomeD)

end
