(* ===== verification/ScheduleLocks.thy ===== *)
theory ScheduleLocks
  imports CacheStore Files
begin

text \<open>
  The overlap locks of \<open>framework/schedule/src/locking/\<close>.  The lock file of one key and its reclaim
  marker are two paths.  \<open>acquire\<close> is given twice: as one call that nothing interrupts, and as the steps
  between its awaits, which the processes that share the directory interleave.
\<close>

section \<open>The lock file and its marker\<close>

record LockRecord =
  acquiredAt :: int
  record_expiresAt :: int
  record_key :: string
  record_pid :: nat

record LockFiles =
  lock_file :: "LockRecord file_path"
  marker_file :: "int file_path"

definition no_locks :: LockFiles where
  "no_locks = \<lparr>lock_file = no_file, marker_file = no_file\<rparr>"

section \<open>One call\<close>

definition RECLAIM_STALE_MS :: int where "RECLAIM_STALE_MS = 30000"

definition mk_record :: "string \<Rightarrow> int \<Rightarrow> nat \<Rightarrow> int \<Rightarrow> LockRecord" where
  "mk_record key ms pid now =
     \<lparr>acquiredAt = now, record_expiresAt = now + ms, record_key = key, record_pid = pid\<rparr>"

definition lock_write :: "string \<Rightarrow> int \<Rightarrow> nat \<Rightarrow> int \<Rightarrow> LockFiles \<Rightarrow> bool \<times> LockFiles" where
  "lock_write key ms pid now d =
     (case open_wx (lock_file d) of
        None \<Rightarrow> (False, d)
      | Some (i, f) \<Rightarrow> (True, d\<lparr>lock_file := write_file i (mk_record key ms pid now) f\<rparr>))"

text \<open>A file that is missing or holds no record reads as none.\<close>

definition lock_read :: "LockFiles \<Rightarrow> LockRecord option" where
  "lock_read d = (case read_file (lock_file d) of Some (Some r) \<Rightarrow> Some r | _ \<Rightarrow> None)"

definition live_record :: "int \<Rightarrow> LockRecord option \<Rightarrow> bool" where
  "live_record now r = (case r of None \<Rightarrow> False | Some x \<Rightarrow> now < record_expiresAt x)"

definition isLocked :: "int \<Rightarrow> LockFiles \<Rightarrow> bool" where
  "isLocked now d = live_record now (lock_read d)"

definition createMarker :: "int \<Rightarrow> LockFiles \<Rightarrow> bool \<times> LockFiles" where
  "createMarker now d =
     (case open_wx (marker_file d) of
        None \<Rightarrow> (False, d)
      | Some (i, f) \<Rightarrow> (True, d\<lparr>marker_file := write_file i now f\<rparr>))"

text \<open>\<open>Number("")\<close> is 0, and 0 counts as a marker that was just created.\<close>

definition clearStaleMarker :: "int \<Rightarrow> LockFiles \<Rightarrow> bool \<times> LockFiles" where
  "clearStaleMarker now d =
     (case read_file (marker_file d) of
        None \<Rightarrow> (True, d)
      | Some c \<Rightarrow>
          (let writtenAt = nullish c 0 in
           if writtenAt = 0 then (False, d)
           else if now - writtenAt < RECLAIM_STALE_MS then (False, d)
           else (True, d\<lparr>marker_file := rm_file (marker_file d)\<rparr>)))"

text \<open>The \<open>try\<close> block under the marker, and the \<open>finally\<close> that removes it.\<close>

definition reclaim_section :: "string \<Rightarrow> int \<Rightarrow> nat \<Rightarrow> int \<Rightarrow> LockFiles \<Rightarrow> bool \<times> LockFiles" where
  "reclaim_section key ms pid now d =
     (let (b, d') =
        (if live_record now (lock_read d) then (False, d)
         else lock_write key ms pid now (d\<lparr>lock_file := rm_file (lock_file d)\<rparr>)) in
      (b, d'\<lparr>marker_file := rm_file (marker_file d')\<rparr>))"

definition reclaim :: "string \<Rightarrow> int \<Rightarrow> nat \<Rightarrow> int \<Rightarrow> LockFiles \<Rightarrow> bool \<times> LockFiles" where
  "reclaim key ms pid now d =
     (let (created, d1) = createMarker now d in
      if created then reclaim_section key ms pid now d1
      else let (cleared, d2) = clearStaleMarker now d1 in
        if \<not> cleared then (False, d2)
        else let (again, d3) = createMarker now d2 in
          if \<not> again then (False, d3) else reclaim_section key ms pid now d3)"

definition lock_acquire :: "string \<Rightarrow> int \<Rightarrow> nat \<Rightarrow> int \<Rightarrow> LockFiles \<Rightarrow> bool \<times> LockFiles" where
  "lock_acquire key ms pid now d =
     (let (written, d1) = lock_write key ms pid now d in
      if written then (True, d1)
      else if live_record now (lock_read d1) then (False, d1)
      else reclaim key ms pid now d1)"

definition lock_release :: "LockFiles \<Rightarrow> LockFiles" where
  "lock_release d = d\<lparr>lock_file := rm_file (lock_file d)\<rparr>"

text \<open>
  A directory, by file name.  The digest is a parameter; the name keeps 32 of its characters.
\<close>

definition lockPath :: "(string \<Rightarrow> string) \<Rightarrow> string \<Rightarrow> string" where
  "lockPath digest key = take 32 (digest key) @ ''.lock''"

definition file_acquire ::
  "(string \<Rightarrow> string) \<Rightarrow> nat \<Rightarrow> string \<Rightarrow> int \<Rightarrow> int \<Rightarrow> (string \<Rightarrow> LockFiles) \<Rightarrow> bool \<times> (string \<Rightarrow> LockFiles)" where
  "file_acquire digest pid key ms now dir =
     (let (b, d) = lock_acquire key ms pid now (dir (lockPath digest key)) in (b, dir(lockPath digest key := d)))"

definition file_release :: "(string \<Rightarrow> string) \<Rightarrow> string \<Rightarrow> int \<Rightarrow> (string \<Rightarrow> LockFiles) \<Rightarrow> (string \<Rightarrow> LockFiles)" where
  "file_release digest key now dir = dir(lockPath digest key := lock_release (dir (lockPath digest key)))"

section \<open>The cache-backed locker\<close>

definition cacheKey :: "string \<Rightarrow> string" where
  "cacheKey key = key @ ''_lock''"

definition locker_ttl :: "int \<Rightarrow> int" where
  "locker_ttl ms = max 1 ((ms + 999) div 1000)"

definition cache_acquire :: "'s CacheOps \<Rightarrow> string \<Rightarrow> string \<Rightarrow> int \<Rightarrow> int \<Rightarrow> 's \<Rightarrow> bool \<times> 's" where
  "cache_acquire ops owner key ms now s =
     op_add ops now (cacheKey key) (VStr owner) (Some (locker_ttl ms)) s"

text \<open>\<open>atomic\<close> says whether the store has \<open>releaseLock\<close>.\<close>

definition cache_release :: "'s CacheOps \<Rightarrow> bool \<Rightarrow> string \<Rightarrow> string \<Rightarrow> int \<Rightarrow> 's \<Rightarrow> 's" where
  "cache_release ops atomic owner key now s =
     (if atomic then snd (op_releaseLock ops now (cacheKey key) owner s)
      else let (currentOwner, s1) = op_get ops now (cacheKey key) s in
        if currentOwner \<noteq> VStr owner then s1 else op_forget ops now (cacheKey key) s1)"

section \<open>The interface\<close>

text \<open>
  A locker as the scheduler sees it; an acquisition or a release may throw.
\<close>

record 's Locker =
  lk_acquire :: "string \<Rightarrow> int \<Rightarrow> int \<Rightarrow> 's \<Rightarrow> (string + bool) \<times> 's"
  lk_release :: "string \<Rightarrow> int \<Rightarrow> 's \<Rightarrow> string option \<times> 's"

definition file_locker :: "(string \<Rightarrow> string) \<Rightarrow> nat \<Rightarrow> (string \<Rightarrow> LockFiles) Locker" where
  "file_locker digest pid =
     \<lparr>lk_acquire = (\<lambda>key ms now s. map_prod Inr id (file_acquire digest pid key ms now s)),
      lk_release = (\<lambda>key now s. (None, file_release digest key now s))\<rparr>"

definition cache_locker :: "'s CacheOps \<Rightarrow> bool \<Rightarrow> string \<Rightarrow> 's Locker" where
  "cache_locker ops atomic owner =
     \<lparr>lk_acquire = (\<lambda>key ms now s. map_prod Inr id (cache_acquire ops owner key ms now s)),
      lk_release = (\<lambda>key now s. (None, cache_release ops atomic owner key now s))\<rparr>"

text \<open>
  The contract.  \<open>held\<close> is what an observer sees, \<open>owns\<close> that this locker's own lock is there,
  \<open>apart\<close> that two keys do not share a lock, and \<open>quiet\<close> a state between calls.
\<close>

locale schedule_locker =
  fixes locker :: "'s Locker"
    and held :: "int \<Rightarrow> 's \<Rightarrow> string \<Rightarrow> bool"
    and owns :: "int \<Rightarrow> 's \<Rightarrow> string \<Rightarrow> bool"
    and apart :: "string \<Rightarrow> string \<Rightarrow> bool"
    and quiet :: "'s \<Rightarrow> bool"
  assumes acquire_result: "quiet s \<Longrightarrow> fst (lk_acquire locker k ms now s) = Inr (\<not> held now s k)"
    and acquire_quiet: "quiet s \<Longrightarrow> quiet (snd (lk_acquire locker k ms now s))"
    and acquire_owns: "quiet s \<Longrightarrow> \<not> held now s k \<Longrightarrow> now \<le> t \<Longrightarrow> t < now + ms \<Longrightarrow>
          owns t (snd (lk_acquire locker k ms now s)) k"
    and acquire_refused: "quiet s \<Longrightarrow> held now s k \<Longrightarrow> now \<le> t \<Longrightarrow>
          held t (snd (lk_acquire locker k ms now s)) k' = held t s k' \<and>
          owns t (snd (lk_acquire locker k ms now s)) k' = owns t s k'"
    and acquire_frame: "quiet s \<Longrightarrow> apart k k' \<Longrightarrow> now \<le> t \<Longrightarrow>
          held t (snd (lk_acquire locker k ms now s)) k' = held t s k' \<and>
          owns t (snd (lk_acquire locker k ms now s)) k' = owns t s k'"
    and owns_held: "owns t s k \<Longrightarrow> held t s k"
    and release_result: "quiet s \<Longrightarrow> fst (lk_release locker k now s) = None"
    and release_quiet: "quiet s \<Longrightarrow> quiet (snd (lk_release locker k now s))"
    and release_own: "quiet s \<Longrightarrow> owns now s k \<Longrightarrow> now \<le> t \<Longrightarrow> \<not> held t (snd (lk_release locker k now s)) k"
    and release_frame: "quiet s \<Longrightarrow> apart k k' \<Longrightarrow> now \<le> t \<Longrightarrow>
          held t (snd (lk_release locker k now s)) k' = held t s k' \<and>
          owns t (snd (lk_release locker k now s)) k' = owns t s k'"
begin

lemma second_acquire_fails:
  assumes "quiet s" "fst (lk_acquire locker k ms now s) = Inr True" "now \<le> t" "t < now + ms"
  shows "fst (lk_acquire locker k ms' t (snd (lk_acquire locker k ms now s))) = Inr False"
  using assms acquire_owns [of s now k t ms] owns_held
  by (simp add: acquire_result acquire_quiet)

lemma released_is_free:
  assumes "quiet s" "fst (lk_acquire locker k ms now s) = Inr True" "now \<le> t" "t < now + ms" "t \<le> t'"
  shows "fst (lk_acquire locker k ms' t' (snd (lk_release locker k t (snd (lk_acquire locker k ms now s))))) = Inr True"
  using assms acquire_owns [of s now k t ms] release_own [of _ t k t']
  by (simp add: acquire_result acquire_quiet release_quiet)

end

section \<open>Both lockers meet it\<close>

lemma lock_acquire_alone:
  assumes "link (marker_file d) = None"
  shows "fst (lock_acquire key ms pid now d) \<longleftrightarrow> \<not> isLocked now d"
    "link (marker_file (snd (lock_acquire key ms pid now d))) = None"
    "\<not> isLocked now d \<Longrightarrow> lock_read (snd (lock_acquire key ms pid now d)) = Some (mk_record key ms pid now)"
    "isLocked now d \<Longrightarrow> snd (lock_acquire key ms pid now d) = d"
  using assms
  by (auto simp: lock_acquire_def lock_write_def open_wx_def isLocked_def lock_read_def read_file_def
      live_record_def reclaim_def createMarker_def reclaim_section_def Let_def split: option.splits)

interpretation files: schedule_locker "file_locker digest pid"
    "\<lambda>now dir key. isLocked now (dir (lockPath digest key))"
    "\<lambda>now dir key. isLocked now (dir (lockPath digest key))"
    "\<lambda>k k'. lockPath digest k \<noteq> lockPath digest k'"
    "\<lambda>dir. \<forall>p. link (marker_file (dir p)) = None" for digest pid
proof (unfold_locales, goal_cases)
  case (3 s now k t ms)
  then show ?case
    by (simp add: file_locker_def file_acquire_def case_prod_unfold Let_def isLocked_def [of t]
        lock_acquire_alone(3)) (simp add: live_record_def mk_record_def)
qed (auto simp: file_locker_def file_acquire_def case_prod_unfold Let_def lock_acquire_alone file_release_def
    lock_release_def isLocked_def [of _ "_\<lparr>lock_file := _\<rparr>"] lock_read_def read_file_def live_record_def)

lemma locker_ttl_covers: "ms \<le> locker_ttl ms * 1000"
  by (simp add: locker_ttl_def max_def) linarith

sublocale cache_store \<subseteq> cached: schedule_locker "cache_locker ops atomic owner"
    "\<lambda>now s key. live now (peek s) (cacheKey key) \<noteq> None"
    "\<lambda>now s key. value_of (live now (peek s) (cacheKey key)) = VStr owner"
    "\<lambda>k k'. k \<noteq> k'" "\<lambda>s. True" for atomic owner
proof (unfold_locales, goal_cases)
  case (3 s now k t ms)
  have "\<not> expired t (mk_entry now (VStr owner) (Some (locker_ttl ms)))"
    using 3(4) locker_ttl_covers [of ms] by (auto simp: expired_mk_entry)
  then show ?case using 3 by (simp add: cache_locker_def cache_acquire_def add_live)
next
  case (6 t s k)
  then show ?case by (cases "live t (peek s) (cacheKey k)") simp_all
next
  case (9 s now k t)
  then show ?case
    by (auto simp: cache_locker_def cache_release_def release_live forget_live get_value case_prod_unfold Let_def)
next
  case (10 s k k' now t)
  then show ?case
    by (auto simp: cache_locker_def cache_release_def cacheKey_def release_live forget_live get_live case_prod_unfold Let_def)
qed (auto simp: cache_locker_def cache_acquire_def cacheKey_def cache_release_def case_prod_unfold
    add_result add_live)

section \<open>Processes\<close>

text \<open>
  Where a process is between two awaits of \<open>acquire\<close>.  The flag of the writing steps says that
  the write is the one inside \<open>reclaim\<close>.
\<close>

datatype pc =
    Idle
  | Stamp bool
  | OpenLock int bool
  | WriteRecord int nat bool
  | ReadRecord
  | CheckRecord "LockRecord option"
  | OpenMarker
  | ReadMarker
  | CheckMarker int
  | RemoveMarker
  | ReopenMarker
  | WriteMarker nat
  | Reread
  | Recheck "LockRecord option"
  | RemoveLock
  | DropMarker "(int \<times> nat) option"
  | Holding int nat
  | Lost
  | Crashed

record World =
  files :: LockFiles
  clock :: int
  pcs :: "nat \<Rightarrow> pc"

definition start_world :: "int \<Rightarrow> World" where
  "start_world now = \<lparr>files = no_locks, clock = now, pcs = (\<lambda>_. Idle)\<rparr>"

definition goto :: "nat \<Rightarrow> pc \<Rightarrow> LockFiles \<Rightarrow> World \<Rightarrow> World" where
  "goto p c d w = w\<lparr>files := d, pcs := (pcs w)(p := c)\<rparr>"

text \<open>One step of process \<open>p\<close>, for the key all the processes contend for.\<close>

definition advance :: "string \<Rightarrow> (nat \<Rightarrow> int) \<Rightarrow> nat \<Rightarrow> World \<Rightarrow> World" where
  "advance key ms p w =
     (let d = files w; now = clock w in
      case pcs w p of
        Stamp again \<Rightarrow> goto p (OpenLock now again) d w
      | OpenLock n again \<Rightarrow>
          (case open_wx (lock_file d) of
             None \<Rightarrow> goto p (if again then DropMarker None else ReadRecord) d w
           | Some (i, f) \<Rightarrow> goto p (WriteRecord n i again) (d\<lparr>lock_file := f\<rparr>) w)
      | WriteRecord n i again \<Rightarrow>
          goto p (if again then DropMarker (Some (n, i)) else Holding n i)
            (d\<lparr>lock_file := write_file i (mk_record key (ms p) p n) (lock_file d)\<rparr>) w
      | ReadRecord \<Rightarrow> goto p (CheckRecord (lock_read d)) d w
      | CheckRecord r \<Rightarrow> goto p (if live_record now r then Lost else OpenMarker) d w
      | OpenMarker \<Rightarrow>
          (case open_wx (marker_file d) of
             None \<Rightarrow> goto p ReadMarker d w
           | Some (i, f) \<Rightarrow> goto p (WriteMarker i) (d\<lparr>marker_file := f\<rparr>) w)
      | ReadMarker \<Rightarrow>
          (case read_file (marker_file d) of
             None \<Rightarrow> goto p ReopenMarker d w
           | Some c \<Rightarrow> goto p (CheckMarker (nullish c 0)) d w)
      | CheckMarker writtenAt \<Rightarrow>
          goto p (if writtenAt = 0 \<or> now - writtenAt < RECLAIM_STALE_MS then Lost else RemoveMarker) d w
      | RemoveMarker \<Rightarrow> goto p ReopenMarker (d\<lparr>marker_file := rm_file (marker_file d)\<rparr>) w
      | ReopenMarker \<Rightarrow>
          (case open_wx (marker_file d) of
             None \<Rightarrow> goto p Lost d w
           | Some (i, f) \<Rightarrow> goto p (WriteMarker i) (d\<lparr>marker_file := f\<rparr>) w)
      | WriteMarker i \<Rightarrow> goto p Reread (d\<lparr>marker_file := write_file i now (marker_file d)\<rparr>) w
      | Reread \<Rightarrow> goto p (Recheck (lock_read d)) d w
      | Recheck r \<Rightarrow> goto p (if live_record now r then DropMarker None else RemoveLock) d w
      | RemoveLock \<Rightarrow> goto p (Stamp True) (d\<lparr>lock_file := rm_file (lock_file d)\<rparr>) w
      | DropMarker r \<Rightarrow>
          goto p (case r of None \<Rightarrow> Lost | Some (n, i) \<Rightarrow> Holding n i)
            (d\<lparr>marker_file := rm_file (marker_file d)\<rparr>) w
      | _ \<Rightarrow> w)"

text \<open>
  What can happen next: a process calls \<open>acquire\<close>, takes a step, releases what it holds or dies,
  or time passes.
\<close>

datatype event = Start nat | Act nat | Release nat | Crash nat | Tick nat

definition enabled :: "event \<Rightarrow> World \<Rightarrow> bool" where
  "enabled e w =
     (case e of
        Start p \<Rightarrow> pcs w p = Idle \<or> pcs w p = Lost
      | Act p \<Rightarrow> (case pcs w p of Idle \<Rightarrow> False | Holding n i \<Rightarrow> False | Lost \<Rightarrow> False | Crashed \<Rightarrow> False | _ \<Rightarrow> True)
      | Release p \<Rightarrow> (case pcs w p of Holding n i \<Rightarrow> True | _ \<Rightarrow> False)
      | _ \<Rightarrow> True)"

definition occur :: "string \<Rightarrow> (nat \<Rightarrow> int) \<Rightarrow> event \<Rightarrow> World \<Rightarrow> World" where
  "occur key ms e w =
     (case e of
        Start p \<Rightarrow> goto p (Stamp False) (files w) w
      | Act p \<Rightarrow> advance key ms p w
      | Release p \<Rightarrow> goto p Idle (lock_release (files w)) w
      | Crash p \<Rightarrow> goto p Crashed (files w) w
      | Tick d \<Rightarrow> w\<lparr>clock := clock w + int d\<rparr>)"

fun run_events :: "string \<Rightarrow> (nat \<Rightarrow> int) \<Rightarrow> event list \<Rightarrow> World \<Rightarrow> World option" where
  "run_events key ms [] w = Some w"
| "run_events key ms (e # es) w = (if enabled e w then run_events key ms es (occur key ms e w) else None)"

text \<open>A process whose lock has been granted and has not expired.\<close>

definition grant :: "pc \<Rightarrow> (int \<times> nat) option" where
  "grant c =
     (case c of Holding n i \<Rightarrow> Some (n, i) | DropMarker r \<Rightarrow> r | WriteRecord n i _ \<Rightarrow> Some (n, i) | _ \<Rightarrow> None)"

definition holds_lock :: "(nat \<Rightarrow> int) \<Rightarrow> World \<Rightarrow> nat \<Rightarrow> bool" where
  "holds_lock ms w p = (case pcs w p of Holding n i \<Rightarrow> clock w < n + ms p | _ \<Rightarrow> False)"

section \<open>A call that nothing interrupts\<close>

lemma goto_simps [simp]:
  "files (goto p c d w) = d" "clock (goto p c d w) = clock w" "pcs (goto p c d w) = (pcs w)(p := c)"
  by (simp_all add: goto_def)

lemma goto_goto: "goto p c d (goto p c' d' w) = goto p c d w"
  by (simp add: goto_def)

lemma advance_goto:
  "advance key ms p (goto p c d w) =
     (case c of
        Stamp again \<Rightarrow> goto p (OpenLock (clock w) again) d w
      | OpenLock n again \<Rightarrow>
          (case open_wx (lock_file d) of
             None \<Rightarrow> goto p (if again then DropMarker None else ReadRecord) d w
           | Some (i, f) \<Rightarrow> goto p (WriteRecord n i again) (d\<lparr>lock_file := f\<rparr>) w)
      | WriteRecord n i again \<Rightarrow>
          goto p (if again then DropMarker (Some (n, i)) else Holding n i)
            (d\<lparr>lock_file := write_file i (mk_record key (ms p) p n) (lock_file d)\<rparr>) w
      | ReadRecord \<Rightarrow> goto p (CheckRecord (lock_read d)) d w
      | CheckRecord r \<Rightarrow> goto p (if live_record (clock w) r then Lost else OpenMarker) d w
      | OpenMarker \<Rightarrow>
          (case open_wx (marker_file d) of
             None \<Rightarrow> goto p ReadMarker d w
           | Some (i, f) \<Rightarrow> goto p (WriteMarker i) (d\<lparr>marker_file := f\<rparr>) w)
      | ReadMarker \<Rightarrow>
          (case read_file (marker_file d) of
             None \<Rightarrow> goto p ReopenMarker d w
           | Some c \<Rightarrow> goto p (CheckMarker (nullish c 0)) d w)
      | CheckMarker writtenAt \<Rightarrow>
          goto p (if writtenAt = 0 \<or> clock w - writtenAt < RECLAIM_STALE_MS then Lost else RemoveMarker) d w
      | RemoveMarker \<Rightarrow> goto p ReopenMarker (d\<lparr>marker_file := rm_file (marker_file d)\<rparr>) w
      | ReopenMarker \<Rightarrow>
          (case open_wx (marker_file d) of
             None \<Rightarrow> goto p Lost d w
           | Some (i, f) \<Rightarrow> goto p (WriteMarker i) (d\<lparr>marker_file := f\<rparr>) w)
      | WriteMarker i \<Rightarrow> goto p Reread (d\<lparr>marker_file := write_file i (clock w) (marker_file d)\<rparr>) w
      | Reread \<Rightarrow> goto p (Recheck (lock_read d)) d w
      | Recheck r \<Rightarrow> goto p (if live_record (clock w) r then DropMarker None else RemoveLock) d w
      | RemoveLock \<Rightarrow> goto p (Stamp True) (d\<lparr>lock_file := rm_file (lock_file d)\<rparr>) w
      | DropMarker r \<Rightarrow>
          goto p (case r of None \<Rightarrow> Lost | Some (n, i) \<Rightarrow> Holding n i)
            (d\<lparr>marker_file := rm_file (marker_file d)\<rparr>) w
      | _ \<Rightarrow> goto p c d w)"
  by (cases c) (simp_all add: advance_def Let_def goto_goto split: option.splits)

text \<open>The steps of one process, taken in a row, are the call.\<close>

lemma alone_lock_acquire:
  assumes "w' = (advance key ms p ^^ 17) (goto p (Stamp False) (files w) w)"
  shows "files w' = snd (lock_acquire key (ms p) p (clock w) (files w)) \<and>
    (if fst (lock_acquire key (ms p) p (clock w) (files w)) then \<exists>i. pcs w' p = Holding (clock w) i else pcs w' p = Lost)"
proof -
  note run = assms numeral_eq_Suc advance_goto open_wx_def read_file_def lock_read_def
    lock_acquire_def lock_write_def reclaim_def reclaim_section_def createMarker_def clearStaleMarker_def Let_def
  show ?thesis
  proof (cases "link (lock_file (files w))")
    case None
    then show ?thesis by (simp add: run)
  next
    case (Some i)
    show ?thesis
    proof (cases "live_record (clock w) (lock_read (files w))")
      case True
      then show ?thesis using Some by (simp add: run)
    next
      case dead: False
      show ?thesis
      proof (cases "link (marker_file (files w))")
        case None
        then show ?thesis using Some dead by (simp add: run)
      next
        case (Some j)
        then show ?thesis using \<open>link (lock_file (files w)) = _\<close> dead
          by (cases "contents (marker_file (files w)) j") (simp_all add: run)
      qed
    qed
  qed
qed

section \<open>Two holders\<close>

definition calls :: "event \<Rightarrow> bool" where
  "calls e = (case e of Start _ \<Rightarrow> True | Act _ \<Rightarrow> True | _ \<Rightarrow> False)"

definition calls_and_releases :: "event \<Rightarrow> bool" where
  "calls_and_releases e = (calls e \<or> (case e of Release _ \<Rightarrow> True | _ \<Rightarrow> False))"

text \<open>
  Lock files do not exclude, although nothing crashes, no time passes and no lock expires.
  First, a process that reads the lock file between its creation and the writing of its record
  takes the empty file for no lock, removes it and locks for itself: both hold the lock.  Second, a
  process that lost the race for the file and reads it just after it was released takes the
  missing file for an abandoned one; the file a third process meanwhile creates is what it removes.
\<close>

lemma reclaimers_remove_live_locks:
  "(\<exists>es w. run_events ''k'' (\<lambda>_. 60000) es (start_world 0) = Some w \<and> list_all calls es \<and>
      holds_lock (\<lambda>_. 60000) w 1 \<and> holds_lock (\<lambda>_. 60000) w 2) \<and>
   (\<exists>es w. run_events ''k'' (\<lambda>_. 60000) es (start_world 0) = Some w \<and> list_all calls_and_releases es \<and>
      holds_lock (\<lambda>_. 60000) w 2 \<and> holds_lock (\<lambda>_. 60000) w 3)"
proof
  let ?torn = "[Start 1, Act 1, Act 1, Start 2] @ replicate 13 (Act 2) @ [Act 1]"
  let ?missing = "[Start 1, Act 1, Act 1, Act 1, Start 2, Act 2, Act 2, Release 1] @ replicate 6 (Act 2)
    @ [Start 3, Act 3, Act 3, Act 3] @ replicate 5 (Act 2)"
  note run = start_world_def enabled_def occur_def advance_def goto_def open_wx_def no_locks_def no_file_def
    read_file_def lock_read_def live_record_def mk_record_def lock_release_def holds_lock_def
  show "\<exists>es w. run_events ''k'' (\<lambda>_. 60000) es (start_world 0) = Some w \<and> list_all calls es \<and>
      holds_lock (\<lambda>_. 60000) w 1 \<and> holds_lock (\<lambda>_. 60000) w 2"
    by (rule exI [of _ ?torn]) (simp add: numeral_eq_Suc run calls_def)
  show "\<exists>es w. run_events ''k'' (\<lambda>_. 60000) es (start_world 0) = Some w \<and> list_all calls_and_releases es \<and>
      holds_lock (\<lambda>_. 60000) w 2 \<and> holds_lock (\<lambda>_. 60000) w 3"
    by (rule exI [of _ ?missing]) (simp add: numeral_eq_Suc run calls_def calls_and_releases_def)
qed

section \<open>Exclusion, when only expired records are removed\<close>

text \<open>Between creating the reclaim marker and removing it.\<close>

definition inside :: "pc \<Rightarrow> bool" where
  "inside c =
     (case c of
        WriteMarker _ \<Rightarrow> True | Reread \<Rightarrow> True | Recheck _ \<Rightarrow> True | RemoveLock \<Rightarrow> True | DropMarker _ \<Rightarrow> True
      | Stamp again \<Rightarrow> again | OpenLock _ again \<Rightarrow> again | WriteRecord _ _ again \<Rightarrow> again | _ \<Rightarrow> False)"

text \<open>
  The conditions under which the locks exclude: a holder releases before its lock expires, a
  reclaimer finds a record, a marker that is cleared as stale is nobody's, and no time passes
  between reading the record under the marker and comparing it with the clock.
\<close>

definition careful :: "(nat \<Rightarrow> int) \<Rightarrow> event \<Rightarrow> World \<Rightarrow> bool" where
  "careful ms e w \<longleftrightarrow>
     (case e of
        Release p \<Rightarrow> holds_lock ms w p
      | Act p \<Rightarrow> pcs w p \<noteq> Recheck None \<and> (pcs w p = RemoveMarker \<longrightarrow> (\<forall>q. \<not> inside (pcs w q)))
      | Tick _ \<Rightarrow> (\<forall>q r. pcs w q \<noteq> Recheck r)
      | _ \<Rightarrow> True)"

inductive careful_reach :: "string \<Rightarrow> (nat \<Rightarrow> int) \<Rightarrow> World \<Rightarrow> bool" for key ms where
  initially: "careful_reach key ms (start_world now)"
| happens: "careful_reach key ms w \<Longrightarrow> enabled e w \<Longrightarrow> careful ms e w \<Longrightarrow> careful_reach key ms (occur key ms e w)"

definition expired_lock :: "World \<Rightarrow> bool" where
  "expired_lock w \<longleftrightarrow> (\<exists>i r. link (lock_file (files w)) = Some i \<and> contents (lock_file (files w)) i = Some r \<and>
     record_expiresAt r \<le> clock w)"

definition written :: "pc \<Rightarrow> bool" where
  "written c = (case c of WriteRecord _ _ _ \<Rightarrow> False | _ \<Rightarrow> True)"

definition locks_inv :: "(nat \<Rightarrow> int) \<Rightarrow> World \<Rightarrow> bool" where
  "locks_inv ms w \<longleftrightarrow>
     (\<forall>p q. inside (pcs w p) \<longrightarrow> inside (pcs w q) \<longrightarrow> p = q) \<and>
     (\<forall>p. inside (pcs w p) \<longrightarrow> link (marker_file (files w)) \<noteq> None) \<and>
     (\<forall>p n i. grant (pcs w p) = Some (n, i) \<longrightarrow> clock w < n + ms p \<longrightarrow> link (lock_file (files w)) = Some i) \<and>
     (\<forall>p n i. grant (pcs w p) = Some (n, i) \<longrightarrow> i < next_inode (lock_file (files w)) \<and>
        (if written (pcs w p) then \<exists>r. contents (lock_file (files w)) i = Some r \<and> record_expiresAt r = n + ms p
         else contents (lock_file (files w)) i = None)) \<and>
     (\<forall>p q n m i. grant (pcs w p) = Some (n, i) \<longrightarrow> grant (pcs w q) = Some (m, i) \<longrightarrow> p = q) \<and>
     (\<forall>p. pcs w p = RemoveLock \<or> (\<exists>r. pcs w p = Recheck (Some r) \<and> record_expiresAt r \<le> clock w) \<longrightarrow> expired_lock w)"

lemma locks_invD:
  assumes "locks_inv ms w"
  shows "inside (pcs w p) \<Longrightarrow> inside (pcs w q) \<Longrightarrow> p = q"
    and "inside (pcs w p) \<Longrightarrow> link (marker_file (files w)) \<noteq> None"
    and "grant (pcs w p) = Some (n, i) \<Longrightarrow> clock w < n + ms p \<Longrightarrow> link (lock_file (files w)) = Some i"
    and "grant (pcs w p) = Some (n, i) \<Longrightarrow> i < next_inode (lock_file (files w))"
    and "grant (pcs w p) = Some (n, i) \<Longrightarrow> written (pcs w p) \<Longrightarrow>
      \<exists>r. contents (lock_file (files w)) i = Some r \<and> record_expiresAt r = n + ms p"
    and "grant (pcs w p) = Some (n, i) \<Longrightarrow> \<not> written (pcs w p) \<Longrightarrow> contents (lock_file (files w)) i = None"
    and "grant (pcs w p) = Some (n, i) \<Longrightarrow> grant (pcs w q) = Some (m, i) \<Longrightarrow> p = q"
    and "pcs w p = RemoveLock \<Longrightarrow> expired_lock w"
    and "pcs w p = Recheck (Some r) \<Longrightarrow> record_expiresAt r \<le> clock w \<Longrightarrow> expired_lock w"
  using assms unfolding locks_inv_def by (metis)+

text \<open>While the expired record is in place nobody holds a live lock.\<close>

lemma expired_lock_free:
  assumes "locks_inv ms w" "expired_lock w" "grant (pcs w p) = Some (n, i)"
  shows "n + ms p \<le> clock w"
proof (rule ccontr)
  assume "\<not> n + ms p \<le> clock w"
  then have "link (lock_file (files w)) = Some i" using locks_invD(3) [OF assms(1,3)] by simp
  then show False
    using assms(2) locks_invD(5,6) [OF assms(1,3)] \<open>\<not> n + ms p \<le> clock w\<close>
    by (cases "written (pcs w p)") (auto simp: expired_lock_def)
qed

definition removing :: "int \<Rightarrow> pc \<Rightarrow> bool" where
  "removing now c \<longleftrightarrow> c = RemoveLock \<or> (\<exists>r. c = Recheck (Some r) \<and> record_expiresAt r \<le> now)"

text \<open>What a step that moves one process has to show.\<close>

lemma goto_inv:
  assumes inv: "locks_inv ms w"
    and ins: "inside c \<Longrightarrow> link (marker_file d) \<noteq> None \<and> (inside (pcs w p) \<or> (\<forall>q. \<not> inside (pcs w q)))"
    and mark: "\<And>q. q \<noteq> p \<Longrightarrow> inside (pcs w q) \<Longrightarrow> link (marker_file d) \<noteq> None"
    and own: "\<And>n i. grant c = Some (n, i) \<Longrightarrow> link (lock_file d) = Some i \<or> n + ms p \<le> clock w"
    and own_file: "\<And>n i. grant c = Some (n, i) \<Longrightarrow> i < next_inode (lock_file d) \<and>
        (if written c then \<exists>r. contents (lock_file d) i = Some r \<and> record_expiresAt r = n + ms p
         else contents (lock_file d) i = None) \<and>
        (\<forall>q m. q \<noteq> p \<longrightarrow> grant (pcs w q) \<noteq> Some (m, i))"
    and other: "\<And>q n i. q \<noteq> p \<Longrightarrow> grant (pcs w q) = Some (n, i) \<Longrightarrow> clock w < n + ms q \<Longrightarrow> link (lock_file d) = Some i"
    and other_file: "\<And>q n i. q \<noteq> p \<Longrightarrow> grant (pcs w q) = Some (n, i) \<Longrightarrow> i < next_inode (lock_file d) \<and>
        contents (lock_file d) i = contents (lock_file (files w)) i"
    and rem: "removing (clock w) c \<Longrightarrow> expired_lock (goto p c d w)"
    and other_rem: "\<And>q. q \<noteq> p \<Longrightarrow> removing (clock w) (pcs w q) \<Longrightarrow> expired_lock (goto p c d w)"
  shows "locks_inv ms (goto p c d w)"
proof -
  note D = locks_invD [OF inv]
  let ?c = "(pcs w)(p := c)"
  have "\<forall>q s. inside (?c q) \<longrightarrow> inside (?c s) \<longrightarrow> q = s"
    using ins D(1) by (metis fun_upd_apply)
  moreover have "\<forall>q. inside (?c q) \<longrightarrow> link (marker_file d) \<noteq> None"
    using ins mark by auto
  moreover have "\<forall>q n i. grant (?c q) = Some (n, i) \<longrightarrow> clock w < n + ms q \<longrightarrow> link (lock_file d) = Some i"
  proof (intro allI impI)
    fix q n i
    assume "grant (?c q) = Some (n, i)" "clock w < n + ms q"
    then show "link (lock_file d) = Some i" using own [of n i] other [of q n i] by (cases "q = p") auto
  qed
  moreover have "\<forall>q n i. grant (?c q) = Some (n, i) \<longrightarrow> i < next_inode (lock_file d) \<and>
        (if written (?c q) then \<exists>r. contents (lock_file d) i = Some r \<and> record_expiresAt r = n + ms q
         else contents (lock_file d) i = None)"
    using own_file other_file D(5,6) by (simp split del: if_split) (simp split: if_splits)
  moreover have "\<forall>q s n m i. grant (?c q) = Some (n, i) \<longrightarrow> grant (?c s) = Some (m, i) \<longrightarrow> q = s"
    using own_file D(7) by (metis fun_upd_apply)
  moreover have "\<forall>q. removing (clock w) (?c q) \<longrightarrow> expired_lock (goto p c d w)"
    using rem other_rem by auto
  ultimately show ?thesis unfolding locks_inv_def removing_def goto_simps by (intro conjI)
qed

text \<open>A step that touches no file, grants nothing new and decides nothing.\<close>

lemma goto_still:
  assumes "locks_inv ms w" "inside c \<Longrightarrow> inside (pcs w p)" "grant c = None \<or> grant c = grant (pcs w p) \<and> written c = written (pcs w p)"
    "removing (clock w) c \<Longrightarrow> expired_lock w"
  shows "locks_inv ms (goto p c (files w) w)"
proof (rule goto_inv [OF assms(1)])
  note D = locks_invD [OF assms(1)]
  show "link (lock_file (files w)) = Some i \<or> n + ms p \<le> clock w" if "grant c = Some (n, i)" for n i
    using that assms(3) D(3) [of p n i] by fastforce
  show "i < next_inode (lock_file (files w)) \<and>
        (if written c then \<exists>r. contents (lock_file (files w)) i = Some r \<and> record_expiresAt r = n + ms p
         else contents (lock_file (files w)) i = None) \<and>
        (\<forall>q m. q \<noteq> p \<longrightarrow> grant (pcs w q) \<noteq> Some (m, i))" if "grant c = Some (n, i)" for n i
    using that assms(3) D(4-7) [of p n i] by auto
  show "expired_lock (goto p c (files w) w)" if "removing (clock w) (pcs w q)" for q
    using that D(8,9) by (auto simp: removing_def expired_lock_def)
qed (use assms locks_invD(2-4) [OF assms(1)] in \<open>auto simp: expired_lock_def\<close>)

lemma open_lock_inv:
  assumes inv: "locks_inv ms w" and pc: "pcs w p = OpenLock n again"
    and opened: "open_wx (lock_file (files w)) = Some (i, f)"
  shows "locks_inv ms (goto p (WriteRecord n i again) ((files w)\<lparr>lock_file := f\<rparr>) w)"
proof (rule goto_inv [OF inv])
  note D = locks_invD [OF inv] and o = open_wx_SomeD [OF opened]
  show "\<And>n' i'. grant (WriteRecord n i again) = Some (n', i') \<Longrightarrow> i' < next_inode (lock_file ((files w)\<lparr>lock_file := f\<rparr>)) \<and>
      (if written (WriteRecord n i again) then \<exists>r. contents (lock_file ((files w)\<lparr>lock_file := f\<rparr>)) i' = Some r \<and> record_expiresAt r = n' + ms p
       else contents (lock_file ((files w)\<lparr>lock_file := f\<rparr>)) i' = None) \<and>
      (\<forall>q m. q \<noteq> p \<longrightarrow> grant (pcs w q) \<noteq> Some (m, i'))"
    using o D(4) by (fastforce simp: grant_def written_def)
  show "link (lock_file ((files w)\<lparr>lock_file := f\<rparr>)) = Some j" if "grant (pcs w q) = Some (m, j)" "clock w < m + ms q" for q m j
    using o D(3) [OF that] by simp
  show "j < next_inode (lock_file ((files w)\<lparr>lock_file := f\<rparr>)) \<and>
      contents (lock_file ((files w)\<lparr>lock_file := f\<rparr>)) j = contents (lock_file (files w)) j"
    if "grant (pcs w q) = Some (m, j)" for q m j
    using o D(4) [OF that] by auto
  show "expired_lock (goto p (WriteRecord n i again) ((files w)\<lparr>lock_file := f\<rparr>) w)"
    if "removing (clock w) (pcs w q)" for q
    using that D(8) [of q] D(9) [of q] o by (auto simp: removing_def expired_lock_def)
  have same: "inside (pcs w p) = again" "inside (WriteRecord n i again) = again" using pc by (simp_all add: inside_def)
  show "link (marker_file ((files w)\<lparr>lock_file := f\<rparr>)) \<noteq> None \<and> (inside (pcs w p) \<or> (\<forall>q. \<not> inside (pcs w q)))"
    if "inside (WriteRecord n i again)" using that same D(2) [of p] by simp
  show "link (marker_file ((files w)\<lparr>lock_file := f\<rparr>)) \<noteq> None" if "inside (pcs w q)" for q
    using D(2) [OF that] by simp
qed (use open_wx_SomeD [OF opened] in \<open>simp_all add: grant_def removing_def\<close>)

lemma write_record_inv:
  assumes inv: "locks_inv ms w" and pc: "pcs w p = WriteRecord n i again"
    and c: "c = (if again then DropMarker (Some (n, i)) else Holding n i)"
  shows "locks_inv ms (goto p c ((files w)\<lparr>lock_file := write_file i (mk_record key (ms p) p n) (lock_file (files w))\<rparr>) w)"
proof (rule goto_inv [OF inv])
  note D = locks_invD [OF inv]
  have g: "grant (pcs w p) = Some (n, i)" "\<not> written (pcs w p)" "grant c = Some (n, i)" "written c"
    using pc c by (auto simp: grant_def written_def)
  have empty: "contents (lock_file (files w)) i = None" using D(6) g(1,2) by simp
  let ?d = "(files w)\<lparr>lock_file := write_file i (mk_record key (ms p) p n) (lock_file (files w))\<rparr>"
  show "link (lock_file ?d) = Some j \<or> m + ms p \<le> clock w" if "grant c = Some (m, j)" for m j
    using that g D(3) [OF g(1)] by fastforce
  show "j < next_inode (lock_file ?d) \<and>
      (if written c then \<exists>r. contents (lock_file ?d) j = Some r \<and> record_expiresAt r = m + ms p
       else contents (lock_file ?d) j = None) \<and> (\<forall>q m. q \<noteq> p \<longrightarrow> grant (pcs w q) \<noteq> Some (m, j))"
    if "grant c = Some (m, j)" for m j
  proof -
    have "m = n" "j = i" using that g(3) by simp_all
    then show ?thesis using g(4) D(4) [OF g(1)] D(7) [OF g(1)] by (fastforce simp: mk_record_def)
  qed
  show "j < next_inode (lock_file ?d) \<and> contents (lock_file ?d) j = contents (lock_file (files w)) j"
    if "q \<noteq> p" "grant (pcs w q) = Some (m, j)" for q m j
  proof -
    have "j \<noteq> i" using D(7) [OF that(2)] g(1) that(1) by auto
    then show ?thesis using D(4) [OF that(2)] by simp
  qed
  show "link (lock_file ?d) = Some j" if "grant (pcs w q) = Some (m, j)" "clock w < m + ms q" for q m j
    using D(3) [OF that] by simp
  show "expired_lock (goto p c ?d w)" if "removing (clock w) (pcs w q)" for q
  proof -
    have "expired_lock w" using that D(8,9) by (auto simp: removing_def)
    then show ?thesis using empty by (auto simp: expired_lock_def)
  qed
  have same: "inside (pcs w p) = again" "inside c = again" using pc c by (auto simp: inside_def)
  show "link (marker_file ?d) \<noteq> None \<and> (inside (pcs w p) \<or> (\<forall>q. \<not> inside (pcs w q)))" if "inside c"
    using that same D(2) [of p] by simp
  show "link (marker_file ?d) \<noteq> None" if "inside (pcs w q)" for q using D(2) [OF that] by simp
qed (use c in \<open>simp_all add: removing_def split: if_splits\<close>)

text \<open>Steps on the marker.\<close>

lemma marker_inv:
  assumes inv: "locks_inv ms w" and lock: "lock_file d = lock_file (files w)"
    and c: "inside c \<Longrightarrow> link (marker_file d) \<noteq> None \<and> (inside (pcs w p) \<or> (\<forall>q. \<not> inside (pcs w q)))"
    and others: "link (marker_file d) = None \<Longrightarrow> \<forall>q. q \<noteq> p \<longrightarrow> \<not> inside (pcs w q)"
    and g: "grant c = None \<or> grant c = grant (pcs w p) \<and> written c = written (pcs w p)"
    and r: "\<not> removing (clock w) c"
  shows "locks_inv ms (goto p c d w)"
proof (rule goto_inv [OF inv])
  note D = locks_invD [OF inv]
  show "link (lock_file d) = Some i \<or> n + ms p \<le> clock w" if "grant c = Some (n, i)" for n i
    using that g D(3) [of p n i] lock by fastforce
  show "i < next_inode (lock_file d) \<and>
        (if written c then \<exists>r. contents (lock_file d) i = Some r \<and> record_expiresAt r = n + ms p
         else contents (lock_file d) i = None) \<and>
        (\<forall>q m. q \<noteq> p \<longrightarrow> grant (pcs w q) \<noteq> Some (m, i))" if "grant c = Some (n, i)" for n i
    using that g D(4-7) [of p n i] lock by auto
  show "expired_lock (goto p c d w)" if "removing (clock w) (pcs w q)" for q
    using that D(8,9) lock by (auto simp: removing_def expired_lock_def)
qed (use locks_invD(3,4) [OF inv] c others lock r in auto)

text \<open>Removing the lock file: nobody holds a live lock.\<close>

lemma unlink_inv:
  assumes inv: "locks_inv ms w" and lock: "d = (files w)\<lparr>lock_file := rm_file (lock_file (files w))\<rparr>"
    and free: "\<And>q n i. q \<noteq> p \<Longrightarrow> grant (pcs w q) = Some (n, i) \<Longrightarrow> n + ms q \<le> clock w"
    and rem: "\<And>q. q \<noteq> p \<Longrightarrow> \<not> removing (clock w) (pcs w q)"
    and c: "grant c = None" "\<not> removing (clock w) c" "inside c \<Longrightarrow> inside (pcs w p)"
  shows "locks_inv ms (goto p c d w)"
proof (rule goto_inv [OF inv])
  show "link (lock_file d) = Some i" if "q \<noteq> p" "grant (pcs w q) = Some (n, i)" "clock w < n + ms q" for q n i
    using free [OF that(1,2)] that(3) by simp
qed (use locks_invD(2,4) [OF inv] lock rem c in auto)

lemma removing_simps [simp]:
  "removing t RemoveLock" "removing t (Recheck None) = False" "removing t (Recheck (Some r)) = (record_expiresAt r \<le> t)"
  "removing t Idle = False" "removing t (Stamp b) = False" "removing t (OpenLock n b) = False"
  "removing t ReadRecord = False" "removing t (CheckRecord x) = False" "removing t OpenMarker = False"
  "removing t ReadMarker = False" "removing t (CheckMarker m) = False" "removing t RemoveMarker = False"
  "removing t ReopenMarker = False" "removing t (WriteMarker i) = False" "removing t Reread = False"
  "removing t (DropMarker g) = False" "removing t (Holding n i) = False" "removing t Lost = False"
  "removing t Crashed = False"
  by (auto simp: removing_def)

lemma removing_inside: "removing t c \<Longrightarrow> inside c"
  by (auto simp: removing_def inside_def)

lemma removing_expired: "locks_inv ms w \<Longrightarrow> removing (clock w) (pcs w p) \<Longrightarrow> expired_lock w"
  using locks_invD(8,9) by (auto simp: removing_def)

lemma enter_section_inv:
  assumes inv: "locks_inv ms w" and opened: "open_wx (marker_file (files w)) = Some (i, f)"
  shows "locks_inv ms (goto p (WriteMarker i) ((files w)\<lparr>marker_file := f\<rparr>) w)"
proof (rule marker_inv [OF inv])
  have "\<not> inside (pcs w q)" for q
    using locks_invD(2) [OF inv, of q] open_wx_SomeD [OF opened] by auto
  then show "link (marker_file ((files w)\<lparr>marker_file := f\<rparr>)) \<noteq> None \<and> (inside (pcs w p) \<or> (\<forall>q. \<not> inside (pcs w q)))"
    using open_wx_SomeD [OF opened] by simp
qed (use open_wx_SomeD [OF opened] in \<open>simp_all add: grant_def\<close>)

lemma alone_inside: "locks_inv ms w \<Longrightarrow> inside (pcs w p) \<Longrightarrow> q \<noteq> p \<Longrightarrow> \<not> inside (pcs w q)"
  using locks_invD(1) by blast

lemma advance_inv:
  assumes inv: "locks_inv ms w" and ok: "careful ms (Act p) w"
  shows "locks_inv ms (advance key ms p w)"
proof (cases "pcs w p")
  case (OpenLock n again)
  show ?thesis
  proof (cases "open_wx (lock_file (files w))")
    case None
    then show ?thesis
      using goto_still [OF inv, of "if again then DropMarker None else ReadRecord" p] OpenLock
      by (auto simp: advance_def Let_def inside_def grant_def)
  next
    case (Some x)
    then show ?thesis using open_lock_inv [OF inv OpenLock] OpenLock by (cases x) (simp add: advance_def Let_def)
  qed
next
  case (WriteRecord n i again)
  show ?thesis
    using write_record_inv [OF inv WriteRecord refl] WriteRecord by (simp add: advance_def Let_def)
next
  case OpenMarker
  then show ?thesis
    using goto_still [OF inv, of ReadMarker p] enter_section_inv [OF inv]
    by (auto simp: advance_def Let_def inside_def grant_def split: option.splits)
next
  case ReopenMarker
  then show ?thesis
    using goto_still [OF inv, of Lost p] enter_section_inv [OF inv]
    by (auto simp: advance_def Let_def inside_def grant_def split: option.splits)
next
  case ReadMarker
  then show ?thesis
    using goto_still [OF inv, of ReopenMarker p] goto_still [OF inv, of "CheckMarker _" p]
    by (auto simp: advance_def Let_def inside_def grant_def split: option.splits)
next
  case (CheckMarker t)
  then show ?thesis
    using goto_still [OF inv, of RemoveMarker p] goto_still [OF inv, of Lost p]
    by (auto simp: advance_def Let_def inside_def grant_def)
next
  case RemoveMarker
  then have "locks_inv ms (goto p ReopenMarker ((files w)\<lparr>marker_file := rm_file (marker_file (files w))\<rparr>) w)"
    using ok by (intro marker_inv [OF inv]) (simp_all add: careful_def inside_def grant_def)
  then show ?thesis using RemoveMarker by (simp add: advance_def Let_def)
next
  case (WriteMarker i)
  have "locks_inv ms (goto p Reread ((files w)\<lparr>marker_file := write_file i (clock w) (marker_file (files w))\<rparr>) w)"
    using WriteMarker locks_invD(2) [OF inv, of p] alone_inside [OF inv, of p]
    by (intro marker_inv [OF inv]) (simp_all add: inside_def grant_def)
  then show ?thesis using WriteMarker by (simp add: advance_def Let_def)
next
  case Reread
  have "expired_lock w" if "removing (clock w) (Recheck (lock_read (files w)))"
    using that by (auto simp: lock_read_def read_file_def expired_lock_def removing_def split: option.splits)
  then show ?thesis
    using goto_still [OF inv, of "Recheck (lock_read (files w))" p] Reread
    by (auto simp: advance_def Let_def inside_def grant_def)
next
  case (Recheck r)
  then obtain x where r: "r = Some x" using ok by (cases r) (simp_all add: careful_def)
  have "expired_lock w" if "\<not> live_record (clock w) r"
    using that r Recheck removing_expired [OF inv, of p] by (simp add: live_record_def)
  then show ?thesis
    using goto_still [OF inv, of RemoveLock p] goto_still [OF inv, of "DropMarker None" p] Recheck
    by (auto simp: advance_def Let_def inside_def grant_def)
next
  case RemoveLock
  have ex: "expired_lock w" using removing_expired [OF inv, of p] RemoveLock by simp
  have "locks_inv ms (goto p (Stamp True) ((files w)\<lparr>lock_file := rm_file (lock_file (files w))\<rparr>) w)"
  proof (rule unlink_inv [OF inv refl])
    have "inside (pcs w p)" using RemoveLock by (simp add: inside_def)
    then show "\<not> removing (clock w) (pcs w q)" if "q \<noteq> p" for q
      using removing_inside alone_inside [OF inv] that by blast
  qed (use expired_lock_free [OF inv ex] RemoveLock in \<open>simp_all add: inside_def grant_def\<close>)
  then show ?thesis using RemoveLock by (simp add: advance_def Let_def)
next
  case (DropMarker g)
  have "inside (pcs w p)" using DropMarker by (simp add: inside_def)
  then have "locks_inv ms (goto p (case g of None \<Rightarrow> Lost | Some (n, i) \<Rightarrow> Holding n i)
      ((files w)\<lparr>marker_file := rm_file (marker_file (files w))\<rparr>) w)"
    using alone_inside [OF inv, of p] DropMarker
    by (intro marker_inv [OF inv]) (auto simp: inside_def grant_def written_def split: option.splits)
  then show ?thesis using DropMarker by (simp add: advance_def Let_def)
next
  case (Stamp again)
  then show ?thesis
    using goto_still [OF inv, of "OpenLock (clock w) again" p] by (simp add: advance_def Let_def inside_def grant_def)
next
  case ReadRecord
  then show ?thesis
    using goto_still [OF inv, of "CheckRecord _" p] by (simp add: advance_def Let_def inside_def grant_def)
next
  case (CheckRecord r)
  then show ?thesis
    using goto_still [OF inv, of Lost p] goto_still [OF inv, of OpenMarker p]
    by (simp add: advance_def Let_def inside_def grant_def)
qed (use inv in \<open>simp_all add: advance_def Let_def\<close>)

lemma tick_inv:
  assumes inv: "locks_inv ms w" and ok: "careful ms (Tick d) w"
  shows "locks_inv ms (w\<lparr>clock := clock w + int d\<rparr>)"
proof -
  note D = locks_invD [OF inv]
  have "expired_lock (w\<lparr>clock := clock w + int d\<rparr>)" if "removing (clock w + int d) (pcs w p)" for p
  proof -
    have "expired_lock w" using that ok D(8) by (auto simp: removing_def careful_def)
    then show ?thesis by (auto simp: expired_lock_def)
  qed
  moreover have "link (lock_file (files w)) = Some i"
    if "grant (pcs w p) = Some (n, i)" "clock w + int d < n + ms p" for p n i
    using that D(3) [of p n i] by simp
  ultimately show ?thesis using inv unfolding locks_inv_def removing_def by simp
qed

lemma release_lock_inv:
  assumes inv: "locks_inv ms w" and ok: "holds_lock ms w p"
  shows "locks_inv ms (goto p Idle (lock_release (files w)) w)"
  unfolding lock_release_def
proof (rule unlink_inv [OF inv refl])
  obtain n i where p: "pcs w p = Holding n i" "clock w < n + ms p"
    using ok by (auto simp: holds_lock_def split: pc.splits)
  then have g: "grant (pcs w p) = Some (n, i)" by (simp add: grant_def)
  have l: "link (lock_file (files w)) = Some i" using locks_invD(3) [OF inv g p(2)] .
  show "m + ms q \<le> clock w" if "q \<noteq> p" "grant (pcs w q) = Some (m, j)" for q m j
    using locks_invD(3) [OF inv that(2)] locks_invD(7) [OF inv that(2), of p n] l g that(1) by fastforce
  show "\<not> removing (clock w) (pcs w q)" for q
    using removing_expired [OF inv, of q] expired_lock_free [OF inv _ g] p(2) by fastforce
qed (simp_all add: inside_def grant_def)

lemma careful_reach_inv: "careful_reach key ms w \<Longrightarrow> locks_inv ms w"
proof (induction rule: careful_reach.induct)
  case (initially now)
  then show ?case by (simp add: locks_inv_def start_world_def inside_def grant_def)
next
  case (happens w e)
  then show ?case
  proof (cases e)
    case (Start p)
    then show ?thesis using happens goto_still [OF happens(4), of "Stamp False" p]
      by (simp add: occur_def inside_def grant_def)
  next
    case (Crash p)
    then show ?thesis using happens goto_still [OF happens(4), of Crashed p]
      by (simp add: occur_def inside_def grant_def)
  qed (auto simp: occur_def careful_def advance_inv tick_inv release_lock_inv)
qed


fun all_careful :: "string \<Rightarrow> (nat \<Rightarrow> int) \<Rightarrow> event list \<Rightarrow> World \<Rightarrow> bool" where
  "all_careful key ms [] w = True"
| "all_careful key ms (e # es) w = (careful ms e w \<and> all_careful key ms es (occur key ms e w))"

lemma careful_run_reach:
  "careful_reach key ms w \<Longrightarrow> run_events key ms es w = Some w' \<Longrightarrow> all_careful key ms es w \<Longrightarrow> careful_reach key ms w'"
  by (induction es arbitrary: w) (auto split: if_splits intro: careful_reach.happens)

text \<open>
  A dead holder's lock is reclaimed: process 1 dies, its lock expires, processes 2 and 3 contend
  for the marker and process 2 gets the lock.
\<close>

definition after_crash :: "event list" where
  "after_crash = [Start 1, Act 1, Act 1, Act 1, Crash 1, Tick 7, Start 2, Act 2, Act 2, Act 2, Act 2, Act 2,
     Start 3, Act 3, Act 3, Act 3, Act 3, Act 3, Act 3, Act 3] @ replicate 8 (Act 2)"


end
