(* ===== verification/ScheduleRun.thy ===== *)
theory ScheduleRun
  imports ScheduledTasks ScheduleLocks "HOL-Library.Multiset"
begin

text \<open>
  A tick of the scheduler: \<open>framework/schedule/src/run-due-tasks.ts\<close> over any locker.  The
  application's state is a type variable with a clock; log entries carry what the code logs.  A
  background task is one unit, like a foreground task, at a place in the order that is an argument.
\<close>

section \<open>One task\<close>

datatype log_entry =
    NotEvaluated string schedule_error
  | FilterFailed string string
  | OneServerLockFailed string string
  | ClaimedByAnotherServer string
  | OverlapLockFailed string string
  | SkippedOverlapping string
  | TaskFailed string string
  | ReleaseFailed string string

text \<open>The state of a tick; \<open>ran\<close> records which callbacks were called, in order.\<close>

record ('s, 'w) Tick =
  locks :: 's
  world :: 'w
  ran :: "'w ScheduledTask list"
  logged :: "log_entry list"

definition log :: "log_entry \<Rightarrow> ('s, 'w) Tick \<Rightarrow> ('s, 'w) Tick" where
  "log e r = r\<lparr>logged := logged r @ [e]\<rparr>"

definition releaseOverlap ::
  "('w \<Rightarrow> int) \<Rightarrow> 's Locker \<Rightarrow> 'w ScheduledTask \<Rightarrow> string option \<Rightarrow> ('s, 'w) Tick \<Rightarrow> ('s, 'w) Tick" where
  "releaseOverlap clk locker task overlapKey r =
     (case overlapKey of
        None \<Rightarrow> r
      | Some key \<Rightarrow>
          (let (err, s) = lk_release locker key (clk (world r)) (locks r); r' = r\<lparr>locks := s\<rparr> in
           case err of None \<Rightarrow> r' | Some e \<Rightarrow> log (ReleaseFailed (getDescription task) e) r'))"

text \<open>The callback, its error swallowed, and the release in the \<open>finally\<close> block.\<close>

definition callTask ::
  "('w \<Rightarrow> int) \<Rightarrow> 's Locker \<Rightarrow> 'w ScheduledTask \<Rightarrow> string option \<Rightarrow> ('s, 'w) Tick \<Rightarrow> ('s, 'w) Tick" where
  "callTask clk locker task overlapKey r =
     (let (err, w) = callback task (world r);
          r1 = r\<lparr>world := w, ran := ran r @ [task]\<rparr>;
          r2 = (case err of None \<Rightarrow> r1 | Some e \<Rightarrow> log (TaskFailed (getDescription task) e) r1) in
      releaseOverlap clk locker task overlapKey r2)"

definition withOverlapLock ::
  "('w \<Rightarrow> int) \<Rightarrow> 's Locker \<Rightarrow> 'w ScheduledTask \<Rightarrow> ('s, 'w) Tick \<Rightarrow> ('s, 'w) Tick" where
  "withOverlapLock clk locker task r =
     (case getOverlapKey task of
        None \<Rightarrow> callTask clk locker task None r
      | Some key \<Rightarrow>
          (case lk_acquire locker key (overlapExpiresAfterMinutes task * 60000) (clk (world r)) (locks r) of
             (Inl e, s) \<Rightarrow> log (OverlapLockFailed (getDescription task) e) (r\<lparr>locks := s\<rparr>)
           | (Inr acquired, s) \<Rightarrow>
               if \<not> acquired then log (SkippedOverlapping (getDescription task)) (r\<lparr>locks := s\<rparr>)
               else callTask clk locker task (Some key) (r\<lparr>locks := s\<rparr>)))"

definition withOneServerLock ::
  "('w \<Rightarrow> int) \<Rightarrow> 's Locker \<Rightarrow> int \<Rightarrow> 'w ScheduledTask \<Rightarrow> ('s, 'w) Tick \<Rightarrow> ('s, 'w) Tick" where
  "withOneServerLock clk locker at_time task r =
     (case getOneServerKey at_time task of
        None \<Rightarrow> withOverlapLock clk locker task r
      | Some key \<Rightarrow>
          (case lk_acquire locker key (oneServerExpiresAfterMinutes task * 60000) (clk (world r)) (locks r) of
             (Inl e, s) \<Rightarrow> log (OneServerLockFailed (getDescription task) e) (r\<lparr>locks := s\<rparr>)
           | (Inr claimed, s) \<Rightarrow>
               if \<not> claimed then log (ClaimedByAnotherServer (getDescription task)) (r\<lparr>locks := s\<rparr>)
               else withOverlapLock clk locker task (r\<lparr>locks := s\<rparr>)))"

definition runTask ::
  "('w \<Rightarrow> int) \<Rightarrow> 's Locker \<Rightarrow> int \<Rightarrow> 'w ScheduledTask \<Rightarrow> ('s, 'w) Tick \<Rightarrow> ('s, 'w) Tick" where
  "runTask clk locker at_time task r =
     (case filtersPass task (world r) of
        (Inl e, w) \<Rightarrow> log (FilterFailed (getDescription task) e) (r\<lparr>world := w\<rparr>)
      | (Inr passed, w) \<Rightarrow>
          if \<not> passed then r\<lparr>world := w\<rparr> else withOneServerLock clk locker at_time task (r\<lparr>world := w\<rparr>))"

section \<open>The tick\<close>

definition runTasks ::
  "('w \<Rightarrow> int) \<Rightarrow> 's Locker \<Rightarrow> int \<Rightarrow> 'w ScheduledTask list \<Rightarrow> ('s, 'w) Tick \<Rightarrow> ('s, 'w) Tick" where
  "runTasks clk locker at_time tasks r = foldl (\<lambda>r task. runTask clk locker at_time task r) r tasks"

definition runDueTasks ::
  "('w \<Rightarrow> int) \<Rightarrow> 's Locker \<Rightarrow> (int \<Rightarrow> int) \<Rightarrow> ('w ScheduledTask list \<Rightarrow> 'w ScheduledTask list) \<Rightarrow> int
     \<Rightarrow> 'w ScheduledTask list \<Rightarrow> ('s, 'w) Tick \<Rightarrow> ('s, 'w) Tick" where
  "runDueTasks clk locker server arrange at_time tasks r =
     (let (due, errors) = dueTasks at_time server tasks in
      runTasks clk locker at_time (arrange due)
        (foldl (\<lambda>r (task, e). log (NotEvaluated (getDescription task) e) r) r errors))"

text \<open>
  The locker of a run.  The store that a name resolves to is known by its class name; the messages
  of the warnings are left out.
\<close>

datatype locker_choice = Files | CacheStoreNamed string

datatype locker_warning = NoCacheRegistered string | StoreUnresolved string string | StoreInMemory string

definition resolveLocker ::
  "string option \<Rightarrow> bool \<Rightarrow> (string \<Rightarrow> string + string) \<Rightarrow> locker_choice \<times> locker_warning list" where
  "resolveLocker lockStore has_cache resolve_store =
     (case lockStore of
        None \<Rightarrow> (Files, [])
      | Some storeName \<Rightarrow>
          if \<not> has_cache then (Files, [NoCacheRegistered storeName])
          else (case resolve_store storeName of
              Inl e \<Rightarrow> (Files, [StoreUnresolved storeName e])
            | Inr class_name \<Rightarrow>
                if class_name = ''ArrayCacheStore'' then (Files, [StoreInMemory storeName])
                else (CacheStoreNamed storeName, [])))"

section \<open>The locks of a schedule\<close>

definition lock_keys :: "int \<Rightarrow> 'w ScheduledTask \<Rightarrow> string list" where
  "lock_keys at_time task =
     (case getOneServerKey at_time task of None \<Rightarrow> [] | Some k \<Rightarrow> [k]) @
     (case getOverlapKey task of None \<Rightarrow> [] | Some k \<Rightarrow> [k])"

definition named_keys :: "int \<Rightarrow> string \<Rightarrow> string set" where
  "named_keys at_time n = {''schedule-overlap:'' @ n, ''schedule-one-server:'' @ n @ '':'' @ utc_minute at_time}"

lemma named_keys_apart: "m \<noteq> n \<Longrightarrow> A \<subseteq> named_keys t m \<Longrightarrow> B \<subseteq> named_keys t n \<Longrightarrow> A \<inter> B = {}"
proof -
  assume "m \<noteq> n" "A \<subseteq> named_keys t m" "B \<subseteq> named_keys t n"
  moreover have "named_keys t m \<inter> named_keys t n = {}" using \<open>m \<noteq> n\<close> by (simp add: named_keys_def)
  ultimately show ?thesis by blast
qed

lemma lock_keys_named:
  assumes "overlapping task \<or> oneServer task \<longrightarrow> getName task = Some n"
  shows "set (lock_keys at_time task) \<subseteq> named_keys at_time n"
    and "distinct (lock_keys at_time task)"
  using assms by (auto simp: named_keys_def lock_keys_def getOneServerKey_def getOverlapKey_def split: option.splits if_splits)

text \<open>A schedule that validates gives every lock its own key.\<close>

lemma validate_loop_keys:
  assumes "validate_loop seen tasks = Inr ()"
  shows "distinct (concat (map (lock_keys at_time) tasks)) \<and>
    (\<forall>task \<in> set tasks. lock_keys at_time task \<noteq> [] \<longrightarrow> (\<exists>n. getName task = Some n \<and> n \<notin> set seen))"
  using assms
proof (induction tasks arbitrary: seen)
  case (Cons task tasks)
  show ?case
  proof (cases "overlapping task \<or> oneServer task")
    case False
    then have "lock_keys at_time task = []" by (simp add: lock_keys_def getOneServerKey_def getOverlapKey_def)
    then show ?thesis using Cons False by simp
  next
    case True
    then obtain n where n: "getName task = Some n" "n \<notin> set seen" "validate_loop (set_add n seen) tasks = Inr ()"
      using Cons.prems by (auto split: option.splits if_splits)
    note IH = Cons.IH [OF n(3)]
    have own: "set (lock_keys at_time task) \<subseteq> named_keys at_time n" "distinct (lock_keys at_time task)"
      using lock_keys_named [of task n] n(1) by simp_all
    have "set (lock_keys at_time task) \<inter> set (lock_keys at_time t) = {}" if t: "t \<in> set tasks" for t
    proof (cases "lock_keys at_time t = []")
      case False
      then obtain m where m: "getName t = Some m" "m \<noteq> n" using IH t by auto
      then have "set (lock_keys at_time t) \<subseteq> named_keys at_time m" using lock_keys_named(1) [of t m] by simp
      then show ?thesis using named_keys_apart [OF not_sym [OF m(2)] own(1)] by simp
    qed simp
    then show ?thesis using IH own(2) n(1,2) by auto
  qed
qed simp

section \<open>What a tick runs\<close>

text \<open>Between two times the locks of some keys are seen held or free, as \<open>H\<close> says.\<close>

definition steady ::
  "(int \<Rightarrow> 's \<Rightarrow> string \<Rightarrow> bool) \<Rightarrow> int \<Rightarrow> int \<Rightarrow> 's \<Rightarrow> string set \<Rightarrow> (string \<Rightarrow> bool) \<Rightarrow> bool" where
  "steady seen t0 t1 s K H \<longleftrightarrow> (\<forall>k \<in> K. \<forall>t. t0 \<le> t \<longrightarrow> t \<le> t1 \<longrightarrow> seen t s k = H k)"

lemma steady_mono: "steady seen t0 t1 s K H \<Longrightarrow> t0 \<le> t \<Longrightarrow> K' \<subseteq> K \<Longrightarrow> steady seen t t1 s K' H"
  by (auto simp: steady_def)

lemma log_simps [simp]:
  "locks (log e r) = locks r" "world (log e r) = world r" "ran (log e r) = ran r"
  by (simp_all add: log_def)

text \<open>The clock never goes back over a task's callback and filters.\<close>

definition keeps_time :: "('w \<Rightarrow> int) \<Rightarrow> 'w ScheduledTask \<Rightarrow> bool" where
  "keeps_time clk task \<longleftrightarrow>
     (\<forall>w. clk w \<le> clk (snd (callback task w))) \<and> (\<forall>w. clk w \<le> clk (snd (filtersPass task w)))"

lemma callTask_time: "keeps_time clk task \<Longrightarrow> clk (world r) \<le> clk (world (callTask clk locker task key r))"
  by (auto simp: callTask_def releaseOverlap_def keeps_time_def Let_def split: prod.splits option.splits)
    (metis snd_conv)+

lemma withOverlapLock_time:
  "keeps_time clk task \<Longrightarrow> clk (world r) \<le> clk (world (withOverlapLock clk locker task r))"
  using callTask_time [of clk task r locker None] callTask_time [of clk task "r\<lparr>locks := _\<rparr>" locker]
  by (auto simp: withOverlapLock_def split: prod.splits option.splits sum.splits)

lemma withOneServerLock_time:
  "keeps_time clk task \<Longrightarrow> clk (world r) \<le> clk (world (withOneServerLock clk locker at_time task r))"
  using withOverlapLock_time [of clk task r locker] withOverlapLock_time [of clk task "r\<lparr>locks := _\<rparr>" locker]
  by (auto simp: withOneServerLock_def split: prod.splits option.splits sum.splits)

lemma filters_time: "keeps_time clk task \<Longrightarrow> filtersPass task w = (res, w') \<Longrightarrow> clk w \<le> clk w'"
  unfolding keeps_time_def by (metis snd_conv)

lemma runTask_time:
  assumes "keeps_time clk task"
  shows "clk (world r) \<le> clk (world (runTask clk locker at_time task r))"
proof -
  obtain res w where f: "filtersPass task (world r) = (res, w)" by fastforce
  show ?thesis
    using filters_time [OF assms f] withOneServerLock_time [OF assms, of "r\<lparr>world := w\<rparr>" locker at_time] f
    by (auto simp: runTask_def split: sum.splits)
qed

text \<open>A list of tasks whose locks have keys of their own; \<open>H\<close> says which were taken before.\<close>

definition runnable ::
  "(string \<Rightarrow> bool) \<Rightarrow> ('w ScheduledTask \<Rightarrow> bool) \<Rightarrow> int \<Rightarrow> 'w ScheduledTask \<Rightarrow> bool" where
  "runnable H verdict at_time task \<longleftrightarrow> verdict task \<and> (\<forall>k \<in> set (lock_keys at_time task). \<not> H k)"

definition keys_of_all :: "int \<Rightarrow> 'w ScheduledTask list \<Rightarrow> string set" where
  "keys_of_all at_time tasks = set (concat (map (lock_keys at_time) tasks))"

definition released_keys :: "'w ScheduledTask list \<Rightarrow> string set" where
  "released_keys tasks = {k. \<exists>task \<in> set tasks. getOverlapKey task = Some k}"

lemma runTasks_simps [simp]:
  "runTasks clk locker at_time [] r = r"
  "runTasks clk locker at_time (t # ts) r = runTasks clk locker at_time ts (runTask clk locker at_time t r)"
  by (simp_all add: runTasks_def)

lemma runTasks_time:
  "\<forall>task \<in> set ts. keeps_time clk task \<Longrightarrow> clk (world r) \<le> clk (world (runTasks clk locker at_time ts r))"
  by (induction ts arbitrary: r) (auto intro: order_trans [OF runTask_time])

context schedule_locker begin

lemma acquire_steady:
  assumes "quiet s" "steady held now t1 s K H" "\<forall>k' \<in> K. apart k k'"
  shows "steady held now t1 (snd (lk_acquire locker k ms now s)) K H"
  using assms acquire_frame by (auto simp: steady_def)

lemma refused_steady:
  assumes "quiet s" "steady held now t1 s K H" "held now s k"
  shows "steady held now t1 (snd (lk_acquire locker k ms now s)) K H"
  using assms acquire_refused by (auto simp: steady_def)

lemma release_steady:
  assumes "quiet s" "steady held now t1 s K H" "\<forall>k' \<in> K. apart k k'"
  shows "steady held now t1 (snd (lk_release locker k now s)) K H"
  using assms release_frame by (auto simp: steady_def)

text \<open>The callback under an overlap lock that was just acquired, or under none.\<close>

lemma callTask_spec:
  assumes q: "quiet (locks r)" and time: "keeps_time clk task"
    and st: "steady held (clk (world r)) t1 (locks r) K H" and ap: "\<And>k. key = Some k \<Longrightarrow> \<forall>k' \<in> K. apart k k'"
    and own: "\<And>k t. key = Some k \<Longrightarrow> clk (world r) \<le> t \<Longrightarrow> t \<le> t1 \<Longrightarrow> owns t (locks r) k"
    and r': "r' = callTask clk locker task key r" and ends: "clk (world r') \<le> t1"
  shows "quiet (locks r') \<and> ran r' = ran r @ [task] \<and>
    steady held (clk (world r')) t1 (locks r') K H \<and>
    (\<forall>k t. key = Some k \<longrightarrow> clk (world r') \<le> t \<longrightarrow> \<not> held t (locks r') k)"
proof -
  obtain err w where cb: "callback task (world r) = (err, w)" by fastforce
  have mono: "clk (world r) \<le> clk (world r')" unfolding r' using callTask_time [OF time] .
  note st' = steady_mono [OF st mono subset_refl]
  show ?thesis
  proof (cases key)
    case None
    then have "locks r' = locks r" "ran r' = ran r @ [task]"
      using r' cb by (cases err; simp add: callTask_def releaseOverlap_def Let_def)+
    then show ?thesis using q st' None by simp
  next
    case (Some k)
    have w: "world r' = w" "ran r' = ran r @ [task]" "locks r' = snd (lk_release locker k (clk w) (locks r))"
      using r' Some cb by (cases err; simp add: callTask_def releaseOverlap_def Let_def split: prod.splits option.splits)+
    have "steady held (clk w) t1 (locks r') K H"
      using release_steady [OF q _ ap [OF Some]] st' w by simp
    moreover have "owns (clk w) (locks r) k" using own [OF Some] mono ends w by simp
    ultimately show ?thesis using w q release_quiet release_own Some by auto
  qed
qed

lemma acquire_cases:
  assumes "quiet s" "lk_acquire locker k ms now s = (res, s')"
  shows "res = Inr (\<not> held now s k)" "quiet s'" "s' = snd (lk_acquire locker k ms now s)"
  using assms acquire_result [OF assms(1), of k ms now] acquire_quiet [OF assms(1), of k ms now] by simp_all

lemma withOverlapLock_spec:
  assumes q: "quiet (locks r)" and time: "keeps_time clk task"
    and st: "steady held (clk (world r)) t1 (locks r) K H"
    and ap: "\<And>k. getOverlapKey task = Some k \<Longrightarrow> k \<in> K \<and> (\<forall>k' \<in> K - {k}. apart k k')"
    and long: "getOverlapKey task \<noteq> None \<Longrightarrow> t1 < clk (world r) + overlapExpiresAfterMinutes task * 60000"
    and r': "r' = withOverlapLock clk locker task r" and ends: "clk (world r') \<le> t1"
    and free: "free = (\<forall>k. getOverlapKey task = Some k \<longrightarrow> \<not> H k)"
  shows "quiet (locks r') \<and> ran r' = ran r @ (if free then [task] else []) \<and>
    steady held (clk (world r')) t1 (locks r') (K - set_option (getOverlapKey task)) H \<and>
    (\<forall>k t. free \<longrightarrow> getOverlapKey task = Some k \<longrightarrow> clk (world r') \<le> t \<longrightarrow> \<not> held t (locks r') k)"
proof (cases "getOverlapKey task")
  case None
  then have r2: "r' = callTask clk locker task None r" using r' by (simp add: withOverlapLock_def)
  show ?thesis using callTask_spec [OF q time st _ _ r2 ends] free None by simp
next
  case (Some k)
  have now: "clk (world r) \<le> t1" using withOverlapLock_time [OF time, of r locker] ends r' by simp
  note k = ap [OF Some]
  have H: "held (clk (world r)) (locks r) k = H k" using st k now by (simp add: steady_def)
  obtain res s where acq: "lk_acquire locker k (overlapExpiresAfterMinutes task * 60000) (clk (world r)) (locks r) = (res, s)"
    by fastforce
  note s = acquire_cases [OF q acq]
  have st': "steady held (clk (world r)) t1 s (K - {k}) H"
    unfolding s(3) using k by (intro acquire_steady [OF q steady_mono [OF st order_refl]]) auto
  show ?thesis
  proof (cases "H k")
    case True
    then have "r' = log (SkippedOverlapping (getDescription task)) (r\<lparr>locks := s\<rparr>)"
      using r' Some acq s(1) H by (simp add: withOverlapLock_def)
    then show ?thesis using s(2) st' free Some True by simp
  next
    case False
    have own: "owns t s k" if "clk (world r) \<le> t" "t \<le> t1" for t
      unfolding s(3) using H False long Some that by (intro acquire_owns [OF q]) auto
    have r2: "r' = callTask clk locker task (Some k) (r\<lparr>locks := s\<rparr>)"
      using r' Some acq s(1) H False by (simp add: withOverlapLock_def)
    have "quiet (locks r') \<and> ran r' = ran (r\<lparr>locks := s\<rparr>) @ [task] \<and>
        steady held (clk (world r')) t1 (locks r') (K - {k}) H \<and>
        (\<forall>k' t. Some k = Some k' \<longrightarrow> clk (world r') \<le> t \<longrightarrow> \<not> held t (locks r') k')"
      by (rule callTask_spec [OF _ time _ _ _ r2 ends]) (use s(2) st' k own in auto)
    then show ?thesis using free Some False by simp
  qed
qed

lemma withOneServerLock_spec:
  assumes q: "quiet (locks r)" and time: "keeps_time clk task"
    and st: "steady held (clk (world r)) t1 (locks r) K H" and keys: "set (lock_keys at_time task) \<subseteq> K"
    and dist: "distinct (lock_keys at_time task)"
    and ap: "\<And>k k'. k \<in> K \<Longrightarrow> k' \<in> K \<Longrightarrow> k \<noteq> k' \<Longrightarrow> apart k k'"
    and long: "getOverlapKey task \<noteq> None \<Longrightarrow> t1 < clk (world r) + overlapExpiresAfterMinutes task * 60000"
    and r': "r' = withOneServerLock clk locker at_time task r" and ends: "clk (world r') \<le> t1"
    and free: "free = (\<forall>k \<in> set (lock_keys at_time task). \<not> H k)"
  shows "quiet (locks r') \<and> ran r' = ran r @ (if free then [task] else []) \<and>
    steady held (clk (world r')) t1 (locks r') (K - set (lock_keys at_time task)) H \<and>
    (\<forall>k t. free \<longrightarrow> getOverlapKey task = Some k \<longrightarrow> clk (world r') \<le> t \<longrightarrow> \<not> held t (locks r') k)"
proof (cases "getOneServerKey at_time task")
  case None
  then have r2: "r' = withOverlapLock clk locker task r" and ks: "set (lock_keys at_time task) = set_option (getOverlapKey task)"
    using r' by (auto simp: withOneServerLock_def lock_keys_def split: option.splits)
  show ?thesis
    unfolding ks by (rule withOverlapLock_spec [OF q time st _ long r2 ends]) (use keys ap free ks in auto)
next
  case (Some k)
  have now: "clk (world r) \<le> t1" using withOneServerLock_time [OF time, of r locker at_time] ends r' by simp
  have ks: "set (lock_keys at_time task) = insert k (set_option (getOverlapKey task))" "k \<notin> set_option (getOverlapKey task)"
    using Some dist by (auto simp: lock_keys_def split: option.splits)
  have k: "k \<in> K" using keys ks by simp
  have H: "held (clk (world r)) (locks r) k = H k" using st k now by (simp add: steady_def)
  obtain res s where acq: "lk_acquire locker k (oneServerExpiresAfterMinutes task * 60000) (clk (world r)) (locks r) = (res, s)"
    by fastforce
  note s = acquire_cases [OF q acq]
  have st': "steady held (clk (world r)) t1 s (K - {k}) H"
    unfolding s(3) using k ap by (intro acquire_steady [OF q steady_mono [OF st order_refl]]) auto
  show ?thesis
  proof (cases "H k")
    case True
    then have "r' = log (ClaimedByAnotherServer (getDescription task)) (r\<lparr>locks := s\<rparr>)"
      using r' Some acq s(1) H by (simp add: withOneServerLock_def)
    then show ?thesis using s(2) steady_mono [OF st' order_refl, of "K - set (lock_keys at_time task)"] free ks True by auto
  next
    case False
    have r2: "r' = withOverlapLock clk locker task (r\<lparr>locks := s\<rparr>)"
      using r' Some acq s(1) H False by (simp add: withOneServerLock_def)
    have D: "K - set (lock_keys at_time task) = K - {k} - set_option (getOverlapKey task)" using ks by auto
    have "quiet (locks r') \<and> ran r' = ran (r\<lparr>locks := s\<rparr>) @ (if free then [task] else []) \<and>
      steady held (clk (world r')) t1 (locks r') (K - {k} - set_option (getOverlapKey task)) H \<and>
      (\<forall>k t. free \<longrightarrow> getOverlapKey task = Some k \<longrightarrow> clk (world r') \<le> t \<longrightarrow> \<not> held t (locks r') k)"
      by (rule withOverlapLock_spec [OF _ time _ _ _ r2 ends]) (use s(2) st' ks keys ap long free False in auto)
    then show ?thesis unfolding D by simp
  qed
qed

lemma runTask_spec:
  assumes q: "quiet (locks r)" and time: "keeps_time clk task"
    and st: "steady held (clk (world r)) t1 (locks r) K H" and keys: "set (lock_keys at_time task) \<subseteq> K"
    and dist: "distinct (lock_keys at_time task)"
    and ap: "\<And>k k'. k \<in> K \<Longrightarrow> k' \<in> K \<Longrightarrow> k \<noteq> k' \<Longrightarrow> apart k k'"
    and long: "getOverlapKey task \<noteq> None \<Longrightarrow> t1 < clk (world r) + overlapExpiresAfterMinutes task * 60000"
    and r': "r' = runTask clk locker at_time task r" and ends: "clk (world r') \<le> t1"
    and runs: "runs = (fst (filtersPass task (world r)) = Inr True \<and> (\<forall>k \<in> set (lock_keys at_time task). \<not> H k))"
  shows "quiet (locks r') \<and> ran r' = ran r @ (if runs then [task] else []) \<and>
    steady held (clk (world r')) t1 (locks r') (K - set (lock_keys at_time task)) H \<and>
    (\<forall>k t. runs \<longrightarrow> getOverlapKey task = Some k \<longrightarrow> clk (world r') \<le> t \<longrightarrow> \<not> held t (locks r') k)"
proof -
  obtain res w where f: "filtersPass task (world r) = (res, w)" by fastforce
  note mono = filters_time [OF time f]
  show ?thesis
  proof (cases "res = Inr True")
    case False
    then have "locks r' = locks r" "world r' = w" "ran r' = ran r"
      using r' f by (auto simp: runTask_def split: sum.splits bool.splits)
    then show ?thesis using q steady_mono [OF st mono Diff_subset] runs f False by simp
  next
    case True
    let ?r = "r\<lparr>world := w\<rparr>"
    have r1: "r' = withOneServerLock clk locker at_time task ?r" using r' f True by (simp add: runTask_def)
    have "quiet (locks r') \<and> ran r' = ran ?r @ (if runs then [task] else []) \<and>
      steady held (clk (world r')) t1 (locks r') (K - set (lock_keys at_time task)) H \<and>
      (\<forall>k t. runs \<longrightarrow> getOverlapKey task = Some k \<longrightarrow> clk (world r') \<le> t \<longrightarrow> \<not> held t (locks r') k)"
    proof (rule withOneServerLock_spec [OF _ time _ keys dist ap _ r1 ends])
      show "steady held (clk (world ?r)) t1 (locks ?r) K H" using steady_mono [OF st mono subset_refl] by simp
    qed (use q long mono runs f True in auto)
    then show ?thesis by simp
  qed
qed

lemma runTasks_spec:
  assumes "quiet (locks r)" "\<forall>task \<in> set ts. keeps_time clk task"
    and "steady held (clk (world r)) t1 (locks r) K H" "keys_of_all at_time ts \<subseteq> K"
    and "distinct (concat (map (lock_keys at_time) ts))"
    and "\<And>k k'. k \<in> K \<Longrightarrow> k' \<in> K \<Longrightarrow> k \<noteq> k' \<Longrightarrow> apart k k'"
    and "\<forall>task \<in> set ts. getOverlapKey task \<noteq> None \<longrightarrow> t1 < clk (world r) + overlapExpiresAfterMinutes task * 60000"
    and "\<forall>task \<in> set ts. \<forall>w. (fst (filtersPass task w) = Inr True) = verdict task"
    and "r' = runTasks clk locker at_time ts r" "clk (world r') \<le> t1"
  shows "quiet (locks r') \<and> ran r' = ran r @ filter (runnable H verdict at_time) ts \<and>
    steady held (clk (world r')) t1 (locks r')
      (K - keys_of_all at_time ts \<union> released_keys (filter (runnable H verdict at_time) ts)) H"
  using assms
proof (induction ts arbitrary: r K)
  case Nil
  then show ?case by (simp add: keys_of_all_def released_keys_def)
next
  case (Cons t ts)
  let ?r = "runTask clk locker at_time t r"
  let ?runs = "runnable H verdict at_time t"
  let ?rel = "if ?runs then set_option (getOverlapKey t) else {}"
  let ?K = "K - set (lock_keys at_time t) \<union> ?rel"
  have mono: "clk (world r) \<le> clk (world ?r)" using Cons.prems(2) by (simp add: runTask_time)
  have later: "clk (world ?r) \<le> t1"
    using runTasks_time [of ts clk ?r locker at_time] Cons.prems(2,9,10) by simp
  have keys: "set (lock_keys at_time t) \<subseteq> K" "keys_of_all at_time ts \<subseteq> K"
    "set (lock_keys at_time t) \<inter> keys_of_all at_time ts = {}"
    using Cons.prems(4,5) by (auto simp: keys_of_all_def)
  have rel: "?rel \<subseteq> set (lock_keys at_time t)" by (auto simp: lock_keys_def)
  have one: "quiet (locks ?r) \<and> ran ?r = ran r @ (if ?runs then [t] else []) \<and>
    steady held (clk (world ?r)) t1 (locks ?r) (K - set (lock_keys at_time t)) H \<and>
    (\<forall>k s. ?runs \<longrightarrow> getOverlapKey t = Some k \<longrightarrow> clk (world ?r) \<le> s \<longrightarrow> \<not> held s (locks ?r) k)"
    by (rule runTask_spec [OF Cons.prems(1) _ Cons.prems(3) keys(1) _ Cons.prems(6) _ refl later])
      (use Cons.prems(2,5,7,8) in \<open>auto simp: runnable_def\<close>)
  have "\<not> H k" if "?runs" "getOverlapKey t = Some k" for k
    using that by (auto simp: runnable_def lock_keys_def)
  then have st: "steady held (clk (world ?r)) t1 (locks ?r) ?K H"
    using one by (auto simp: steady_def)
  have rest: "quiet (locks r') \<and> ran r' = ran ?r @ filter (runnable H verdict at_time) ts \<and>
    steady held (clk (world r')) t1 (locks r')
      (?K - keys_of_all at_time ts \<union> released_keys (filter (runnable H verdict at_time) ts)) H"
  proof (rule Cons.IH [OF _ _ st])
    show "keys_of_all at_time ts \<subseteq> ?K" using keys by blast
    show "apart k k'" if "k \<in> ?K" "k' \<in> ?K" "k \<noteq> k'" for k k'
      using that Cons.prems(6) keys(1) rel by blast
    show "\<forall>task\<in>set ts. getOverlapKey task \<noteq> None \<longrightarrow> t1 < clk (world ?r) + overlapExpiresAfterMinutes task * 60000"
      using Cons.prems(7) mono by fastforce
  qed (use one Cons.prems in simp_all)
  have sub: "K - keys_of_all at_time (t # ts) \<union> released_keys (filter (runnable H verdict at_time) (t # ts))
      \<subseteq> ?K - keys_of_all at_time ts \<union> released_keys (filter (runnable H verdict at_time) ts)"
  proof -
    have "?rel \<inter> keys_of_all at_time ts = {}" using rel keys(3) by blast
    then show ?thesis by (auto simp: keys_of_all_def released_keys_def split: if_splits)
  qed
  have "steady held (clk (world r')) t1 (locks r')
      (K - keys_of_all at_time (t # ts) \<union> released_keys (filter (runnable H verdict at_time) (t # ts))) H"
    by (rule steady_mono [OF _ order_refl sub]) (use rest in simp)
  then show ?case using one rest by simp
qed

end

lemma dueTasks_filter:
  "fst (dueTasks at_time server tasks) = filter (\<lambda>task. isDueAt at_time server task = Inr True) tasks"
  by (induction tasks) (auto simp: case_prod_unfold Let_def split: sum.splits)

lemma log_all:
  "locks (foldl (\<lambda>r (task, e). log (f task e) r) r es) = locks r \<and>
   world (foldl (\<lambda>r (task, e). log (f task e) r) r es) = world r \<and>
   ran (foldl (\<lambda>r (task, e). log (f task e) r) r es) = ran r"
  by (induction es arbitrary: r) auto

lemma distinct_concat_filter: "distinct (concat (map f xs)) \<Longrightarrow> distinct (concat (map f (filter P xs)))"
  by (induction xs) auto

lemma distinct_concat_mset:
  assumes "mset xs = mset ys" "distinct (concat (map f ys))"
  shows "distinct (concat (map f xs))"
proof -
  have "sum_list (map h xs) = sum_list (map h ys)" for h :: "'a \<Rightarrow> 'b multiset"
    using assms(1) by (metis mset_map sum_mset_sum_list)
  then have "mset (concat (map f xs)) = mset (concat (map f ys))" by (simp add: mset_concat)
  then show ?thesis using assms(2) mset_eq_imp_distinct_iff by blast
qed


text \<open>Two tasks, of which one is running elsewhere and the other fails.\<close>

definition failing_task :: "string \<Rightarrow> int ScheduledTask" where
  "failing_task n = (new_task (\<lambda>w. (Some ''boom'', w + 1)))\<lparr>description := Some n, overlapping := True\<rparr>"

definition busy_tick :: "(string \<Rightarrow> LockFiles, int) Tick" where
  "busy_tick =
     \<lparr>locks = (\<lambda>_. no_locks)(lockPath id ''schedule-overlap:b'' :=
        snd (lock_acquire ''schedule-overlap:b'' 3600000 7 0 no_locks)),
      world = 5, ran = [], logged = []\<rparr>"

lemma failing_task_simps [simp]:
  "filtersPass (failing_task n) w = (Inr True, w)" "getName (failing_task n) = Some n"
  "overlapping (failing_task n)" "lock_keys at_time (failing_task n) = [''schedule-overlap:'' @ n]"
  "overlapExpiresAfterMinutes (failing_task n) = 60" "callback (failing_task n) w = (Some ''boom'', w + 1)"
  by (simp_all add: failing_task_def new_task_def filtersPass_def getName_def lock_keys_def getOneServerKey_def
      getOverlapKey_def DEFAULT_OVERLAP_EXPIRY_MINUTES_def)

lemma failing_task_due: "isDueAt 0 (\<lambda>_. 0) (failing_task n) = Inr True"
proof -
  have "task_fields (failing_task n) = task_fields (failing_task [])" "timeZone (failing_task n) = timeZone (failing_task [])"
    by (simp_all add: failing_task_def)
  then have "isDueAt 0 (\<lambda>_. 0) (failing_task n) = isDueAt 0 (\<lambda>_. 0) (failing_task [])"
    by (simp only: isDueAt_def getCronExpression_def)
  also have "\<dots> = Inr True" by code_simp
  finally show ?thesis .
qed

lemma busy_tick_locked:
  "t < 3600000 \<Longrightarrow> isLocked t (locks busy_tick (lockPath id k)) \<longleftrightarrow>
     lockPath id k = lockPath id ''schedule-overlap:b''"
  by (simp add: busy_tick_def isLocked_def lock_acquire_def lock_write_def open_wx_def no_locks_def no_file_def
      live_record_def lock_read_def read_file_def mk_record_def write_file_def)


end
