(* ===== verification/FileCache.thy ===== *)
theory FileCache
  imports CacheStore Files
begin

text \<open>
  The file store of \<open>framework/cache/src/stores/file-cache-store.ts\<close>: one file per key, named by a
  digest, with a lock file beside it while an entry is read and rewritten.  The operations are given
  first one at a time, as a store that meets the contract of CacheStore, and then as steps that
  several processes interleave on one key.  The digest is a parameter.
\<close>

section \<open>Entries on disk\<close>

record DiskEntry =
  disk_key :: string
  disk_entry :: Entry

type_synonym file_store = "string \<Rightarrow> DiskEntry file_path"

definition STALE_LOCK_MS :: int where "STALE_LOCK_MS = 30000"

definition LOCK_TIMEOUT_MS :: int where "LOCK_TIMEOUT_MS = 5000"

definition pathFor :: "(string \<Rightarrow> string) \<Rightarrow> string \<Rightarrow> string \<Rightarrow> string" where
  "pathFor digest directory key =
     (let hash = digest key in
      directory @ ''/'' @ take 2 hash @ ''/'' @ take 2 (drop 2 hash) @ ''/'' @ hash)"

definition mk_disk :: "int \<Rightarrow> string \<Rightarrow> cval \<Rightarrow> int option \<Rightarrow> DiskEntry" where
  "mk_disk now key v ttlSeconds = \<lparr>disk_key = key, disk_entry = mk_entry now v ttlSeconds\<rparr>"

definition hasExpired :: "int \<Rightarrow> DiskEntry \<Rightarrow> bool" where
  "hasExpired now e = expired now (disk_entry e)"

text \<open>A file that is missing or does not parse is a miss.\<close>

definition readEntry :: "DiskEntry file_path \<Rightarrow> DiskEntry option" where
  "readEntry f = read_whole f"

definition writeEntry :: "DiskEntry \<Rightarrow> DiskEntry file_path \<Rightarrow> DiskEntry file_path" where
  "writeEntry e f = rename_over e f"

definition createExclusively :: "DiskEntry \<Rightarrow> DiskEntry file_path \<Rightarrow> bool \<times> DiskEntry file_path" where
  "createExclusively e f =
     (case open_wx f of None \<Rightarrow> (False, f) | Some (i, f') \<Rightarrow> (True, write_file i e f'))"

text \<open>The entry a reader accepts.\<close>

definition live_disk :: "int \<Rightarrow> DiskEntry file_path \<Rightarrow> DiskEntry option" where
  "live_disk now f =
     (case readEntry f of None \<Rightarrow> None | Some e \<Rightarrow> if hasExpired now e then None else Some e)"

section \<open>The operations, one at a time\<close>

definition entry_get :: "int \<Rightarrow> DiskEntry file_path \<Rightarrow> cval \<times> DiskEntry file_path" where
  "entry_get now f =
     (case readEntry f of
        None \<Rightarrow> (VUndef, f)
      | Some e \<Rightarrow> if hasExpired now e then (VUndef, rm_file f) else (evalue (disk_entry e), f))"

definition entry_increment ::
  "int \<Rightarrow> string \<Rightarrow> int \<Rightarrow> DiskEntry file_path \<Rightarrow> (cache_error + int) \<times> DiskEntry file_path" where
  "entry_increment now key amount f =
     (let live_entry = live_disk now f in
      case numericValue ''FileCacheStore'' key
             (case live_entry of None \<Rightarrow> VUndef | Some e \<Rightarrow> evalue (disk_entry e)) of
        Inl err \<Rightarrow> (Inl err, f)
      | Inr current \<Rightarrow>
          (let next = current + amount in
           (Inr next,
            writeEntry \<lparr>disk_key = key, disk_entry = \<lparr>evalue = VNum next,
                expiresAt = (case live_entry of None \<Rightarrow> None | Some e \<Rightarrow> expiresAt (disk_entry e))\<rparr>\<rparr> f)))"

definition entry_add ::
  "int \<Rightarrow> string \<Rightarrow> cval \<Rightarrow> int option \<Rightarrow> DiskEntry file_path \<Rightarrow> bool \<times> DiskEntry file_path" where
  "entry_add now key v ttlSeconds f =
     (let entry = mk_disk now key v ttlSeconds; (created, f1) = createExclusively entry f in
      if created then (True, f1)
      else if live_disk now f1 \<noteq> None then (False, f1)
      else if live_disk now f1 \<noteq> None then (False, f1)
      else (True, writeEntry entry f1))"

definition entry_releaseLock :: "int \<Rightarrow> string \<Rightarrow> DiskEntry file_path \<Rightarrow> bool \<times> DiskEntry file_path" where
  "entry_releaseLock now owner f =
     (case readEntry f of
        None \<Rightarrow> (False, f)
      | Some e \<Rightarrow>
          if hasExpired now e \<or> evalue (disk_entry e) \<noteq> VStr owner then (False, f) else (True, rm_file f))"

definition on_path :: "string \<Rightarrow> (DiskEntry file_path \<Rightarrow> 'r \<times> DiskEntry file_path) \<Rightarrow> file_store \<Rightarrow> 'r \<times> file_store" where
  "on_path p op s = (let (r, f) = op (s p) in (r, s(p := f)))"

definition file_get where
  "file_get digest directory now key s = on_path (pathFor digest directory key) (entry_get now) s"

definition file_put ::
  "(string \<Rightarrow> string) \<Rightarrow> string \<Rightarrow> int \<Rightarrow> string \<Rightarrow> cval \<Rightarrow> int option \<Rightarrow> file_store \<Rightarrow> file_store" where
  "file_put digest directory now key v ttlSeconds s =
     (let p = pathFor digest directory key in s(p := writeEntry (mk_disk now key v ttlSeconds) (s p)))"

definition file_forget :: "(string \<Rightarrow> string) \<Rightarrow> string \<Rightarrow> int \<Rightarrow> string \<Rightarrow> file_store \<Rightarrow> file_store" where
  "file_forget digest directory now key s =
     (let p = pathFor digest directory key in s(p := rm_file (s p)))"

definition file_has where
  "file_has digest directory now key s =
     (let (v, s') = file_get digest directory now key s in (v \<noteq> VUndef, s'))"

definition file_flush :: "file_store \<Rightarrow> file_store" where
  "file_flush s = (\<lambda>p. rm_file (s p))"

definition file_increment where
  "file_increment digest directory now key amount s =
     on_path (pathFor digest directory key) (entry_increment now key amount) s"

definition file_add where
  "file_add digest directory now key v ttlSeconds s =
     on_path (pathFor digest directory key) (entry_add now key v ttlSeconds) s"

definition file_releaseLock where
  "file_releaseLock digest directory now key owner s =
     on_path (pathFor digest directory key) (entry_releaseLock now owner) s"

text \<open>\<open>prune\<close> on the entry files that the walk of the directory found.\<close>

fun file_prune :: "int \<Rightarrow> string list \<Rightarrow> file_store \<Rightarrow> nat \<times> file_store" where
  "file_prune now [] s = (0, s)"
| "file_prune now (p # ps) s =
     (if live_disk now (s p) \<noteq> None then file_prune now ps s
      else let existed = link (s p) \<noteq> None;
               (n, s') = file_prune now ps (s(p := rm_file (s p))) in
        (if existed then Suc n else n, s'))"

definition file_ops :: "(string \<Rightarrow> string) \<Rightarrow> string \<Rightarrow> file_store CacheOps" where
  "file_ops digest directory =
     \<lparr>op_get = file_get digest directory, op_put = file_put digest directory,
      op_forget = file_forget digest directory, op_has = file_has digest directory,
      op_increment = file_increment digest directory, op_add = file_add digest directory,
      op_releaseLock = file_releaseLock digest directory\<rparr>"

section \<open>The store meets the contract\<close>

text \<open>What the files say, by key.\<close>

definition disk_map :: "(string \<Rightarrow> string) \<Rightarrow> string \<Rightarrow> file_store \<Rightarrow> string \<rightharpoonup> Entry" where
  "disk_map digest directory s = (\<lambda>key. map_option disk_entry (readEntry (s (pathFor digest directory key))))"

lemma pathFor_inject: "inj digest \<Longrightarrow> pathFor digest d k = pathFor digest d k' \<longleftrightarrow> k = k'"
proof
  assume "inj digest" and eq: "pathFor digest d k = pathFor digest d k'"
  have len: "length (pathFor digest d x) = length d + 3 + min (length (digest x)) 2
      + min (length (digest x) - 2) 2 + length (digest x)" for x
    by (simp add: pathFor_def Let_def min.commute)
  have "length (digest k) = length (digest k')"
    using arg_cong [OF eq, of length] unfolding len by (simp add: min_def split: if_splits)
  then have "digest k = digest k'"
    using eq by (simp add: pathFor_def Let_def)
  then show "k = k'" using \<open>inj digest\<close> by (simp add: inj_eq)
qed simp

lemma disk_map_upd:
  "inj digest \<Longrightarrow> disk_map digest d (s(pathFor digest d k := f))
     = (disk_map digest d s)(k := map_option disk_entry (readEntry f))"
  by (auto simp: disk_map_def fun_eq_iff pathFor_inject)

lemma disk_map_same [simp]:
  "(disk_map digest d s)(k := map_option disk_entry (readEntry (s (pathFor digest d k)))) = disk_map digest d s"
  by (simp add: disk_map_def fun_eq_iff)

lemma live_disk_map:
  "map_option disk_entry (live_disk now (s (pathFor digest d k))) = live now (disk_map digest d s) k"
  by (simp add: live_disk_def live_def disk_map_def hasExpired_def split: option.splits)

lemma live_disk_value:
  "(case live_disk now (s (pathFor digest d k)) of None \<Rightarrow> VUndef | Some e \<Rightarrow> evalue (disk_entry e))
     = value_of (live now (disk_map digest d s) k)"
  unfolding live_disk_map [symmetric] by (simp split: option.splits)

lemma live_disk_None: "live_disk now (s (pathFor digest d k)) = None \<longleftrightarrow> live now (disk_map digest d s) k = None"
  unfolding live_disk_map [symmetric] by simp

lemma read_write [simp]: "readEntry (writeEntry e f) = Some e" "readEntry (rm_file f) = None"
  by (simp_all add: readEntry_def writeEntry_def)

text \<open>Unlinking or rewriting an entry that nobody can see.\<close>

lemma entry_get_effect:
  "entry_get now (s (pathFor digest d k)) =
     (value_of (live now (disk_map digest d s) k),
      if readEntry (s (pathFor digest d k)) \<noteq> None \<and> live now (disk_map digest d s) k = None
      then rm_file (s (pathFor digest d k)) else s (pathFor digest d k))"
  unfolding live_disk_map [symmetric]
  by (auto simp: entry_get_def live_disk_def split: option.splits)

lemma get_frame:
  assumes "inj digest"
  shows "agree now (disk_map digest d (snd (on_path (pathFor digest d k) (entry_get now) s))) (disk_map digest d s)"
proof (cases "readEntry (s (pathFor digest d k)) \<noteq> None \<and> live now (disk_map digest d s) k = None")
  case True
  then show ?thesis by (simp add: on_path_def entry_get_effect disk_map_upd [OF assms] agree_del_expired)
next
  case False
  then show ?thesis by (simp only: on_path_def entry_get_effect split if_False Let_def snd_conv fun_upd_triv agree_refl)
qed

lemma createExclusively_cases:
  "(created, f') = createExclusively e f \<Longrightarrow>
     (if created then link f = None \<and> readEntry f' = Some e else f' = f)"
  by (auto simp: createExclusively_def readEntry_def dest: open_wx_SomeD split: option.splits)

lemma entry_add_spec:
  "fst (entry_add now k v ttl f) \<longleftrightarrow> live_disk now f = None"
  "live_disk now f = None \<Longrightarrow> readEntry (snd (entry_add now k v ttl f)) = Some (mk_disk now k v ttl)"
  "live_disk now f \<noteq> None \<Longrightarrow> snd (entry_add now k v ttl f) = f"
proof -
  obtain created f' where c: "createExclusively (mk_disk now k v ttl) f = (created, f')" by fastforce
  note cs = createExclusively_cases [OF c [symmetric]]
  have dead: "live_disk now f = None" if created
    using cs that by (simp add: live_disk_def readEntry_def)
  show "fst (entry_add now k v ttl f) \<longleftrightarrow> live_disk now f = None"
    "live_disk now f = None \<Longrightarrow> readEntry (snd (entry_add now k v ttl f)) = Some (mk_disk now k v ttl)"
    "live_disk now f \<noteq> None \<Longrightarrow> snd (entry_add now k v ttl f) = f"
    using cs dead by (auto simp: entry_add_def Let_def c)
qed

text \<open>
  C6. The file store keeps the contract of every cache store: with digests that do not collide, its
  operations read, overwrite, remove, add and count exactly like those of the in-memory store as
  far as an observer at that time or later can tell, expired and damaged files included.
\<close>

theorem file_store_meets_contract:
  assumes "inj digest"
  shows "cache_store (file_ops digest d) (disk_map digest d)"
proof (unfold_locales, goal_cases)
  case (1 now k s)
  show ?case by (simp add: file_ops_def file_get_def on_path_def entry_get_effect)
next
  case (2 now k s)
  show ?case using get_frame [OF assms] by (simp add: file_ops_def file_get_def case_prod_unfold)
next
  case (3 now k s)
  show ?case by (simp add: file_ops_def file_has_def file_get_def on_path_def entry_get_effect)
next
  case (4 now k s)
  show ?case using get_frame [OF assms] by (simp add: file_ops_def file_has_def file_get_def case_prod_unfold Let_def)
next
  case (5 now k v ttl s)
  show ?case by (simp add: file_ops_def file_put_def Let_def disk_map_upd [OF assms] mk_disk_def)
next
  case (6 now k s)
  show ?case by (simp add: file_ops_def file_forget_def Let_def disk_map_upd [OF assms])
next
  case (7 now k v ttl s)
  show ?case by (simp add: file_ops_def file_add_def on_path_def case_prod_unfold Let_def entry_add_spec live_disk_None)
next
  case (8 now k v ttl s)
  show ?case
    by (auto simp: file_ops_def file_add_def on_path_def case_prod_unfold Let_def disk_map_upd [OF assms]
        entry_add_spec live_disk_None mk_disk_def)
next
  case (9 name k now s a)
  then show ?case
    by (auto simp: file_ops_def file_increment_def on_path_def entry_increment_def live_disk_value Let_def
        numericValue_def split: cval.splits)
next
  case (10 name k now s n a)
  then have "numericValue ''FileCacheStore'' k (value_of (live now (disk_map digest d s) k)) = Inr n"
    by (auto simp: numericValue_def split: cval.splits)
  moreover have "(case live_disk now (s (pathFor digest d k)) of None \<Rightarrow> None | Some e \<Rightarrow> expiresAt (disk_entry e))
      = (case live now (disk_map digest d s) k of None \<Rightarrow> None | Some e \<Rightarrow> expiresAt e)"
    unfolding live_disk_map [symmetric] by (simp split: option.splits)
  ultimately show ?case
    by (simp add: file_ops_def file_increment_def on_path_def entry_increment_def live_disk_value Let_def
        disk_map_upd [OF assms])
next
  case (11 now k owner s)
  show ?case
    unfolding live_disk_map [symmetric]
    by (auto simp: file_ops_def file_releaseLock_def on_path_def entry_releaseLock_def live_disk_def split: option.splits)
next
  case (12 now k owner s)
  show ?case
    unfolding live_disk_map [symmetric]
    by (auto simp: file_ops_def file_releaseLock_def on_path_def entry_releaseLock_def live_disk_def
        disk_map_upd [OF assms] split: option.splits)
qed

text \<open>The sweep removes only what nobody can see.\<close>

lemma file_prune_live: "live_disk t (snd (file_prune now ps s) p) = live_disk t (s p)" if "now \<le> t"
proof (induction ps arbitrary: s)
  case (Cons q ps)
  have "live_disk t (rm_file (s q)) = live_disk t (s q)" if "live_disk now (s q) = None"
    using that \<open>now \<le> t\<close> expired_mono
    by (auto simp: live_disk_def hasExpired_def split: option.splits if_splits)
  then show ?case using Cons by (auto simp: case_prod_unfold Let_def)
qed simp

lemma file_prune_invisible: "agree now (disk_map digest d (snd (file_prune now ps s))) (disk_map digest d s)"
  unfolding agree_def
proof (intro allI impI ext)
  fix t k
  assume "now \<le> t"
  then show "live t (disk_map digest d (snd (file_prune now ps s))) k = live t (disk_map digest d s) k"
    unfolding live_disk_map [symmetric] by (simp add: file_prune_live)
qed

section \<open>Processes on one key\<close>

text \<open>
  Where a process is: adding, reading or releasing.  An expiry is fixed when \<open>add\<close> is called.
  Reading an entry and comparing it with the clock is one step, and so is creating the entry's lock
  file, whose modification time is then the clock's.
\<close>

datatype locked_work = Adding DiskEntry | Releasing | Counting string int

datatype fpc =
    Resting
  | AddOpen DiskEntry
  | AddWrite DiskEntry nat
  | AddRead DiskEntry
  | LockTry locked_work int
  | LockStat locked_work int
  | LockSteal locked_work int
  | AddRecheck DiskEntry
  | AddRename DiskEntry
  | IncRead string int
  | IncWrite DiskEntry int
  | RelCheck
  | RelUnlink
  | Unlock fpc
  | GetRead
  | GetUnlink
  | Added DiskEntry
  | NotAdded
  | Got cval
  | Freed bool
  | Counted int
  | NotCounted cache_error
  | TimedOut

record FileWorld =
  entry_file :: "DiskEntry file_path"
  entry_lock :: "int file_path"
  fclock :: int
  fpcs :: "nat \<Rightarrow> fpc"

definition fgoto :: "nat \<Rightarrow> fpc \<Rightarrow> FileWorld \<Rightarrow> FileWorld" where
  "fgoto p c w = w\<lparr>fpcs := (fpcs w)(p := c)\<rparr>"

definition under_lock :: "locked_work \<Rightarrow> fpc" where
  "under_lock work = (case work of Adding e \<Rightarrow> AddRecheck e | Releasing \<Rightarrow> RelCheck | Counting key n \<Rightarrow> IncRead key n)"

text \<open>\<open>acquireEntryLock\<close>: try to create the lock file; on failure look at its age and try again.\<close>

definition lock_try :: "nat \<Rightarrow> locked_work \<Rightarrow> int \<Rightarrow> FileWorld \<Rightarrow> FileWorld" where
  "lock_try p work deadline w =
     (case open_wx (entry_lock w) of
        None \<Rightarrow> fgoto p (LockStat work deadline) w
      | Some (i, f) \<Rightarrow> fgoto p (under_lock work) (w\<lparr>entry_lock := write_file i (fclock w) f\<rparr>))"

definition lock_stat :: "nat \<Rightarrow> locked_work \<Rightarrow> int \<Rightarrow> FileWorld \<Rightarrow> FileWorld" where
  "lock_stat p work deadline w =
     (let stale = (case read_whole (entry_lock w) of None \<Rightarrow> False | Some m \<Rightarrow> STALE_LOCK_MS < fclock w - m) in
      fgoto p (if stale then LockSteal work deadline
               else if deadline \<le> fclock w then TimedOut else LockTry work deadline) w)"

text \<open>The read half of \<open>increment\<close>: what it will write, or the error it will throw.\<close>

definition inc_read :: "int \<Rightarrow> string \<Rightarrow> int \<Rightarrow> DiskEntry file_path \<Rightarrow> fpc" where
  "inc_read now key amount f =
     (let live_entry = live_disk now f in
      case numericValue ''FileCacheStore'' key
             (case live_entry of None \<Rightarrow> VUndef | Some e \<Rightarrow> evalue (disk_entry e)) of
        Inl err \<Rightarrow> Unlock (NotCounted err)
      | Inr current \<Rightarrow>
          (let next = current + amount in
           IncWrite \<lparr>disk_key = key, disk_entry = \<lparr>evalue = VNum next,
             expiresAt = (case live_entry of None \<Rightarrow> None | Some e \<Rightarrow> expiresAt (disk_entry e))\<rparr>\<rparr> next))"

text \<open>One step of process \<open>p\<close>, whose owner token is its number.\<close>

definition token :: "nat \<Rightarrow> cval" where
  "token p = VStr (string_of_nat p)"

definition fadvance :: "nat \<Rightarrow> FileWorld \<Rightarrow> FileWorld" where
  "fadvance p w =
     (let now = fclock w; f = entry_file w in
      case fpcs w p of
        AddOpen e \<Rightarrow>
          (case open_wx f of
             None \<Rightarrow> fgoto p (AddRead e) w
           | Some (i, f') \<Rightarrow> fgoto p (AddWrite e i) (w\<lparr>entry_file := f'\<rparr>))
      | AddWrite e i \<Rightarrow> fgoto p (Added e) (w\<lparr>entry_file := write_file i e f\<rparr>)
      | AddRead e \<Rightarrow>
          fgoto p (if live_disk now f \<noteq> None then NotAdded else LockTry (Adding e) (now + LOCK_TIMEOUT_MS)) w
      | LockTry work deadline \<Rightarrow> lock_try p work deadline w
      | LockStat work deadline \<Rightarrow> lock_stat p work deadline w
      | LockSteal work deadline \<Rightarrow> fgoto p (LockTry work deadline) (w\<lparr>entry_lock := rm_file (entry_lock w)\<rparr>)
      | AddRecheck e \<Rightarrow> fgoto p (if live_disk now f \<noteq> None then Unlock NotAdded else AddRename e) w
      | AddRename e \<Rightarrow> fgoto p (Unlock (Added e)) (w\<lparr>entry_file := writeEntry e f\<rparr>)
      | IncRead key amount \<Rightarrow> fgoto p (inc_read now key amount f) w
      | IncWrite e next \<Rightarrow> fgoto p (Unlock (Counted next)) (w\<lparr>entry_file := writeEntry e f\<rparr>)
      | RelCheck \<Rightarrow>
          fgoto p (if map_option (\<lambda>e. evalue (disk_entry e)) (live_disk now f) = Some (token p)
                   then RelUnlink else Unlock (Freed False)) w
      | RelUnlink \<Rightarrow> fgoto p (Unlock (Freed True)) (w\<lparr>entry_file := rm_file f\<rparr>)
      | Unlock c \<Rightarrow> fgoto p c (w\<lparr>entry_lock := rm_file (entry_lock w)\<rparr>)
      | GetRead \<Rightarrow>
          (case readEntry f of
             None \<Rightarrow> fgoto p (Got VUndef) w
           | Some e \<Rightarrow> fgoto p (if hasExpired now e then GetUnlink else Got (evalue (disk_entry e))) w)
      | GetUnlink \<Rightarrow> fgoto p (Got VUndef) (w\<lparr>entry_file := rm_file f\<rparr>)
      | _ \<Rightarrow> w)"

datatype fevent = CallAdd nat string int | CallGet nat | CallRelease nat | CallIncrement nat string int | Move nat | Wait nat

fun foccur :: "fevent \<Rightarrow> FileWorld \<Rightarrow> FileWorld" where
  "foccur (CallAdd p key ttl) w = fgoto p (AddOpen (mk_disk (fclock w) key (token p) (Some ttl))) w"
| "foccur (CallGet p) w = fgoto p GetRead w"
| "foccur (CallRelease p) w = fgoto p (LockTry Releasing (fclock w + LOCK_TIMEOUT_MS)) w"
| "foccur (CallIncrement p key amount) w = fgoto p (LockTry (Counting key amount) (fclock w + LOCK_TIMEOUT_MS)) w"
| "foccur (Move p) w = fadvance p w"
| "foccur (Wait d) w = w\<lparr>fclock := fclock w + int d\<rparr>"

definition play :: "fevent list \<Rightarrow> FileWorld \<Rightarrow> FileWorld" where
  "play es w = foldl (\<lambda>w e. foccur e w) w es"

text \<open>A process whose \<open>add\<close> returned true, for an entry that has not expired.\<close>

definition has_added :: "FileWorld \<Rightarrow> nat \<Rightarrow> bool" where
  "has_added w p = (case fpcs w p of Added e \<Rightarrow> \<not> hasExpired (fclock w) e | _ \<Rightarrow> False)"

definition disk_start :: "DiskEntry option \<Rightarrow> int \<Rightarrow> FileWorld" where
  "disk_start e now =
     \<lparr>entry_file = (case e of None \<Rightarrow> no_file | Some x \<Rightarrow> writeEntry x no_file), entry_lock = no_file,
      fclock = now, fpcs = (\<lambda>_. Resting)\<rparr>"

definition adding :: "fevent \<Rightarrow> bool" where
  "adding e = (case e of CallAdd _ _ _ \<Rightarrow> True | Move _ \<Rightarrow> True | _ \<Rightarrow> False)"

definition both_added :: "FileWorld \<Rightarrow> bool" where
  "both_added w = (has_added w 1 \<and> has_added w 2)"

text \<open>A lock's entry that has expired, left by an earlier owner.\<close>

definition left_over :: FileWorld where
  "left_over = disk_start (Some (mk_disk 0 ''job_lock'' (VStr ''9'') (Some 1))) 5000"

text \<open>
  \<open>add\<close> is not exclusive across processes, although no process dies and no time passes.  First, on
  an absent key, a process that reads the file between its creation and its writing takes it for
  damaged and overwrites it: both calls return true.  Second, when the entry has expired, a reader
  that decided to unlink it unlinks the entry another process has meanwhile added, so that a third
  can add the key again.  Third, a reader's unlink lets a process create the file while another, which
  holds the entry's lock file, is about to rename its own over it; there the reader is done before
  anybody has added.
\<close>

lemma adds_succeed_twice:
  "(\<exists>es. list_all adding es \<and> both_added (play es (disk_start None 5000))) \<and>
   (\<exists>es. both_added (play es left_over)) \<and>
   (\<exists>es es'. fpcs (play es left_over) 3 = Got VUndef \<and> \<not> has_added (play es left_over) 1 \<and>
      \<not> has_added (play es left_over) 2 \<and> list_all adding es' \<and> both_added (play (es @ es') left_over))"
proof (intro conjI)
  let ?add = "\<lambda>p. CallAdd p ''job_lock'' 60"
  note run = play_def left_over_def disk_start_def fadvance_def fgoto_def open_wx_def no_file_def writeEntry_def
    rename_over_def live_disk_def readEntry_def read_whole_def read_file_def lock_try_def under_lock_def
    hasExpired_def expired_mk_entry mk_disk_def both_added_def has_added_def adding_def
  show "\<exists>es. list_all adding es \<and> both_added (play es (disk_start None 5000))"
    by (rule exI [of _ "[?add 1, Move 1, ?add 2, Move 2, Move 2, Move 2, Move 2, Move 2, Move 2, Move 1]"])
      (simp add: run)
  show "\<exists>es. both_added (play es left_over)"
    by (rule exI [of _ "[CallGet 3, Move 3, ?add 1, Move 1, Move 1, Move 1, Move 1, Move 1, Move 1, Move 3,
        ?add 2, Move 2, Move 2]"]) (simp add: run)
  show "\<exists>es es'. fpcs (play es left_over) 3 = Got VUndef \<and> \<not> has_added (play es left_over) 1 \<and>
      \<not> has_added (play es left_over) 2 \<and> list_all adding es' \<and> both_added (play (es @ es') left_over)"
    by (rule exI [of _ "[CallGet 3, Move 3, ?add 1, Move 1, Move 1, Move 1, Move 1, Move 3]"],
        rule exI [of _ "[?add 2, Move 2, Move 2, Move 1, Move 1]"]) (simp add: run)
qed

section \<open>Counters\<close>

text \<open>
  Any number of processes increment one key, each once and by its own amount, in any interleaving
  with waiting; a lock file is stolen only when nobody works under it.
\<close>

definition works :: "fpc \<Rightarrow> bool" where
  "works c = (case c of IncRead _ _ \<Rightarrow> True | IncWrite _ _ \<Rightarrow> True | Unlock _ \<Rightarrow> True | _ \<Rightarrow> False)"

definition no_theft :: "fevent \<Rightarrow> FileWorld \<Rightarrow> bool" where
  "no_theft e w \<longleftrightarrow> (\<forall>p work deadline. e = Move p \<longrightarrow> fpcs w p = LockSteal work deadline \<longrightarrow> (\<forall>q. \<not> works (fpcs w q)))"

inductive counting :: "string \<Rightarrow> (nat \<Rightarrow> int) \<Rightarrow> DiskEntry option \<Rightarrow> FileWorld \<Rightarrow> bool" for key amount old where
  start: "counting key amount old (disk_start old now)"
| call: "counting key amount old w \<Longrightarrow> fpcs w p = Resting \<Longrightarrow>
    counting key amount old (foccur (CallIncrement p key (amount p)) w)"
| move: "counting key amount old w \<Longrightarrow> no_theft (Move p) w \<Longrightarrow> counting key amount old (foccur (Move p) w)"
| wait: "counting key amount old w \<Longrightarrow> counting key amount old (foccur (Wait d) w)"

text \<open>A number without expiry, or nothing.\<close>

definition number_entry :: "DiskEntry option \<Rightarrow> int \<Rightarrow> bool" where
  "number_entry e n = (case e of None \<Rightarrow> n = 0 | Some x \<Rightarrow> evalue (disk_entry x) = VNum n \<and> expiresAt (disk_entry x) = None)"

definition wrote :: "fpc \<Rightarrow> bool" where
  "wrote c = (case c of Unlock (Counted _) \<Rightarrow> True | Counted _ \<Rightarrow> True | _ \<Rightarrow> False)"

text \<open>The program points an increment goes through.\<close>

definition inc_point :: "string \<Rightarrow> int \<Rightarrow> fpc \<Rightarrow> bool" where
  "inc_point key a c =
     (case c of
        Resting \<Rightarrow> True | LockTry work _ \<Rightarrow> work = Counting key a | LockStat work _ \<Rightarrow> work = Counting key a
      | LockSteal work _ \<Rightarrow> work = Counting key a | IncRead k n \<Rightarrow> k = key \<and> n = a | IncWrite _ _ \<Rightarrow> True
      | Unlock (Counted _) \<Rightarrow> True | Counted _ \<Rightarrow> True | TimedOut \<Rightarrow> True | _ \<Rightarrow> False)"

definition written_sum :: "(nat \<Rightarrow> int) \<Rightarrow> nat \<Rightarrow> FileWorld \<Rightarrow> int" where
  "written_sum amount n w = (\<Sum>p<n. if wrote (fpcs w p) then amount p else 0)"

definition counting_inv :: "string \<Rightarrow> (nat \<Rightarrow> int) \<Rightarrow> int \<Rightarrow> FileWorld \<Rightarrow> bool" where
  "counting_inv key amount v0 w \<longleftrightarrow>
     (\<forall>p. inc_point key (amount p) (fpcs w p)) \<and>
     (\<forall>p q. works (fpcs w p) \<longrightarrow> works (fpcs w q) \<longrightarrow> p = q) \<and>
     (\<forall>p. works (fpcs w p) \<longrightarrow> link (entry_lock w) \<noteq> None) \<and>
     (\<exists>cur. number_entry (readEntry (entry_file w)) cur \<and>
        (\<forall>n. (\<forall>p \<ge> n. fpcs w p = Resting) \<longrightarrow> cur = v0 + written_sum amount n w) \<and>
        (\<forall>p e next. fpcs w p = IncWrite e next \<longrightarrow>
           next = cur + amount p \<and> evalue (disk_entry e) = VNum next \<and> expiresAt (disk_entry e) = None))"

lemma number_entry_live: "number_entry (readEntry f) cur \<Longrightarrow> live_disk now f = readEntry f"
  by (auto simp: number_entry_def live_disk_def hasExpired_def expired_def split: option.splits)

lemma written_sum_same:
  "wrote c = wrote (fpcs w p) \<Longrightarrow> written_sum amount n (w'\<lparr>fpcs := (fpcs w)(p := c)\<rparr>) = written_sum amount n w"
  unfolding written_sum_def by (rule sum.cong) auto

lemma written_sum_step:
  "wrote c \<Longrightarrow> \<not> wrote (fpcs w p) \<Longrightarrow> p < n \<Longrightarrow>
     written_sum amount n (w'\<lparr>fpcs := (fpcs w)(p := c)\<rparr>) = written_sum amount n w + amount p"
  unfolding written_sum_def by (subst (1 2) sum.remove [of _ p]) auto

text \<open>A step that leaves the entry's file and the writers alone.\<close>

lemma counting_still:
  assumes inv: "counting_inv key amount v0 w"
    and c: "inc_point key (amount p) c" "wrote c = wrote (fpcs w p)"
      "works c \<Longrightarrow> works (fpcs w p) \<or> link (entry_lock w) = None"
      "\<And>e next cur. c = IncWrite e next \<Longrightarrow> number_entry (readEntry (entry_file w)) cur \<Longrightarrow>
         next = cur + amount p \<and> evalue (disk_entry e) = VNum next \<and> expiresAt (disk_entry e) = None"
      "c \<noteq> Resting"
    and lock: "works c \<Longrightarrow> link l \<noteq> None"
      "\<And>q. q \<noteq> p \<Longrightarrow> works (fpcs w q) \<Longrightarrow> link l \<noteq> None"
  shows "counting_inv key amount v0 (w\<lparr>entry_lock := l, fpcs := (fpcs w)(p := c)\<rparr>)"
proof -
  obtain cur where cur: "number_entry (readEntry (entry_file w)) cur"
    "\<And>n. (\<forall>p \<ge> n. fpcs w p = Resting) \<Longrightarrow> cur = v0 + written_sum amount n w"
    "\<And>p e next. fpcs w p = IncWrite e next \<Longrightarrow>
       next = cur + amount p \<and> evalue (disk_entry e) = VNum next \<and> expiresAt (disk_entry e) = None"
    using inv unfolding counting_inv_def by blast
  have one: "q = s" if "works (fpcs w q)" "works (fpcs w s)" for q s
    using inv that unfolding counting_inv_def by blast
  have linked: "works (fpcs w q) \<Longrightarrow> link (entry_lock w) \<noteq> None" for q
    using inv unfolding counting_inv_def by blast
  have pts: "inc_point key (amount q) (fpcs w q)" for q using inv unfolding counting_inv_def by blast
  let ?c = "(fpcs w)(p := c)"
  let ?w = "w\<lparr>entry_lock := l, fpcs := ?c\<rparr>"
  have proj: "fpcs ?w = ?c" "entry_file ?w = entry_file w" "entry_lock ?w = l" by simp_all
  have sum: "\<forall>n. (\<forall>q \<ge> n. ?c q = Resting) \<longrightarrow> cur = v0 + written_sum amount n ?w"
  proof (intro allI impI)
    fix n
    assume rest: "\<forall>q \<ge> n. ?c q = Resting"
    have "fpcs w q = Resting" if "n \<le> q" for q
      using rest c(5) that by (cases "q = p") auto
    then show "cur = v0 + written_sum amount n ?w"
      using cur(2) [of n] written_sum_same [OF c(2), of amount n "w\<lparr>entry_lock := l\<rparr>"] by simp
  qed
  have points: "\<forall>q. inc_point key (amount q) (?c q)" using pts c(1) by simp
  have unique: "\<forall>q s. works (?c q) \<longrightarrow> works (?c s) \<longrightarrow> q = s"
  proof (intro allI impI)
    fix q s
    assume "works (?c q)" "works (?c s)"
    then show "q = s" using one c(3) linked by (cases "q = p"; cases "s = p") auto
  qed
  have locked: "\<forall>q. works (?c q) \<longrightarrow> link l \<noteq> None" using lock by auto
  have writes: "\<forall>q e next. ?c q = IncWrite e next \<longrightarrow>
      next = cur + amount q \<and> evalue (disk_entry e) = VNum next \<and> expiresAt (disk_entry e) = None"
    using cur(3) c(4) [OF _ cur(1)] by simp
  show ?thesis
    unfolding counting_inv_def proj using points unique locked cur(1) sum writes by blast
qed

lemma fgoto_lock: "fgoto p c w = w\<lparr>entry_lock := entry_lock w, fpcs := (fpcs w)(p := c)\<rparr>"
  by (simp add: fgoto_def)

lemma inc_read_spec:
  assumes "number_entry (readEntry f) cur"
  shows "inc_read now key a f = IncWrite
    \<lparr>disk_key = key, disk_entry = \<lparr>evalue = VNum (cur + a), expiresAt = None\<rparr>\<rparr> (cur + a)"
proof -
  have "live_disk now f = readEntry f" using assms by (rule number_entry_live)
  then show ?thesis
    using assms by (cases "readEntry f") (auto simp: inc_read_def numericValue_def number_entry_def Let_def)
qed

lemma inc_write_inv:
  assumes inv: "counting_inv key amount v0 w" and pc: "fpcs w p = IncWrite e next"
  shows "counting_inv key amount v0 (fgoto p (Unlock (Counted next)) (w\<lparr>entry_file := writeEntry e (entry_file w)\<rparr>))"
proof -
  obtain cur where cur: "\<And>n. (\<forall>p \<ge> n. fpcs w p = Resting) \<Longrightarrow> cur = v0 + written_sum amount n w"
    "\<And>p e next. fpcs w p = IncWrite e next \<Longrightarrow>
       next = cur + amount p \<and> evalue (disk_entry e) = VNum next \<and> expiresAt (disk_entry e) = None"
    using inv unfolding counting_inv_def by blast
  let ?c = "(fpcs w)(p := Unlock (Counted next))"
  note e = cur(2) [OF pc]
  have work: "works (fpcs w p)" using pc by (simp add: works_def)
  have one: "q = p" if "works (fpcs w q)" for q
    using inv that work unfolding counting_inv_def by blast
  let ?w = "fgoto p (Unlock (Counted next)) (w\<lparr>entry_file := writeEntry e (entry_file w)\<rparr>)"
  have proj: "fpcs ?w = ?c" "entry_file ?w = writeEntry e (entry_file w)" "entry_lock ?w = entry_lock w"
    by (simp_all add: fgoto_def)
  have sum: "\<forall>n. (\<forall>q \<ge> n. ?c q = Resting) \<longrightarrow> next = v0 + written_sum amount n ?w"
  proof (intro allI impI)
    fix n
    assume rest: "\<forall>q \<ge> n. ?c q = Resting"
    have p: "p < n" using rest [rule_format, of p] by (cases "p < n") auto
    then have "fpcs w q = Resting" if "n \<le> q" for q using rest that by (cases "q = p") auto
    then show "next = v0 + written_sum amount n ?w"
      using cur(1) [of n] e pc p
        written_sum_step [of "Unlock (Counted next)" w p n amount "w\<lparr>entry_file := writeEntry e (entry_file w)\<rparr>"]
      by (simp add: wrote_def fgoto_def)
  qed
  have writes: "\<forall>q f m. ?c q = IncWrite f m \<longrightarrow>
      m = next + amount q \<and> evalue (disk_entry f) = VNum m \<and> expiresAt (disk_entry f) = None"
    using one by (auto simp: works_def)
  have points: "\<forall>q. inc_point key (amount q) (?c q)" using inv by (simp add: counting_inv_def inc_point_def)
  have unique: "\<forall>q s. works (?c q) \<longrightarrow> works (?c s) \<longrightarrow> q = s" using one by (simp split: if_splits) blast
  have locked: "\<forall>q. works (?c q) \<longrightarrow> link (entry_lock w) \<noteq> None"
    using inv work unfolding counting_inv_def by auto
  have number: "number_entry (readEntry (writeEntry e (entry_file w))) next" using e by (simp add: number_entry_def)
  show ?thesis
    unfolding counting_inv_def proj using points unique locked number sum writes by blast
qed

lemma still_lock:
  assumes "counting_inv key amount v0 w" "inc_point key (amount p) c" "wrote c = wrote (fpcs w p)"
    "works c \<Longrightarrow> works (fpcs w p)" "c \<noteq> Resting"
    "\<And>e next cur. c = IncWrite e next \<Longrightarrow> number_entry (readEntry (entry_file w)) cur \<Longrightarrow>
         next = cur + amount p \<and> evalue (disk_entry e) = VNum next \<and> expiresAt (disk_entry e) = None"
  shows "counting_inv key amount v0 (fgoto p c w)"
proof -
  have "works (fpcs w q) \<Longrightarrow> link (entry_lock w) \<noteq> None" for q
    using assms(1) unfolding counting_inv_def by blast
  then show ?thesis
    unfolding fgoto_lock by (intro counting_still) (use assms in auto)
qed

lemma counting_move:
  assumes inv: "counting_inv key amount v0 w" and safe: "no_theft (Move p) w"
  shows "counting_inv key amount v0 (fadvance p w)"
proof -
  have pt: "inc_point key (amount p) (fpcs w p)" using inv unfolding counting_inv_def by blast
  have linked: "link (entry_lock w) \<noteq> None" if "works (fpcs w q)" for q
    using inv that unfolding counting_inv_def by blast
  have one: "q = p" if "works (fpcs w q)" "works (fpcs w p)" for q
    using inv that unfolding counting_inv_def by blast
  note pts = inc_point_def works_def wrote_def
  show ?thesis
  proof (cases "fpcs w p")
    case (LockTry work deadline)
    have work: "work = Counting key (amount p)" using pt LockTry by (simp add: inc_point_def)
    show ?thesis
    proof (cases "open_wx (entry_lock w)")
      case None
      then show ?thesis
        using still_lock [OF inv, of p "LockStat work deadline"] LockTry work
        by (simp add: fadvance_def Let_def lock_try_def pts)
    next
      case (Some x)
      obtain i f where x: "x = (i, f)" by fastforce
      note o = open_wx_SomeD [OF Some [unfolded x]]
      have "counting_inv key amount v0
          (w\<lparr>entry_lock := write_file i (fclock w) f, fpcs := (fpcs w)(p := IncRead key (amount p))\<rparr>)"
        using o by (intro counting_still [OF inv]) (auto simp: pts LockTry)
      then show ?thesis
        using LockTry work Some x by (simp add: fadvance_def Let_def lock_try_def under_lock_def fgoto_def)
    qed
  next
    case (LockStat work deadline)
    then show ?thesis
      using still_lock [OF inv, of p "LockSteal work deadline"] still_lock [OF inv, of p TimedOut]
        still_lock [OF inv, of p "LockTry work deadline"] pt
      by (simp add: fadvance_def Let_def lock_stat_def pts)
  next
    case (LockSteal work deadline)
    have "\<not> works (fpcs w q)" for q using safe LockSteal by (simp add: no_theft_def)
    then have "counting_inv key amount v0
        (w\<lparr>entry_lock := rm_file (entry_lock w), fpcs := (fpcs w)(p := LockTry work deadline)\<rparr>)"
      using pt LockSteal by (intro counting_still [OF inv]) (auto simp: pts)
    then show ?thesis using LockSteal by (simp add: fadvance_def Let_def fgoto_def)
  next
    case (IncRead k a)
    have ka: "k = key" "a = amount p" using pt IncRead by (simp_all add: inc_point_def)
    obtain cur where cur: "number_entry (readEntry (entry_file w)) cur"
      using inv unfolding counting_inv_def by blast
    have same: "cur' = cur" if "number_entry (readEntry (entry_file w)) cur'" for cur'
      using that cur by (auto simp: number_entry_def split: option.splits)
    have "counting_inv key amount v0 (fgoto p (inc_read (fclock w) key (amount p) (entry_file w)) w)"
      unfolding inc_read_spec [OF cur]
      by (rule still_lock [OF inv]) (use IncRead ka in \<open>auto simp: pts dest: same\<close>)
    then show ?thesis using IncRead ka by (simp add: fadvance_def Let_def)
  next
    case (IncWrite e nx)
    then show ?thesis using inc_write_inv [OF inv IncWrite] by (simp add: fadvance_def Let_def)
  next
    case (Unlock c)
    have work: "works (fpcs w p)" using Unlock by (simp add: works_def)
    obtain v where c: "c = Counted v" using pt Unlock by (auto simp: inc_point_def split: fpc.splits)
    have "counting_inv key amount v0 (w\<lparr>entry_lock := rm_file (entry_lock w), fpcs := (fpcs w)(p := Counted v)\<rparr>)"
      using one work Unlock c by (intro counting_still [OF inv]) (auto simp: pts)
    then show ?thesis using Unlock c by (simp add: fadvance_def Let_def fgoto_def)
  qed (use inv pt in \<open>simp_all add: fadvance_def Let_def inc_point_def\<close>)
qed

lemma counting_reach:
  assumes "counting key amount old w" "number_entry old v0"
  shows "counting_inv key amount v0 w"
  using assms(1)
proof induction
  case (start now)
  have "readEntry (entry_file (disk_start old now)) = old"
    by (cases old) (simp_all add: disk_start_def readEntry_def writeEntry_def)
  then show ?case
    using assms(2) by (auto simp: counting_inv_def inc_point_def works_def wrote_def written_sum_def disk_start_def)
next
  case (call w p)
  have "counting_inv key amount v0 (fgoto p (LockTry (Counting key (amount p)) (fclock w + LOCK_TIMEOUT_MS)) w)"
    by (rule still_lock [OF call(3)]) (use call(2) in \<open>auto simp: inc_point_def works_def wrote_def\<close>)
  then show ?case by simp
next
  case (move w p)
  then show ?case by (simp add: counting_move)
next
  case (wait w d)
  then show ?case by (simp add: counting_inv_def written_sum_def)
qed

text \<open>
  C7. No increment is lost: however the increments of any number of processes on one key interleave
  and wait, the number in the file is the one it started from plus the amounts of exactly those
  increments that have written, and an increment that returns a number has written; it is enough
  that an entry's lock file is stolen only when nobody works under it.
\<close>

theorem increments_add_up:
  assumes "counting key amount old w" "number_entry old v0" "\<forall>p \<ge> n. fpcs w p = Resting"
  shows "number_entry (readEntry (entry_file w)) (v0 + (\<Sum>p<n. if wrote (fpcs w p) then amount p else 0))"
  using counting_reach [OF assms(1,2)] assms(3)
  unfolding counting_inv_def written_sum_def by metis

fun allowed :: "string \<Rightarrow> (nat \<Rightarrow> int) \<Rightarrow> fevent \<Rightarrow> FileWorld \<Rightarrow> bool" where
  "allowed key amount (CallIncrement p k a) w = (fpcs w p = Resting \<and> k = key \<and> a = amount p)"
| "allowed key amount (Move p) w = (case fpcs w p of LockSteal _ _ \<Rightarrow> False | _ \<Rightarrow> True)"
| "allowed key amount (Wait d) w = True"
| "allowed key amount e w = False"

fun all_allowed :: "string \<Rightarrow> (nat \<Rightarrow> int) \<Rightarrow> fevent list \<Rightarrow> FileWorld \<Rightarrow> bool" where
  "all_allowed key amount [] w = True"
| "all_allowed key amount (e # es) w = (allowed key amount e w \<and> all_allowed key amount es (foccur e w))"

lemma counting_play:
  "counting key amount old w \<Longrightarrow> all_allowed key amount es w \<Longrightarrow> counting key amount old (play es w)"
proof (induction es arbitrary: w)
  case (Cons e es)
  have "counting key amount old (foccur e w)"
  proof (cases e)
    case (CallIncrement p k a)
    then show ?thesis using counting.call [OF Cons.prems(1), of p] Cons.prems(2) by simp
  next
    case (Move p)
    then show ?thesis
      using counting.move [OF Cons.prems(1), of p] Cons.prems(2)
      by (auto simp: no_theft_def split: fpc.splits)
  next
    case (Wait d)
    then show ?thesis using counting.wait [OF Cons.prems(1), of d] by simp
  qed (use Cons.prems(2) in simp_all)
  then show ?case using Cons by (simp add: play_def)
qed (simp add: play_def)

definition two_counts :: "fevent list" where
  "two_counts = [CallIncrement 0 ''hits'' 2, CallIncrement 1 ''hits'' 5, Move 0, Move 1, Move 0, Move 1, Move 0,
     Wait 7, Move 0, Move 1, Move 1, Move 1, Move 1]"

theorem increments_add_up_witness:
  "\<exists>w :: FileWorld. fpcs w 0 = Counted 2 \<and> fpcs w 1 = Counted 7 \<and> number_entry (readEntry (entry_file w)) 7"
proof -
  let ?amount = "\<lambda>p. if p = 0 then 2 else 5 :: int"
  let ?w = "play two_counts (disk_start None 0)"
  note run = two_counts_def play_def disk_start_def fadvance_def fgoto_def open_wx_def no_file_def writeEntry_def
    rename_over_def live_disk_def readEntry_def read_whole_def read_file_def lock_try_def lock_stat_def under_lock_def
    inc_read_def numericValue_def rm_file_def write_file_def LOCK_TIMEOUT_MS_def STALE_LOCK_MS_def hasExpired_def
    expired_def
  have "all_allowed ''hits'' ?amount two_counts (disk_start None 0)" by (simp add: run)
  then have reach: "counting ''hits'' ?amount None ?w" by (rule counting_play [OF counting.start])
  have rest: "\<forall>p \<ge> 2. fpcs ?w p = Resting" and ended: "fpcs ?w 0 = Counted 2" "fpcs ?w 1 = Counted 7"
    by (simp_all add: run)
  have "number_entry None 0" by (simp add: number_entry_def)
  then have "number_entry (readEntry (entry_file ?w)) 7"
    using increments_add_up [OF reach _ rest, of 0] ended by (simp add: wrote_def numeral_2_eq_2)
  then show ?thesis using ended by blast
qed

theorem file_store_meets_contract_witness:
  "cache_store (file_ops id ''cache'') (disk_map id ''cache'') \<and>
   fst (op_add (file_ops id ''cache'') 5 ''k'' (VNum 1) None (\<lambda>_. no_file))"
proof -
  have "cache_store (file_ops id ''cache'') (disk_map id ''cache'')"
    by (rule file_store_meets_contract) simp
  then show ?thesis
    by (simp add: cache_store.add_result live_def disk_map_def readEntry_def)
qed

end
