(* ===== verification/Collections.thy ===== *)
theory Collections
  imports JsPrelude Complex_Main
begin

text \<open>
  The ordered-map collection of \<open>framework/core/src/collection.ts\<close>: its items in insertion order under
  integer or string keys, and the next automatic index.  An operation that changes the collection in
  place returns it updated; a callback is a function of the item and its key.  A selector is a
  function, whether the code writes it as a property name or a callback.  Sizes and offsets are
  integers.
\<close>

section \<open>Keys and items\<close>

datatype key = IntKey int | StrKey string

record 'v Collection =
  items :: "(key \<times> 'v) list"
  nextIndex :: int

datatype collection_error = ItemNotFound | MultipleItemsFound nat | RangeError string | FailedEnsure nat

fun number_from :: "int \<Rightarrow> 'v list \<Rightarrow> (key \<times> 'v) list" where
  "number_from i [] = []"
| "number_from i (v # vs) = (IntKey i, v) # number_from (i + 1) vs"

definition put_all :: "(key \<times> 'v) list \<Rightarrow> (key \<times> 'v) list \<Rightarrow> (key \<times> 'v) list" where
  "put_all es m = foldl (\<lambda>m (k, v). map_put k v m) m es"

definition max_int_key :: "int \<Rightarrow> key list \<Rightarrow> int" where
  "max_int_key start ks = foldl (\<lambda>a k. case k of IntKey i \<Rightarrow> if a < i then i else a | _ \<Rightarrow> a) start ks"

section \<open>Making collections\<close>

definition make :: "'v list \<Rightarrow> 'v Collection" where
  "make vs = \<lparr>items = number_from 0 vs, nextIndex = int (length vs)\<rparr>"

definition make_entries :: "(key \<times> 'v) list \<Rightarrow> 'v Collection" where
  "make_entries es = \<lparr>items = put_all es [], nextIndex = max_int_key (- 1) (keys_of es) + 1\<rparr>"

definition empty_collection :: "'v Collection" where
  "empty_collection = \<lparr>items = [], nextIndex = 0\<rparr>"

definition newInstance :: "(key \<times> 'v) list \<Rightarrow> int \<Rightarrow> 'v Collection" where
  "newInstance es next = \<lparr>items = es, nextIndex = next\<rparr>"

text \<open>\<open>range\<close>; a zero step yields nothing.\<close>

function range_up :: "int \<Rightarrow> int \<Rightarrow> int \<Rightarrow> int list" where
  "range_up i last_value step = (if i \<le> last_value \<and> 0 < step then i # range_up (i + step) last_value step else [])"
  by pat_completeness auto
termination by (relation "measure (\<lambda>(i, l, s). nat (l + 1 - i))") auto

function range_down :: "int \<Rightarrow> int \<Rightarrow> int \<Rightarrow> int list" where
  "range_down i last_value step = (if last_value \<le> i \<and> step < 0 then i # range_down (i + step) last_value step else [])"
  by pat_completeness auto
termination by (relation "measure (\<lambda>(i, l, s). nat (i + 1 - l))") auto

declare range_up.simps [simp del] range_down.simps [simp del]

definition collection_range :: "int \<Rightarrow> int \<Rightarrow> int \<Rightarrow> int Collection" where
  "collection_range first_value last_value step =
     make (if 0 < step then range_up first_value last_value step
           else if step < 0 then range_down first_value last_value step else [])"

section \<open>Reading\<close>

definition all_items :: "'v Collection \<Rightarrow> 'v list" where
  "all_items c = map snd (items c)"

definition count_items :: "'v Collection \<Rightarrow> nat" where
  "count_items c = length (items c)"

definition isEmpty :: "'v Collection \<Rightarrow> bool" where
  "isEmpty c = (length (items c) = 0)"

definition isNotEmpty :: "'v Collection \<Rightarrow> bool" where
  "isNotEmpty c = (\<not> isEmpty c)"

definition has_key :: "key \<Rightarrow> 'v Collection \<Rightarrow> bool" where
  "has_key k c = (map_of (items c) k \<noteq> None)"

definition get_item :: "key \<Rightarrow> 'v option \<Rightarrow> 'v Collection \<Rightarrow> 'v option" where
  "get_item k defaultValue c = (case map_of (items c) k of Some v \<Rightarrow> Some v | None \<Rightarrow> defaultValue)"

definition has_all :: "key list \<Rightarrow> 'v Collection \<Rightarrow> bool" where
  "has_all ks c = list_all (\<lambda>k. has_key k c) ks"

definition hasAny :: "key list \<Rightarrow> 'v Collection \<Rightarrow> bool" where
  "hasAny ks c = (if isEmpty c then False else list_ex (\<lambda>k. has_key k c) ks)"

definition isListLike :: "'v Collection \<Rightarrow> bool" where
  "isListLike c = (keys_of (items c) = map IntKey [0..int (length (items c)) - 1])"

definition keys_collection :: "'v Collection \<Rightarrow> key Collection" where
  "keys_collection c = make (keys_of (items c))"

definition values_collection :: "'v Collection \<Rightarrow> 'v Collection" where
  "values_collection c = make (all_items c)"

section \<open>Changing in place\<close>

definition after_key :: "key \<Rightarrow> int \<Rightarrow> int" where
  "after_key k next = (case k of IntKey i \<Rightarrow> if next \<le> i then i + 1 else next | _ \<Rightarrow> next)"

definition put :: "key \<Rightarrow> 'v \<Rightarrow> 'v Collection \<Rightarrow> 'v Collection" where
  "put k v c = \<lparr>items = map_put k v (items c), nextIndex = after_key k (nextIndex c)\<rparr>"

definition getOrPut :: "key \<Rightarrow> 'v \<Rightarrow> 'v Collection \<Rightarrow> 'v \<times> 'v Collection" where
  "getOrPut k v c = (case map_of (items c) k of Some x \<Rightarrow> (x, c) | None \<Rightarrow> (v, put k v c))"

definition pull :: "key \<Rightarrow> 'v option \<Rightarrow> 'v Collection \<Rightarrow> 'v option \<times> 'v Collection" where
  "pull k defaultValue c =
     (case map_of (items c) k of
        Some v \<Rightarrow> (Some v, c\<lparr>items := map_del k (items c)\<rparr>) | None \<Rightarrow> (defaultValue, c))"

definition forget_keys :: "key list \<Rightarrow> 'v Collection \<Rightarrow> 'v Collection" where
  "forget_keys ks c = c\<lparr>items := foldl (\<lambda>m k. map_del k m) (items c) ks\<rparr>"

fun push :: "'v list \<Rightarrow> 'v Collection \<Rightarrow> 'v Collection" where
  "push [] c = c"
| "push (v # vs) c =
     push vs \<lparr>items = map_put (IntKey (nextIndex c)) v (items c), nextIndex = nextIndex c + 1\<rparr>"

definition unshift :: "'v list \<Rightarrow> 'v Collection \<Rightarrow> 'v Collection" where
  "unshift vs c = (let rest = all_items c in
     \<lparr>items = number_from 0 (vs @ rest), nextIndex = int (length vs + length rest)\<rparr>)"

definition prepend :: "'v \<Rightarrow> key option \<Rightarrow> 'v Collection \<Rightarrow> 'v Collection" where
  "prepend v k c =
     (case k of
        Some k \<Rightarrow> \<lparr>items = put_all (items c) [(k, v)], nextIndex = after_key k (nextIndex c)\<rparr>
      | None \<Rightarrow> \<lparr>items = number_from 0 (v # all_items c), nextIndex = int (Suc (length (items c)))\<rparr>)"

definition pop :: "'v Collection \<Rightarrow> 'v option \<times> 'v Collection" where
  "pop c = (if items c = [] then (None, c)
     else (Some (snd (last (items c))), c\<lparr>items := butlast (items c)\<rparr>))"

definition pop_many :: "int \<Rightarrow> 'v Collection \<Rightarrow> 'v Collection \<times> 'v Collection" where
  "pop_many n c =
     (if n < 1 then (empty_collection, c)
      else let keep = length (items c) - nat n in
        (make (rev (map snd (drop keep (items c)))), c\<lparr>items := take keep (items c)\<rparr>))"

definition shift :: "'v Collection \<Rightarrow> 'v option \<times> 'v Collection" where
  "shift c = (case items c of [] \<Rightarrow> (None, c) | (k, v) # es \<Rightarrow> (Some v, c\<lparr>items := es\<rparr>))"

definition shift_many :: "int \<Rightarrow> 'v Collection \<Rightarrow> 'v Collection \<times> 'v Collection" where
  "shift_many n c =
     (if n < 1 then (empty_collection, c)
      else (make (map snd (take (nat n) (items c))), c\<lparr>items := drop (nat n) (items c)\<rparr>))"

text \<open>\<open>Array.prototype.slice\<close> and \<open>splice\<close>, whose negative bounds count from the end.\<close>

definition js_bound :: "int \<Rightarrow> nat \<Rightarrow> nat" where
  "js_bound i n = (if i < 0 then nat (int n + i) else min (nat i) n)"

definition js_slice :: "int \<Rightarrow> int \<Rightarrow> 'a list \<Rightarrow> 'a list" where
  "js_slice a b xs = (let i = js_bound a (length xs) in take (js_bound b (length xs) - i) (drop i xs))"

definition splice :: "int \<Rightarrow> int option \<Rightarrow> 'v list \<Rightarrow> 'v Collection \<Rightarrow> 'v Collection \<times> 'v Collection" where
  "splice offset len replacement c =
     (let vs = all_items c; i = js_bound offset (length vs);
          (removed, left) =
            (case len of
               None \<Rightarrow> (drop i vs, take i vs)
             | Some n \<Rightarrow> (take (nat n) (drop i vs), take i vs @ replacement @ drop (nat n) (drop i vs))) in
      (make removed, \<lparr>items = number_from 0 left, nextIndex = int (length left)\<rparr>))"

definition transform :: "('v \<Rightarrow> key \<Rightarrow> 'v) \<Rightarrow> 'v Collection \<Rightarrow> 'v Collection" where
  "transform f c = c\<lparr>items := map (\<lambda>(k, v). (k, f v k)) (items c)\<rparr>"

section \<open>Mapping and reducing\<close>

text \<open>\<open>each\<close> stops when the callback returns false.\<close>

fun each_loop :: "('v \<Rightarrow> key \<Rightarrow> 's \<Rightarrow> bool \<times> 's) \<Rightarrow> (key \<times> 'v) list \<Rightarrow> 's \<Rightarrow> 's" where
  "each_loop f [] s = s"
| "each_loop f ((k, v) # es) s = (let (continue, s') = f v k s in if continue then each_loop f es s' else s')"

definition each :: "('v \<Rightarrow> key \<Rightarrow> 's \<Rightarrow> bool \<times> 's) \<Rightarrow> 'v Collection \<Rightarrow> 's \<Rightarrow> 's" where
  "each f c s = each_loop f (items c) s"

definition map_collection :: "('v \<Rightarrow> key \<Rightarrow> 'u) \<Rightarrow> 'v Collection \<Rightarrow> 'u Collection" where
  "map_collection f c = make (map (\<lambda>(k, v). f v k) (items c))"

definition mapValues :: "('v \<Rightarrow> key \<Rightarrow> 'u) \<Rightarrow> 'v Collection \<Rightarrow> 'u Collection" where
  "mapValues f c = newInstance (map (\<lambda>(k, v). (k, f v k)) (items c)) 0"

definition mapWithKeys :: "('v \<Rightarrow> key \<Rightarrow> key \<times> 'u) \<Rightarrow> 'v Collection \<Rightarrow> 'u Collection" where
  "mapWithKeys f c = newInstance (put_all (map (\<lambda>(k, v). f v k) (items c)) []) 0"

text \<open>Adding to the bucket of a key, which is made on first use.\<close>

definition add_to_bucket :: "key \<Rightarrow> 'u \<Rightarrow> (key \<times> 'u list) list \<Rightarrow> (key \<times> 'u list) list" where
  "add_to_bucket k v m =
     map_put k (case map_of m k of Some bucket \<Rightarrow> bucket @ [v] | None \<Rightarrow> [v]) m"

definition buckets :: "(key \<times> 'u) list \<Rightarrow> (key \<times> 'u list) list" where
  "buckets kvs = foldl (\<lambda>m (k, v). add_to_bucket k v m) [] kvs"

definition mapToDictionary :: "('v \<Rightarrow> key \<Rightarrow> key \<times> 'u) \<Rightarrow> 'v Collection \<Rightarrow> 'u list Collection" where
  "mapToDictionary f c = newInstance (buckets (map (\<lambda>(k, v). f v k) (items c))) 0"

definition mapToGroups :: "('v \<Rightarrow> key \<Rightarrow> key \<times> 'u) \<Rightarrow> 'v Collection \<Rightarrow> 'u Collection Collection" where
  "mapToGroups f c = newInstance (map (\<lambda>(k, vs). (k, make vs)) (items (mapToDictionary f c))) 0"

definition reduce :: "('r \<Rightarrow> 'v \<Rightarrow> key \<Rightarrow> 'r) \<Rightarrow> 'r \<Rightarrow> 'v Collection \<Rightarrow> 'r" where
  "reduce f initial c = foldl (\<lambda>r (k, v). f r v k) initial (items c)"

section \<open>Filtering\<close>

definition filter_collection :: "('v \<Rightarrow> key \<Rightarrow> bool) \<Rightarrow> 'v Collection \<Rightarrow> 'v Collection" where
  "filter_collection f c = newInstance (filter (\<lambda>(k, v). f v k) (items c)) (nextIndex c)"

definition reject :: "('v \<Rightarrow> key \<Rightarrow> bool) \<Rightarrow> 'v Collection \<Rightarrow> 'v Collection" where
  "reject f c = filter_collection (\<lambda>v k. \<not> f v k) c"

definition only :: "key list \<Rightarrow> 'v Collection \<Rightarrow> 'v Collection" where
  "only ks c = newInstance (filter (\<lambda>(k, v). k \<in> set ks) (items c)) (nextIndex c)"

definition except_keys :: "key list \<Rightarrow> 'v Collection \<Rightarrow> 'v Collection" where
  "except_keys ks c = newInstance (filter (\<lambda>(k, v). k \<notin> set ks) (items c)) (nextIndex c)"

text \<open>\<open>where\<close>: the three spellings of equality and of inequality are one operator each.\<close>

datatype WhereOperator = OpEq | OpNe | OpLt | OpGt | OpLe | OpGe

fun operatorForWhere :: "('v \<Rightarrow> 'r :: linorder) \<Rightarrow> WhereOperator \<Rightarrow> 'r \<Rightarrow> 'v \<Rightarrow> bool" where
  "operatorForWhere retrieve OpEq x v = (retrieve v = x)"
| "operatorForWhere retrieve OpNe x v = (retrieve v \<noteq> x)"
| "operatorForWhere retrieve OpLt x v = (retrieve v < x)"
| "operatorForWhere retrieve OpGt x v = (retrieve v > x)"
| "operatorForWhere retrieve OpLe x v = (retrieve v \<le> x)"
| "operatorForWhere retrieve OpGe x v = (retrieve v \<ge> x)"

definition where_collection :: "('v \<Rightarrow> 'r :: linorder) \<Rightarrow> WhereOperator \<Rightarrow> 'r \<Rightarrow> 'v Collection \<Rightarrow> 'v Collection" where
  "where_collection retrieve oper x c = filter_collection (\<lambda>v k. operatorForWhere retrieve oper x v) c"

definition whereNull :: "('v \<Rightarrow> 'r option) \<Rightarrow> 'v Collection \<Rightarrow> 'v Collection" where
  "whereNull retrieve c = filter_collection (\<lambda>v k. retrieve v = None) c"

definition whereNotNull :: "('v \<Rightarrow> 'r option) \<Rightarrow> 'v Collection \<Rightarrow> 'v Collection" where
  "whereNotNull retrieve c = filter_collection (\<lambda>v k. retrieve v \<noteq> None) c"

definition whereIn :: "('v \<Rightarrow> 'r) \<Rightarrow> 'r list \<Rightarrow> 'v Collection \<Rightarrow> 'v Collection" where
  "whereIn retrieve xs c = filter_collection (\<lambda>v k. retrieve v \<in> set xs) c"

definition whereNotIn :: "('v \<Rightarrow> 'r) \<Rightarrow> 'r list \<Rightarrow> 'v Collection \<Rightarrow> 'v Collection" where
  "whereNotIn retrieve xs c = filter_collection (\<lambda>v k. retrieve v \<notin> set xs) c"

definition whereBetween :: "('v \<Rightarrow> 'r :: linorder) \<Rightarrow> 'r \<Rightarrow> 'r \<Rightarrow> 'v Collection \<Rightarrow> 'v Collection" where
  "whereBetween retrieve lo hi c = filter_collection (\<lambda>v k. lo \<le> retrieve v \<and> retrieve v \<le> hi) c"

definition whereNotBetween :: "('v \<Rightarrow> 'r :: linorder) \<Rightarrow> 'r \<Rightarrow> 'r \<Rightarrow> 'v Collection \<Rightarrow> 'v Collection" where
  "whereNotBetween retrieve lo hi c = filter_collection (\<lambda>v k. retrieve v < lo \<or> hi < retrieve v) c"

section \<open>Searching\<close>

fun first_match :: "('v \<Rightarrow> key \<Rightarrow> bool) \<Rightarrow> (key \<times> 'v) list \<Rightarrow> (key \<times> 'v) option" where
  "first_match f [] = None"
| "first_match f ((k, v) # es) = (if f v k then Some (k, v) else first_match f es)"

definition first :: "('v \<Rightarrow> key \<Rightarrow> bool) \<Rightarrow> 'v Collection \<Rightarrow> 'v option" where
  "first f c = map_option snd (first_match f (items c))"

definition firstOrFail :: "('v \<Rightarrow> key \<Rightarrow> bool) \<Rightarrow> 'v Collection \<Rightarrow> collection_error + 'v" where
  "firstOrFail f c = (case first_match f (items c) of None \<Rightarrow> Inl ItemNotFound | Some (k, v) \<Rightarrow> Inr v)"

definition last_item :: "('v \<Rightarrow> key \<Rightarrow> bool) \<Rightarrow> 'v Collection \<Rightarrow> 'v option" where
  "last_item f c = foldl (\<lambda>r (k, v). if f v k then Some v else r) None (items c)"

definition sole :: "('v \<Rightarrow> key \<Rightarrow> bool) \<Rightarrow> 'v Collection \<Rightarrow> collection_error + 'v" where
  "sole f c =
     (let matches = filter_collection f c in
      if count_items matches = 0 then Inl ItemNotFound
      else if 1 < count_items matches then Inl (MultipleItemsFound (count_items matches))
      else Inr (snd (hd (items matches))))"

definition hasSole where "hasSole f c = (count_items (filter_collection f c) = 1)"
definition hasMany where "hasMany f c = (1 < count_items (filter_collection f c))"

definition contains :: "('v \<Rightarrow> key \<Rightarrow> bool) \<Rightarrow> 'v Collection \<Rightarrow> bool" where
  "contains f c = list_ex (\<lambda>(k, v). f v k) (items c)"

definition every :: "('v \<Rightarrow> key \<Rightarrow> bool) \<Rightarrow> 'v Collection \<Rightarrow> bool" where
  "every f c = list_all (\<lambda>(k, v). f v k) (items c)"

definition search :: "('v \<Rightarrow> key \<Rightarrow> bool) \<Rightarrow> 'v Collection \<Rightarrow> key option" where
  "search f c = map_option fst (first_match f (items c))"

text \<open>\<open>Array.prototype.indexOf\<close>.\<close>

fun position_of :: "'a \<Rightarrow> 'a list \<Rightarrow> nat option" where
  "position_of x [] = None"
| "position_of x (y # ys) = (if y = x then Some 0 else map_option Suc (position_of x ys))"

definition before :: "('v \<Rightarrow> key \<Rightarrow> bool) \<Rightarrow> 'v Collection \<Rightarrow> 'v option" where
  "before f c =
     (let ks = keys_of (items c) in
      case search f c of None \<Rightarrow> None
      | Some k \<Rightarrow> (case position_of k ks of None \<Rightarrow> None
          | Some i \<Rightarrow> if i = 0 then None else map_of (items c) (ks ! (i - 1))))"

definition after :: "('v \<Rightarrow> key \<Rightarrow> bool) \<Rightarrow> 'v Collection \<Rightarrow> 'v option" where
  "after f c =
     (let ks = keys_of (items c) in
      case search f c of None \<Rightarrow> None
      | Some k \<Rightarrow> (case position_of k ks of None \<Rightarrow> None
          | Some i \<Rightarrow> if i = length ks - 1 then None else map_of (items c) (ks ! (i + 1))))"

fun ensure_loop :: "('v \<Rightarrow> bool) \<Rightarrow> nat \<Rightarrow> 'v list \<Rightarrow> collection_error + unit" where
  "ensure_loop f i [] = Inr ()"
| "ensure_loop f i (v # vs) = (if \<not> f v then Inl (FailedEnsure i) else ensure_loop f (Suc i) vs)"

definition ensure :: "('v \<Rightarrow> bool) \<Rightarrow> 'v Collection \<Rightarrow> collection_error + unit" where
  "ensure f c = ensure_loop f 0 (all_items c)"

section \<open>Grouping\<close>

definition groupBy :: "('v \<Rightarrow> key \<Rightarrow> key) \<Rightarrow> 'v Collection \<Rightarrow> 'v Collection Collection" where
  "groupBy retrieve c =
     newInstance (map (\<lambda>(k, vs). (k, make vs)) (buckets (map (\<lambda>(k, v). (retrieve v k, v)) (items c)))) 0"

definition keyBy :: "('v \<Rightarrow> key \<Rightarrow> key) \<Rightarrow> 'v Collection \<Rightarrow> 'v Collection" where
  "keyBy retrieve c = newInstance (put_all (map (\<lambda>(k, v). (retrieve v k, v)) (items c)) []) 0"

definition countBy :: "('v \<Rightarrow> key \<Rightarrow> key) \<Rightarrow> 'v Collection \<Rightarrow> nat Collection" where
  "countBy retrieve c =
     newInstance (foldl (\<lambda>m k. map_put k (nullish (map_of m k) 0 + 1) m) [] (map (\<lambda>(k, v). retrieve v k) (items c))) 0"

definition partition :: "('v \<Rightarrow> key \<Rightarrow> bool) \<Rightarrow> 'v Collection \<Rightarrow> 'v Collection \<times> 'v Collection" where
  "partition f c =
     (make (map snd (filter (\<lambda>(k, v). f v k) (items c))), make (map snd (filter (\<lambda>(k, v). \<not> f v k) (items c))))"

fun duplicates_loop :: "('v \<Rightarrow> key \<Rightarrow> 'r) \<Rightarrow> 'r list \<Rightarrow> (key \<times> 'v) list \<Rightarrow> (key \<times> 'v) list" where
  "duplicates_loop retrieve seen [] = []"
| "duplicates_loop retrieve seen ((k, v) # es) =
     (if retrieve v k \<in> set seen then (k, v) # duplicates_loop retrieve seen es
      else duplicates_loop retrieve (set_add (retrieve v k) seen) es)"

definition duplicates :: "('v \<Rightarrow> key \<Rightarrow> 'r) \<Rightarrow> 'v Collection \<Rightarrow> 'v Collection" where
  "duplicates retrieve c = newInstance (duplicates_loop retrieve [] (items c)) 0"

fun unique_loop :: "('v \<Rightarrow> key \<Rightarrow> 'r) \<Rightarrow> 'r list \<Rightarrow> (key \<times> 'v) list \<Rightarrow> (key \<times> 'v) list" where
  "unique_loop retrieve seen [] = []"
| "unique_loop retrieve seen ((k, v) # es) =
     (if retrieve v k \<in> set seen then unique_loop retrieve seen es
      else (k, v) # unique_loop retrieve (set_add (retrieve v k) seen) es)"

definition unique :: "('v \<Rightarrow> key \<Rightarrow> 'r) \<Rightarrow> 'v Collection \<Rightarrow> 'v Collection" where
  "unique retrieve c = newInstance (unique_loop retrieve [] (items c)) (nextIndex c)"

section \<open>Aggregates\<close>

text \<open>Numbers are rationals; a selector returns nothing for null and undefined.\<close>

definition sum_of :: "('v \<Rightarrow> key \<Rightarrow> rat) \<Rightarrow> 'v Collection \<Rightarrow> rat" where
  "sum_of retrieve c = reduce (\<lambda>acc v k. acc + retrieve v k) 0 c"

definition avg :: "('v \<Rightarrow> key \<Rightarrow> rat option) \<Rightarrow> 'v Collection \<Rightarrow> rat option" where
  "avg retrieve c =
     (let (total, n) = foldl (\<lambda>(t, n) (k, v). case retrieve v k of None \<Rightarrow> (t, n) | Some x \<Rightarrow> (t + x, n + 1)) (0, 0) (items c) in
      if n = (0 :: nat) then None else Some (total / of_nat n))"

definition min_of :: "('v \<Rightarrow> key \<Rightarrow> rat option) \<Rightarrow> 'v Collection \<Rightarrow> rat option" where
  "min_of retrieve c =
     foldl (\<lambda>r (k, v). case retrieve v k of None \<Rightarrow> r
        | Some x \<Rightarrow> (case r of None \<Rightarrow> Some x | Some y \<Rightarrow> if x < y then Some x else r)) None (items c)"

definition max_of :: "('v \<Rightarrow> key \<Rightarrow> rat option) \<Rightarrow> 'v Collection \<Rightarrow> rat option" where
  "max_of retrieve c =
     foldl (\<lambda>r (k, v). case retrieve v k of None \<Rightarrow> r
        | Some x \<Rightarrow> (case r of None \<Rightarrow> Some x | Some y \<Rightarrow> if y < x then Some x else r)) None (items c)"

text \<open>\<open>median\<close> hands its selector the position, not the key.\<close>

definition median :: "('v \<Rightarrow> key \<Rightarrow> rat option) \<Rightarrow> 'v Collection \<Rightarrow> rat option" where
  "median retrieve c =
     (let vs = sort (concat (map (\<lambda>(i, v). case retrieve v i of None \<Rightarrow> [] | Some x \<Rightarrow> [x]) (number_from 0 (all_items c))));
          n = length vs; middle = n div 2 in
      if n = 0 then None
      else if n mod 2 = 1 then Some (vs ! middle)
      else Some ((vs ! (middle - 1) + vs ! middle) / 2))"

definition mode :: "('v \<Rightarrow> key \<Rightarrow> rat) \<Rightarrow> 'v Collection \<Rightarrow> rat list option" where
  "mode retrieve c =
     (if isEmpty c then None
      else let counts = foldl (\<lambda>m x. map_put x (nullish (map_of m x) 0 + 1) m) [] (map (\<lambda>(k, v). retrieve v k) (items c));
               highest = Max (snd ` set counts) :: nat in
        Some (sort (map fst (filter (\<lambda>(x, n). n = highest) counts))))"

definition percentage :: "('v \<Rightarrow> key \<Rightarrow> bool) \<Rightarrow> nat \<Rightarrow> 'v Collection \<Rightarrow> rat option" where
  "percentage f precision c =
     (if isEmpty c then None
      else let factor = 10 ^ precision in
        Some (of_int \<lfloor>rat_of_nat (count_items (filter_collection f c)) / rat_of_nat (count_items c) * 100 * factor + 1 / 2\<rfloor> / factor))"

section \<open>Slices\<close>

definition slice :: "int \<Rightarrow> int option \<Rightarrow> 'v Collection \<Rightarrow> 'v Collection" where
  "slice offset len c =
     (let es = items c;
          start = (if offset < 0 then max (int (length es) + offset) 0 else offset);
          stop = (case len of None \<Rightarrow> int (length es) | Some n \<Rightarrow> start + n) in
      newInstance (js_slice start stop es) (nextIndex c))"

definition take_items :: "int \<Rightarrow> 'v Collection \<Rightarrow> 'v Collection" where
  "take_items limit c = (if limit < 0 then slice limit None c else slice 0 (Some limit) c)"

definition skip :: "int \<Rightarrow> 'v Collection \<Rightarrow> 'v Collection" where
  "skip n c = slice n None c"

definition forPage :: "int \<Rightarrow> int \<Rightarrow> 'v Collection \<Rightarrow> 'v Collection" where
  "forPage page perPage c = slice (max 0 ((page - 1) * perPage)) (Some perPage) c"

definition takeUntil :: "('v \<Rightarrow> key \<Rightarrow> bool) \<Rightarrow> 'v Collection \<Rightarrow> 'v Collection" where
  "takeUntil f c = newInstance (takeWhile (\<lambda>(k, v). \<not> f v k) (items c)) (nextIndex c)"

definition takeWhile_items :: "('v \<Rightarrow> key \<Rightarrow> bool) \<Rightarrow> 'v Collection \<Rightarrow> 'v Collection" where
  "takeWhile_items f c = newInstance (takeWhile (\<lambda>(k, v). f v k) (items c)) (nextIndex c)"

definition skipUntil :: "('v \<Rightarrow> key \<Rightarrow> bool) \<Rightarrow> 'v Collection \<Rightarrow> 'v Collection" where
  "skipUntil f c = newInstance (dropWhile (\<lambda>(k, v). \<not> f v k) (items c)) (nextIndex c)"

definition skipWhile :: "('v \<Rightarrow> key \<Rightarrow> bool) \<Rightarrow> 'v Collection \<Rightarrow> 'v Collection" where
  "skipWhile f c = newInstance (dropWhile (\<lambda>(k, v). f v k) (items c)) (nextIndex c)"

fun every_nth :: "nat \<Rightarrow> nat \<Rightarrow> 'v list \<Rightarrow> 'v list" where
  "every_nth step i [] = []"
| "every_nth step i (v # vs) = (if i mod step = 0 then v # every_nth step (Suc i) vs else every_nth step (Suc i) vs)"

definition nth_items :: "int \<Rightarrow> int \<Rightarrow> 'v Collection \<Rightarrow> collection_error + 'v Collection" where
  "nth_items step offset c =
     (if step < 1 then Inl (RangeError ''Step value must be at least 1.'')
      else Inr (make (every_nth (nat step) 0 (all_items (slice offset None c)))))"

section \<open>Chunks\<close>

function chunk_lists :: "nat \<Rightarrow> 'v list \<Rightarrow> 'v list list" where
  "chunk_lists sz vs = (if vs = [] \<or> sz = 0 then [] else take sz vs # chunk_lists sz (drop sz vs))"
  by pat_completeness auto
termination by (relation "measure (\<lambda>(n, vs). length vs)") auto

declare chunk_lists.simps [simp del]

definition chunk :: "int \<Rightarrow> 'v Collection \<Rightarrow> 'v Collection Collection" where
  "chunk sz c = (if sz \<le> 0 then empty_collection else make (map make (chunk_lists (nat sz) (all_items c))))"

fun chunkWhile_loop :: "('v \<Rightarrow> key \<Rightarrow> 'v Collection \<Rightarrow> bool) \<Rightarrow> 'v list \<Rightarrow> (key \<times> 'v) list \<Rightarrow> 'v Collection list" where
  "chunkWhile_loop f current [] = (if current \<noteq> [] then [make current] else [])"
| "chunkWhile_loop f current ((k, v) # es) =
     (if current = [] \<or> f v k (make current) then chunkWhile_loop f (current @ [v]) es
      else make current # chunkWhile_loop f [v] es)"

definition chunkWhile :: "('v \<Rightarrow> key \<Rightarrow> 'v Collection \<Rightarrow> bool) \<Rightarrow> 'v Collection \<Rightarrow> 'v Collection Collection" where
  "chunkWhile f c = make (chunkWhile_loop f [] (items c))"

definition sliding :: "int \<Rightarrow> int \<Rightarrow> 'v Collection \<Rightarrow> collection_error + 'v Collection Collection" where
  "sliding sz step c =
     (if sz < 1 then Inl (RangeError ''Size value must be at least 1.'')
      else if step < 1 then Inl (RangeError ''Step value must be at least 1.'')
      else let vs = all_items c; n = (int (length vs) - sz) div step + 1 in
        Inr (make (map (\<lambda>i. make (js_slice (i * step) (i * step + sz) vs)) [0..n - 1])))"

fun split_loop :: "nat \<Rightarrow> nat \<Rightarrow> nat \<Rightarrow> 'v list \<Rightarrow> 'v list list" where
  "split_loop 0 groupSize remainder vs = []"
| "split_loop (Suc n) groupSize remainder vs =
     (let sz = groupSize + (if 0 < remainder then 1 else 0) in
      if 0 < sz then take sz vs # split_loop n groupSize (remainder - 1) (drop sz vs)
      else split_loop n groupSize (remainder - 1) vs)"

definition split_groups :: "int \<Rightarrow> 'v Collection \<Rightarrow> collection_error + 'v Collection Collection" where
  "split_groups numberOfGroups c =
     (if numberOfGroups < 1 then Inl (RangeError ''Number of groups must be at least 1.'')
      else if isEmpty c then Inr empty_collection
      else let vs = all_items c; n = nat numberOfGroups in
        Inr (make (map make (split_loop n (length vs div n) (length vs mod n) vs))))"

definition splitIn :: "int \<Rightarrow> 'v Collection \<Rightarrow> collection_error + 'v Collection Collection" where
  "splitIn numberOfGroups c =
     (if numberOfGroups < 1 then Inl (RangeError ''Number of groups must be at least 1.'')
      else Inr (chunk ((int (count_items c) + numberOfGroups - 1) div numberOfGroups) c))"

section \<open>Orders\<close>

text \<open>
  \<open>Array.prototype.sort\<close>, which is stable: for a comparator that is a total preorder its result is
  determined, and insertion from the right computes it.
\<close>

fun insert_by :: "('a \<Rightarrow> 'a \<Rightarrow> int) \<Rightarrow> 'a \<Rightarrow> 'a list \<Rightarrow> 'a list" where
  "insert_by cmp x [] = [x]"
| "insert_by cmp x (y # ys) = (if cmp x y \<le> 0 then x # y # ys else y # insert_by cmp x ys)"

definition js_sort :: "('a \<Rightarrow> 'a \<Rightarrow> int) \<Rightarrow> 'a list \<Rightarrow> 'a list" where
  "js_sort cmp xs = foldr (insert_by cmp) xs []"

text \<open>What a comparison without a comparator sees of a value: a number, a text, or something else as text.\<close>

datatype comparable = Numeric int | Text string | Other string

fun as_text :: "comparable \<Rightarrow> string" where
  "as_text (Numeric i) = (if i < 0 then CHR ''-'' # string_of_nat (nat (- i)) else string_of_nat (nat i))"
| "as_text (Text s) = s"
| "as_text (Other s) = s"

fun code_units_less :: "string \<Rightarrow> string \<Rightarrow> bool" where
  "code_units_less [] [] = False"
| "code_units_less [] (_ # _) = True"
| "code_units_less (_ # _) [] = False"
| "code_units_less (a # s) (b # t) =
     (if a = b then code_units_less s t else (of_char a :: nat) < of_char b)"

text \<open>\<open>localeCompare\<close> is a parameter.\<close>

definition defaultCompare :: "(string \<Rightarrow> string \<Rightarrow> int) \<Rightarrow> comparable \<Rightarrow> comparable \<Rightarrow> int" where
  "defaultCompare locale_compare a b =
     (if a = b then 0
      else case (a, b) of
        (Numeric x, Numeric y) \<Rightarrow> (if x < y then - 1 else if x > y then 1 else 0)
      | (Numeric _, _) \<Rightarrow> - 1
      | (_, Numeric _) \<Rightarrow> 1
      | (Text s, Text t) \<Rightarrow> locale_compare s t
      | _ \<Rightarrow> (if code_units_less (as_text a) (as_text b) then - 1
              else if code_units_less (as_text b) (as_text a) then 1 else 0))"

definition sort_items :: "('v \<Rightarrow> 'v \<Rightarrow> int) \<Rightarrow> 'v Collection \<Rightarrow> 'v Collection" where
  "sort_items cmp c = newInstance (js_sort (\<lambda>a b. cmp (snd a) (snd b)) (items c)) (nextIndex c)"

definition sortBy ::
  "(string \<Rightarrow> string \<Rightarrow> int) \<Rightarrow> ('v \<Rightarrow> key \<Rightarrow> comparable) \<Rightarrow> bool \<Rightarrow> 'v Collection \<Rightarrow> 'v Collection" where
  "sortBy locale_compare retrieve descending c =
     newInstance (js_sort (\<lambda>a b.
         let result = defaultCompare locale_compare (retrieve (snd a) (fst a)) (retrieve (snd b) (fst b)) in
         if descending then - result else result) (items c)) (nextIndex c)"

fun comparable_key :: "key \<Rightarrow> comparable" where
  "comparable_key (IntKey i) = Numeric i" | "comparable_key (StrKey s) = Text s"

definition sortKeys :: "(string \<Rightarrow> string \<Rightarrow> int) \<Rightarrow> bool \<Rightarrow> 'v Collection \<Rightarrow> 'v Collection" where
  "sortKeys locale_compare descending c =
     newInstance (js_sort (\<lambda>a b.
         let result = defaultCompare locale_compare (comparable_key (fst a)) (comparable_key (fst b)) in
         if descending then - result else result) (items c)) (nextIndex c)"

definition sortKeysUsing :: "(key \<Rightarrow> key \<Rightarrow> int) \<Rightarrow> 'v Collection \<Rightarrow> 'v Collection" where
  "sortKeysUsing cmp c = newInstance (js_sort (\<lambda>a b. cmp (fst a) (fst b)) (items c)) (nextIndex c)"

definition reverse :: "'v Collection \<Rightarrow> 'v Collection" where
  "reverse c = newInstance (rev (items c)) (nextIndex c)"

text \<open>The random choices of \<open>shuffle\<close>: at \<open>i\<close> an index up to \<open>i\<close>.\<close>

fun shuffle_loop :: "(nat \<Rightarrow> nat) \<Rightarrow> nat \<Rightarrow> 'a list \<Rightarrow> 'a list" where
  "shuffle_loop pick 0 xs = xs"
| "shuffle_loop pick (Suc i) xs =
     (let j = min (pick (Suc i)) (Suc i) in shuffle_loop pick i (xs[Suc i := xs ! j, j := xs ! Suc i]))"

definition shuffle :: "(nat \<Rightarrow> nat) \<Rightarrow> 'v Collection \<Rightarrow> 'v Collection" where
  "shuffle pick c = newInstance (shuffle_loop pick (length (items c) - 1) (items c)) (nextIndex c)"

definition random_items :: "(nat \<Rightarrow> nat) \<Rightarrow> int \<Rightarrow> 'v Collection \<Rightarrow> 'v Collection" where
  "random_items pick n c = make (js_slice 0 n (shuffle_loop pick (length (items c) - 1) (all_items c)))"

section \<open>Several collections\<close>

datatype 'v source = FromCollection "'v Collection" | FromArray "'v list" | FromEntries "(key \<times> 'v) list"

fun toEntries :: "'v source \<Rightarrow> int \<Rightarrow> (key \<times> 'v) list" where
  "toEntries (FromCollection c) start = (if isListLike c then number_from start (all_items c) else items c)"
| "toEntries (FromArray vs) start = number_from start vs"
| "toEntries (FromEntries es) start = es"

definition nextIndexFor :: "(key \<times> 'v) list \<Rightarrow> int \<Rightarrow> int" where
  "nextIndexFor es fallback = foldl (\<lambda>next k. after_key k next) fallback (keys_of es)"

definition merge :: "'v source \<Rightarrow> 'v Collection \<Rightarrow> 'v Collection" where
  "merge src c =
     (let m = put_all (toEntries src (nextIndex c)) (items c) in newInstance m (nextIndexFor m (nextIndex c)))"

definition union :: "'v source \<Rightarrow> 'v Collection \<Rightarrow> 'v Collection" where
  "union src c =
     (let m = foldl (\<lambda>m (k, v). if map_of m k \<noteq> None then m else map_put k v m) (items c) (toEntries src (nextIndex c)) in
      newInstance m (nextIndexFor m (nextIndex c)))"

definition concat_items :: "'v list \<Rightarrow> 'v Collection \<Rightarrow> 'v Collection" where
  "concat_items src c = make (all_items c @ src)"

definition multiply :: "int \<Rightarrow> 'v Collection \<Rightarrow> 'v Collection" where
  "multiply n c = (if n \<le> 0 then empty_collection else make (concat (replicate (nat n) (all_items c))))"

definition diff :: "'v list \<Rightarrow> 'v Collection \<Rightarrow> 'v Collection" where
  "diff vs c = filter_collection (\<lambda>v k. v \<notin> set vs) c"

definition diffUsing :: "'v list \<Rightarrow> ('v \<Rightarrow> 'v \<Rightarrow> int) \<Rightarrow> 'v Collection \<Rightarrow> 'v Collection" where
  "diffUsing vs cmp c = filter_collection (\<lambda>v k. \<not> list_ex (\<lambda>w. cmp v w = 0) vs) c"

definition intersect :: "'v list \<Rightarrow> 'v Collection \<Rightarrow> 'v Collection" where
  "intersect vs c = filter_collection (\<lambda>v k. v \<in> set vs) c"

definition intersectUsing :: "'v list \<Rightarrow> ('v \<Rightarrow> 'v \<Rightarrow> int) \<Rightarrow> 'v Collection \<Rightarrow> 'v Collection" where
  "intersectUsing vs cmp c = filter_collection (\<lambda>v k. list_ex (\<lambda>w. cmp v w = 0) vs) c"

definition crossJoin :: "'v list list \<Rightarrow> 'v Collection \<Rightarrow> 'v list Collection" where
  "crossJoin lsts c =
     make (foldl (\<lambda>result xs. concat (map (\<lambda>combo. map (\<lambda>x. combo @ [x]) xs) result)) (map (\<lambda>v. [v]) (all_items c)) lsts)"

text \<open>Positions past the end of an array are undefined.\<close>

definition at_index :: "nat \<Rightarrow> 'a list \<Rightarrow> 'a option" where
  "at_index i xs = (if i < length xs then Some (xs ! i) else None)"

definition combine :: "'u list \<Rightarrow> key Collection \<Rightarrow> 'u option Collection" where
  "combine vs c =
     newInstance (put_all (map (\<lambda>(i, k). (k, at_index i vs)) (enumerate 0 (all_items c))) []) 0"

definition flip :: "key Collection \<Rightarrow> key Collection" where
  "flip c = newInstance (put_all (map (\<lambda>(k, v). (v, k)) (items c)) []) 0"

definition zip_items :: "'u list list \<Rightarrow> 'v Collection \<Rightarrow> ('v \<times> 'u option list) Collection" where
  "zip_items arrays c = make (map (\<lambda>(i, v). (v, map (at_index i) arrays)) (enumerate 0 (all_items c)))"

definition pad :: "int \<Rightarrow> 'v \<Rightarrow> 'v Collection \<Rightarrow> 'v Collection" where
  "pad sz v c =
     (let vs = all_items c; missing = \<bar>sz\<bar> - int (length vs) in
      if missing \<le> 0 then make vs
      else make (if sz < 0 then replicate (nat missing) v @ vs else vs @ replicate (nat missing) v))"

definition pluck :: "('v \<Rightarrow> 'u) \<Rightarrow> ('v \<Rightarrow> key) option \<Rightarrow> 'v Collection \<Rightarrow> 'u Collection" where
  "pluck val k c =
     (case k of
        None \<Rightarrow> make (map val (all_items c))
      | Some k \<Rightarrow> newInstance (put_all (map (\<lambda>v. (k v, val v)) (all_items c)) []) 0)"

definition implode :: "('v \<Rightarrow> key \<Rightarrow> string) \<Rightarrow> string \<Rightarrow> 'v Collection \<Rightarrow> string" where
  "implode f glue c = join_with glue (map (\<lambda>(i, v). f v i) (number_from 0 (all_items c)))"

definition join_items :: "('v \<Rightarrow> string) \<Rightarrow> string \<Rightarrow> string \<Rightarrow> 'v Collection \<Rightarrow> string" where
  "join_items show glue finalGlue c =
     (if finalGlue = '''' then implode (\<lambda>v k. show v) glue c
      else let vs = map show (all_items c) in
        if vs = [] then '''' else if length vs = 1 then hd vs
        else join_with glue (butlast vs) @ finalGlue @ last vs)"

section \<open>Nested values\<close>

datatype 'a nest = Single 'a | Array "'a nest list" | Nested "(key \<times> 'a nest) list"

text \<open>The depth is unbounded, or a number of levels.\<close>

definition deeper :: "nat option \<Rightarrow> nat option" where
  "deeper d = map_option (\<lambda>n. n - 1) d"

function flattenValues :: "nat option \<Rightarrow> 'a nest list \<Rightarrow> 'a nest list" where
  "flattenValues d [] = []"
| "flattenValues d (Single x # vs) = Single x # flattenValues d vs"
| "flattenValues d (Array xs # vs) =
     (if d \<noteq> Some 0 then flattenValues (deeper d) xs else [Array xs]) @ flattenValues d vs"
| "flattenValues d (Nested es # vs) =
     (if d \<noteq> Some 0 then flattenValues (deeper d) (map snd es) else [Nested es]) @ flattenValues d vs"
  by pat_completeness auto
termination
proof (relation "measure (\<lambda>(d, vs). size_list size vs)", goal_cases)
  case (5 d es vs)
  have "size_list size (map snd es) \<le> size_list (size_prod (\<lambda>_. 0) size) es" for es :: "(key \<times> 'a nest) list"
    by (induction es) auto
  from this [of es] show ?case by simp
qed auto

definition flatten :: "nat option \<Rightarrow> 'a nest Collection \<Rightarrow> 'a nest Collection" where
  "flatten depth c = make (flattenValues depth (all_items c))"

fun spread :: "'a nest \<Rightarrow> 'a nest list" where
  "spread (Single x) = [Single x]" | "spread (Array xs) = xs" | "spread (Nested es) = map snd es"

definition collapse :: "'a nest Collection \<Rightarrow> 'a nest Collection" where
  "collapse c = make (concat (map spread (all_items c)))"

definition flatMap :: "('v \<Rightarrow> key \<Rightarrow> 'a nest) \<Rightarrow> 'v Collection \<Rightarrow> 'a nest Collection" where
  "flatMap f c = collapse (map_collection f c)"

end
