(* ===== verification/CollectionLaws.thy ===== *)
theory CollectionLaws
  imports Collections "HOL-Library.Multiset"
begin

text \<open>
  What the operations of Collections guarantee: which of them keep the next index past every integer
  key, so that \<open>push\<close> appends, and what sorting, grouping, chunking and paging return.
\<close>

section \<open>The next index\<close>

abbreviation key_set :: "(key \<times> 'v) list \<Rightarrow> key set" where
  "key_set es \<equiv> fst ` set es"

definition fresh :: "'v Collection \<Rightarrow> bool" where
  "fresh c \<longleftrightarrow> distinct (keys_of (items c)) \<and> (\<forall>i. IntKey i \<in> key_set (items c) \<longrightarrow> i < nextIndex c)"

lemma freshI:
  "distinct (keys_of (items c)) \<Longrightarrow> (\<And>i. IntKey i \<in> key_set (items c) \<Longrightarrow> i < nextIndex c) \<Longrightarrow> fresh c"
  by (simp add: fresh_def)

lemma freshD: "fresh c \<Longrightarrow> distinct (keys_of (items c))" "fresh c \<Longrightarrow> IntKey i \<in> key_set (items c) \<Longrightarrow> i < nextIndex c"
  by (simp_all add: fresh_def)

lemma number_from_append: "number_from i (vs @ ws) = number_from i vs @ number_from (i + int (length vs)) ws"
  by (induction vs arbitrary: i) (simp_all add: algebra_simps)

lemma map_snd_number_from [simp]: "map snd (number_from i vs) = vs"
  by (induction vs arbitrary: i) simp_all

lemma length_number_from [simp]: "length (number_from i vs) = length vs"
  by (induction vs arbitrary: i) simp_all

lemma keys_number_from: "keys_of (number_from i vs) = map IntKey [i..i + int (length vs) - 1]"
  by (induction vs arbitrary: i) (simp_all add: upto_rec1 algebra_simps)

lemma key_set_number_from: "key_set (number_from i vs) = IntKey ` {i..<i + int (length vs)}"
  using arg_cong [OF keys_number_from [of i vs], of set] by auto

lemma distinct_keys_number_from [simp]: "distinct (keys_of (number_from i vs))"
  by (simp add: keys_number_from distinct_map inj_on_def)

lemma fresh_number: "fresh \<lparr>items = number_from 0 vs, nextIndex = int (length vs)\<rparr>"
  by (rule freshI) (simp_all add: key_set_number_from image_iff)

lemma all_items_make [simp]: "all_items (make vs) = vs"
  by (simp add: all_items_def make_def)

lemma fresh_make: "fresh (make vs)"
  by (simp add: make_def fresh_number)

lemma map_put_new: "k \<notin> key_set m \<Longrightarrow> map_put k v m = m @ [(k, v)]"
  by (induction m) auto

lemma push_items: "fresh c \<Longrightarrow> items (push vs c) = items c @ number_from (nextIndex c) vs \<and> fresh (push vs c)"
proof (induction vs arbitrary: c)
  case (Cons v vs)
  let ?c = "\<lparr>items = map_put (IntKey (nextIndex c)) v (items c), nextIndex = nextIndex c + 1\<rparr>"
  have new: "IntKey (nextIndex c) \<notin> key_set (items c)" using freshD(2) [OF Cons.prems] by blast
  have "fresh ?c"
  proof (rule freshI)
    show "i < nextIndex ?c" if "IntKey i \<in> key_set (items ?c)" for i
    proof (cases "i = nextIndex c")
      case False
      then have "IntKey i \<in> key_set (items c)" using that by simp
      then show ?thesis using freshD(2) [OF Cons.prems] by fastforce
    qed simp
  qed (simp add: freshD(1) [OF Cons.prems])
  then show ?case using Cons.IH [of ?c] new by (simp add: map_put_new)
qed simp

lemma after_key_bounds: "nx \<le> after_key k nx" "i < after_key (IntKey i) nx"
  by (auto simp: after_key_def split: key.splits)

lemma fresh_put: "fresh c \<Longrightarrow> fresh (put k v c)"
proof (rule freshI)
  fix i
  assume c: "fresh c" and mem: "IntKey i \<in> key_set (items (put k v c))"
  show "i < nextIndex (put k v c)"
  proof (cases "k = IntKey i")
    case False
    then have "IntKey i \<in> key_set (items c)" using mem by (simp add: put_def)
    then show ?thesis
      using freshD(2) [OF c, of i] after_key_bounds(1) [of "nextIndex c" k] by (simp add: put_def)
  qed (simp add: put_def after_key_bounds)
qed (simp add: put_def freshD(1))

lemma fresh_sub:
  assumes "fresh c" "distinct (keys_of es)" "key_set es \<subseteq> key_set (items c)"
  shows "fresh \<lparr>items = es, nextIndex = nextIndex c\<rparr>"
  using assms by (auto simp: fresh_def)

lemma fresh_with:
  "fresh c \<Longrightarrow> distinct (keys_of es) \<Longrightarrow> key_set es \<subseteq> key_set (items c) \<Longrightarrow> fresh (c\<lparr>items := es\<rparr>)"
  by (auto simp: fresh_def)

lemma distinct_keys_parts:
  assumes "distinct (keys_of es)"
  shows "distinct (keys_of (filter P es))" "distinct (keys_of (take n es))" "distinct (keys_of (drop n es))"
    "distinct (keys_of (takeWhile P es))" "distinct (keys_of (dropWhile P es))" "distinct (keys_of (butlast es))"
    "distinct (keys_of (rev es))"
  using assms
  by (auto simp: distinct_map distinct_take distinct_drop distinct_butlast inj_on_def
      dest: in_set_takeD in_set_dropD in_set_butlastD set_takeWhileD set_dropWhileD
      simp: distinct_takeWhile distinct_dropWhile)

lemma key_set_parts:
  "key_set (filter P es) \<subseteq> key_set es" "key_set (take n es) \<subseteq> key_set es" "key_set (drop n es) \<subseteq> key_set es"
  "key_set (takeWhile P es) \<subseteq> key_set es" "key_set (dropWhile P es) \<subseteq> key_set es" "key_set (butlast es) \<subseteq> key_set es"
  by (auto dest: in_set_takeD in_set_dropD in_set_butlastD set_takeWhileD set_dropWhileD)

text \<open>Merging keeps the index past the new keys too.\<close>

lemma put_all_Cons: "put_all ((k, v) # es) m = put_all es (map_put k v m)"
  by (simp add: put_all_def)

lemma distinct_put_all: "distinct (keys_of m) \<Longrightarrow> distinct (keys_of (put_all es m))"
  by (induction es arbitrary: m) (simp_all add: put_all_def case_prod_unfold)

lemma nextIndexFor_bounds:
  "fallback \<le> nextIndexFor es fallback \<and> (\<forall>i. IntKey i \<in> key_set es \<longrightarrow> i < nextIndexFor es fallback)"
proof (induction es arbitrary: fallback)
  case (Cons e es)
  let ?next = "after_key (fst e) fallback"
  have step: "nextIndexFor (e # es) fallback = nextIndexFor es ?next" by (simp add: nextIndexFor_def)
  note IH = Cons.IH [of ?next]
  have "i < nextIndexFor es ?next" if "IntKey i \<in> key_set (e # es)" for i
  proof (cases "fst e = IntKey i")
    case True
    then show ?thesis using after_key_bounds(2) [of i fallback] IH by simp
  next
    case False
    then show ?thesis using that IH by auto
  qed
  moreover have "fallback \<le> nextIndexFor es ?next"
    using after_key_bounds(1) [of fallback "fst e"] IH by linarith
  ultimately show ?case unfolding step by blast
qed (simp add: nextIndexFor_def)

lemma fresh_next: "distinct (keys_of es) \<Longrightarrow> fresh (newInstance es (nextIndexFor es fallback))"
  using nextIndexFor_bounds [of fallback es] by (simp add: fresh_def newInstance_def)

lemma fresh_merge: "fresh c \<Longrightarrow> fresh (merge src c)"
  by (simp add: merge_def Let_def fresh_next distinct_put_all freshD(1))

lemma distinct_union:
  "distinct (keys_of m) \<Longrightarrow> distinct (keys_of (foldl (\<lambda>m (k, v). if map_of m k \<noteq> None then m else map_put k v m) m es))"
  by (induction es arbitrary: m) (simp_all add: case_prod_unfold)

lemma fresh_union: "fresh c \<Longrightarrow> fresh (union src c)"
  unfolding union_def Let_def by (rule fresh_next) (rule distinct_union [OF freshD(1)])

text \<open>Ordering and dropping items leaves the keys what they were.\<close>

lemma mset_insert_by [simp]: "mset (insert_by cmp x ys) = add_mset x (mset ys)"
  by (induction ys) auto

lemma mset_js_sort [simp]: "mset (js_sort cmp xs) = mset xs"
  by (induction xs) (simp_all add: js_sort_def)

lemma mset_shuffle_loop: "i < length xs \<Longrightarrow> mset (shuffle_loop pick i xs) = mset xs"
proof (induction i arbitrary: xs)
  case (Suc i)
  let ?j = "min (pick (Suc i)) (Suc i)"
  have "mset (xs[Suc i := xs ! ?j, ?j := xs ! Suc i]) = mset xs" by (rule mset_swap) (use Suc.prems in auto)
  then show ?case using Suc.IH [of "xs[Suc i := xs ! ?j, ?j := xs ! Suc i]"] Suc.prems by (simp add: Let_def)
qed simp

lemma fresh_perm:
  assumes "fresh c" "mset es = mset (items c)"
  shows "fresh (newInstance es (nextIndex c))"
  unfolding newInstance_def
proof (rule fresh_sub [OF assms(1)])
  have "mset (keys_of es) = mset (keys_of (items c))" using assms(2) by simp
  then show "distinct (keys_of es)" using freshD(1) [OF assms(1)] mset_eq_imp_distinct_iff by blast
  show "key_set es \<subseteq> key_set (items c)" using mset_eq_setD [OF assms(2)] by simp
qed

lemma unique_loop_parts: "key_set (unique_loop f seen es) \<subseteq> key_set es \<and> (distinct (keys_of es) \<longrightarrow> distinct (keys_of (unique_loop f seen es)))"
  by (induction f seen es rule: unique_loop.induct) auto

lemma fresh_del: "fresh c \<Longrightarrow> fresh (c\<lparr>items := map_del k (items c)\<rparr>)"
  unfolding map_del_def
  by (rule fresh_with) (simp_all only: freshD(1) distinct_map_filter key_set_parts)

lemma fresh_forget: "fresh c \<Longrightarrow> fresh (forget_keys ks c)"
proof (induction ks arbitrary: c)
  case (Cons k ks)
  then show ?case using Cons.IH [OF fresh_del [OF Cons.prems, of k]] by (simp add: forget_keys_def)
qed (simp add: forget_keys_def)

lemma fresh_part:
  "fresh c \<Longrightarrow> fresh (newInstance (filter P (items c)) (nextIndex c))"
  "fresh c \<Longrightarrow> fresh (newInstance (takeWhile P (items c)) (nextIndex c))"
  "fresh c \<Longrightarrow> fresh (newInstance (dropWhile P (items c)) (nextIndex c))"
  "fresh c \<Longrightarrow> fresh (newInstance (rev (items c)) (nextIndex c))"
  "fresh c \<Longrightarrow> fresh (newInstance (unique_loop f [] (items c)) (nextIndex c))"
  unfolding newInstance_def
  by (rule fresh_sub, assumption, simp_all only: distinct_keys_parts freshD(1) key_set_parts set_rev subset_refl
      unique_loop_parts)+

lemma fresh_slice: "fresh c \<Longrightarrow> fresh (newInstance (js_slice a b (items c)) (nextIndex c))"
  unfolding newInstance_def js_slice_def Let_def
  by (rule fresh_sub) (auto simp: freshD(1) distinct_keys_parts dest: in_set_takeD in_set_dropD)

lemma fresh_end:
  "fresh c \<Longrightarrow> fresh (c\<lparr>items := take n (items c)\<rparr>)" "fresh c \<Longrightarrow> fresh (c\<lparr>items := drop n (items c)\<rparr>)"
  "fresh c \<Longrightarrow> fresh (c\<lparr>items := butlast (items c)\<rparr>)"
  by (simp_all add: fresh_with distinct_keys_parts freshD(1) key_set_parts)

lemma fresh_map: "fresh c \<Longrightarrow> fresh (c\<lparr>items := map (\<lambda>(k, v). (k, f v k)) (items c)\<rparr>)"
proof -
  have keys: "fst \<circ> (\<lambda>(k, v). (k, f v k)) = fst" by auto
  then have "key_set (map (\<lambda>(k, v). (k, f v k)) es) = key_set es" for es :: "(key \<times> 'a) list"
    by (metis image_comp list.set_map)
  then show "fresh c \<Longrightarrow> ?thesis" by (simp add: fresh_def keys)
qed

lemma max_int_key_bound:
  "start \<le> max_int_key start ks \<and> (\<forall>i. IntKey i \<in> set ks \<longrightarrow> i \<le> max_int_key start ks)"
proof (induction ks arbitrary: start)
  case (Cons k ks)
  show ?case
  proof (cases k)
    case (IntKey j)
    then show ?thesis using Cons.IH [of "max start j"] by (auto simp: max_int_key_def max_def)
  next
    case (StrKey s)
    then show ?thesis using Cons.IH [of start] by (auto simp: max_int_key_def)
  qed
qed (simp add: max_int_key_def)

lemma key_set_put_all: "key_set (put_all es m) = key_set m \<union> key_set es"
  by (induction es arbitrary: m) (auto simp: put_all_def case_prod_unfold)

lemma fresh_make_entries: "fresh (make_entries es)"
proof (rule freshI)
  fix i
  assume "IntKey i \<in> key_set (items (make_entries es))"
  then have "IntKey i \<in> set (keys_of es)" by (simp add: make_entries_def key_set_put_all)
  then show "i < nextIndex (make_entries es)"
    using max_int_key_bound [of "- 1" "keys_of es"] by (simp add: make_entries_def less_add_one)
qed (simp add: make_entries_def distinct_put_all)

lemma fresh_taken:
  assumes "fresh c"
  shows "fresh (snd (pull k d c))" "fresh (snd (pop c))" "fresh (snd (pop_many n c))" "fresh (snd (shift c))"
    "fresh (snd (shift_many n c))" "fresh (snd (splice offset len replacement c))"
proof -
  show "fresh (snd (shift c))" using assms fresh_end(2) [OF assms, of 1] by (cases "items c") (simp_all add: shift_def split: prod.splits)
  show "fresh (snd (splice offset len replacement c))"
    by (cases len) (simp_all only: splice_def Let_def option.case prod.case snd_conv fresh_number)
  show "fresh (snd (pull k d c))" by (cases "map_of (items c) k") (simp_all add: pull_def assms fresh_del)
qed (simp_all add: pop_def pop_many_def shift_many_def Let_def assms fresh_end)

lemma fresh_added:
  assumes "fresh c"
  shows "fresh (push vs c)" "fresh (unshift vs c)" "fresh (prepend v k c)"
proof -
  show "fresh (push vs c)" using push_items [OF assms] by blast
  show "fresh (unshift vs c)" using fresh_number [of "vs @ all_items c"] by (simp add: unshift_def Let_def)
  show "fresh (prepend v k c)"
  proof (cases k)
    case None
    then show ?thesis using fresh_number [of "v # all_items c"] by (simp add: prepend_def all_items_def)
  next
    case (Some k')
    have "fresh \<lparr>items = put_all (items c) [(k', v)], nextIndex = after_key k' (nextIndex c)\<rparr>"
    proof (rule freshI)
      fix i
      assume "IntKey i \<in> key_set (items \<lparr>items = put_all (items c) [(k', v)], nextIndex = after_key k' (nextIndex c)\<rparr>)"
      then have "k' = IntKey i \<or> IntKey i \<in> key_set (items c)" by (auto simp: key_set_put_all)
      then show "i < nextIndex \<lparr>items = put_all (items c) [(k', v)], nextIndex = after_key k' (nextIndex c)\<rparr>"
      proof (cases "k' = IntKey i")
        case False
        then have "IntKey i \<in> key_set (items c)" using \<open>k' = IntKey i \<or> IntKey i \<in> key_set (items c)\<close> by blast
        then show ?thesis using after_key_bounds(1) [of "nextIndex c" k'] freshD(2) [OF assms, of i] by simp
      qed (simp add: after_key_bounds)
    qed (simp add: distinct_put_all)
    then show ?thesis using Some by (simp add: prepend_def)
  qed
qed

lemma fresh_selected:
  assumes "fresh c"
  shows "fresh (transform f c)" "fresh (filter_collection p c)" "fresh (only ks c)" "fresh (except_keys ks c)"
    "fresh (slice offset len c)" "fresh (takeUntil p c)" "fresh (takeWhile_items p c)" "fresh (skipUntil p c)"
    "fresh (skipWhile p c)" "fresh (unique g c)"
  by (simp_all only: transform_def filter_collection_def only_def except_keys_def slice_def takeUntil_def
      takeWhile_items_def skipUntil_def skipWhile_def unique_def Let_def fresh_map fresh_part fresh_slice assms)

lemma fresh_ordered:
  assumes "fresh c"
  shows "fresh (sort_items cmp c)" "fresh (sortBy locale_compare h descending c)"
    "fresh (sortKeys locale_compare descending c)" "fresh (sortKeysUsing cmpk c)" "fresh (reverse c)"
    "fresh (shuffle pick c)"
proof -
  show "fresh (shuffle pick c)"
    unfolding shuffle_def
    by (rule fresh_perm [OF assms]) (cases "items c", simp_all only: mset_shuffle_loop length_Cons diff_Suc_1 lessI, simp)
qed (simp_all only: sort_items_def sortBy_def sortKeys_def sortKeysUsing_def reverse_def mset_js_sort mset_rev
    fresh_perm [OF assms])

lemmas fresh_ops = fresh_make fresh_make_entries fresh_put fresh_added fresh_forget fresh_taken fresh_selected
  fresh_ordered fresh_merge fresh_union

text \<open>
  The operations that keep the index past every integer key, in any order.  Each rule is one call of
  the code; a call that also returns a value is taken for the collection it leaves.
\<close>

inductive grown :: "'v Collection \<Rightarrow> bool" where
  grown_make: "grown (make vs)"
| grown_make_entries: "grown (make_entries es)"
| grown_put: "grown c \<Longrightarrow> grown (put k v c)"
| grown_push: "grown c \<Longrightarrow> grown (push vs c)"
| grown_unshift: "grown c \<Longrightarrow> grown (unshift vs c)"
| grown_prepend: "grown c \<Longrightarrow> grown (prepend v k c)"
| grown_pull: "grown c \<Longrightarrow> grown (snd (pull k d c))"
| grown_forget: "grown c \<Longrightarrow> grown (forget_keys ks c)"
| grown_pop: "grown c \<Longrightarrow> grown (snd (pop c))"
| grown_pop_many: "grown c \<Longrightarrow> grown (snd (pop_many n c))"
| grown_shift: "grown c \<Longrightarrow> grown (snd (shift c))"
| grown_shift_many: "grown c \<Longrightarrow> grown (snd (shift_many n c))"
| grown_splice: "grown c \<Longrightarrow> grown (snd (splice offset len replacement c))"
| grown_transform: "grown c \<Longrightarrow> grown (transform f c)"
| grown_filter: "grown c \<Longrightarrow> grown (filter_collection p c)"
| grown_only: "grown c \<Longrightarrow> grown (only ks c)"
| grown_except: "grown c \<Longrightarrow> grown (except_keys ks c)"
| grown_slice: "grown c \<Longrightarrow> grown (slice offset len c)"
| grown_takeUntil: "grown c \<Longrightarrow> grown (takeUntil p c)"
| grown_takeWhile: "grown c \<Longrightarrow> grown (takeWhile_items p c)"
| grown_skipUntil: "grown c \<Longrightarrow> grown (skipUntil p c)"
| grown_skipWhile: "grown c \<Longrightarrow> grown (skipWhile p c)"
| grown_unique: "grown c \<Longrightarrow> grown (unique (g :: 'v \<Rightarrow> key \<Rightarrow> comparable) c)"
| grown_sort: "grown c \<Longrightarrow> grown (sort_items cmp c)"
| grown_sortBy: "grown c \<Longrightarrow> grown (sortBy locale_compare h descending c)"
| grown_sortKeys: "grown c \<Longrightarrow> grown (sortKeys locale_compare descending c)"
| grown_sortKeysUsing: "grown c \<Longrightarrow> grown (sortKeysUsing cmpk c)"
| grown_reverse: "grown c \<Longrightarrow> grown (reverse c)"
| grown_shuffle: "grown c \<Longrightarrow> grown (shuffle pick c)"
| grown_merge: "grown c \<Longrightarrow> grown (merge src c)"
| grown_union: "grown c \<Longrightarrow> grown (union src c)"

lemma grown_fresh: "grown c \<Longrightarrow> fresh c"
  by (induction rule: grown.induct) (rule fresh_ops, assumption?)+

text \<open>
  C24. \<open>push\<close> appends: on a collection made by any sequence of the operations above, the pushed values
  come after all the items there were, under the next integer keys, and nothing is replaced.
\<close>

theorem push_appends:
  assumes "grown c"
  shows "all_items (push vs c) = all_items c @ vs \<and> items (push vs c) = items c @ number_from (nextIndex c) vs \<and>
    distinct (keys_of (items (push vs c)))"
  using push_items [OF grown_fresh [OF assms], of vs] freshD(1) [of "push vs c"] by (simp_all add: all_items_def)

theorem push_appends_witness:
  "all_items (push [''d''] (filter_collection (\<lambda>v k. v \<noteq> ''a'') (put (IntKey 7) ''c'' (make [''a'', ''b''])))) =
    [''b'', ''c'', ''d'']"
  using push_appends [OF grown_filter [OF grown_put [OF grown_make [of "[''a'', ''b'']"]]],
      of "[''d'']" "\<lambda>v k. v \<noteq> ''a''" "IntKey 7" "''c''"]
  by (simp add: filter_collection_def newInstance_def put_def make_def all_items_def)

lemma push_one: "items (push [x] c) = map_put (IntKey (nextIndex c)) x (items c)"
  by simp

lemma put_same_key: "put_all (map (\<lambda>(k, v). (k0, v)) es) [(k0, w)] = [(k0, last (w # map snd es))]"
  by (induction es arbitrary: w) (simp_all add: put_all_def case_prod_unfold)

text \<open>
  The operations that give each item a new value or a new key start the index at zero again, so a
  value pushed on their result replaces the item at key 0 instead of joining the collection: after
  \<open>mapValues\<close> on any list with an item the first mapped value is lost, and after \<open>keyBy\<close> any item
  with key 0.
\<close>

lemma push_after_mapValues_replaces:
  "all_items (push [x] (mapValues f (make (v # vs)))) = x # tl (all_items (mapValues f (make (v # vs)))) \<and>
   count_items (push [x] (mapValues f (make (v # vs)))) = Suc (length vs) \<and>
   get_item (IntKey 0) None (push [x] (keyBy (\<lambda>w k. IntKey 0) (make (v # vs)))) = Some x \<and>
   count_items (push [x] (keyBy (\<lambda>w k. IntKey 0) (make (v # vs)))) = 1 \<and>
   all_items (push [x] (map_collection f (make (v # vs)))) = map (\<lambda>(k, v). f v k) (number_from 0 (v # vs)) @ [x]"
proof (intro conjI)
  have keyed: "items (keyBy (\<lambda>w k. IntKey 0) (make (v # vs))) = [(IntKey 0, last (v # vs))]"
    using put_same_key [of "IntKey 0" "number_from 1 vs" v]
    by (simp add: keyBy_def make_def newInstance_def put_all_Cons)
  have "nextIndex (keyBy (\<lambda>w k. IntKey 0) (make (v # vs))) = 0" by (simp add: keyBy_def newInstance_def)
  with keyed show "get_item (IntKey 0) None (push [x] (keyBy (\<lambda>w k. IntKey 0) (make (v # vs)))) = Some x"
    and "count_items (push [x] (keyBy (\<lambda>w k. IntKey 0) (make (v # vs)))) = 1"
    by (simp_all add: get_item_def count_items_def)
  show "all_items (push [x] (map_collection f (make (v # vs)))) = map (\<lambda>(k, v). f v k) (number_from 0 (v # vs)) @ [x]"
    using push_items [OF fresh_make, of "[x]" "map (\<lambda>(k, v). f v k) (items (make (v # vs)))"]
    by (simp add: map_collection_def all_items_def make_def)
qed (simp_all add: mapValues_def make_def newInstance_def all_items_def count_items_def)

text \<open>
  \<open>prepend\<close> with a key that is already there loses the value it was given: the old value only
  moves to the front.  With a new key the value comes first.
\<close>

lemma map_of_put_all: "map_of (put_all es m) j = (case map_of (rev es) j of None \<Rightarrow> map_of m j | Some x \<Rightarrow> Some x)"
  by (induction es arbitrary: m) (auto simp: put_all_def map_add_def split: option.splits)

lemma prepend_existing_key:
  assumes "map_of (items c) k = Some old" "distinct (keys_of (items c))"
  shows "map_of (items (prepend v (Some k) c)) k = Some old"
proof -
  have "map_of (rev (items c)) k = Some old" using assms by (metis distinct_rev map_of_inject_set rev_map set_rev)
  then show ?thesis by (simp add: prepend_def map_of_put_all)
qed

section \<open>Groups\<close>

text \<open>The buckets are what the filters give, each under the first place of its key.\<close>

lemma map_of_buckets:
  "map_of (foldl (\<lambda>m (k, v). add_to_bucket k v m) m kvs) j =
    (case map_of m j of
       Some bucket \<Rightarrow> Some (bucket @ map snd (filter (\<lambda>kv. fst kv = j) kvs))
     | None \<Rightarrow> (if j \<in> key_set kvs then Some (map snd (filter (\<lambda>kv. fst kv = j) kvs)) else None))"
  by (induction kvs arbitrary: m) (auto simp: add_to_bucket_def split: option.splits)

lemma keys_of_buckets:
  "keys_of (foldl (\<lambda>m (k, v). add_to_bucket k v m) m kvs) = rev (remdups (rev (keys_of m @ keys_of kvs)))"
  if "distinct (keys_of m)"
  using that
proof (induction kvs arbitrary: m)
  case (Cons kv kvs)
  obtain k v where kv: "kv = (k, v)" by (cases kv)
  have step: "keys_of (add_to_bucket k v m) = (if k \<in> key_set m then keys_of m else keys_of m @ [k])"
    by (simp add: add_to_bucket_def keys_of_map_put)
  have distinct: "distinct (keys_of (add_to_bucket k v m))" using Cons.prems by (simp add: add_to_bucket_def)
  have "remdups (rev (keys_of (add_to_bucket k v m))) = remdups (k # rev (keys_of m))" unfolding step by simp
  then have "remdups (rev (keys_of (add_to_bucket k v m) @ ks)) = remdups (rev (keys_of m @ k # ks))" for ks
    by (metis append.assoc append_Cons append_Nil remdups_append2 rev.simps(2) rev_append)
  then show ?case using Cons.IH [OF distinct] by (simp add: kv)
qed (simp add: distinct_remdups_id)

text \<open>
  \<open>groupBy\<close> is the table of the filters: its keys are the values of the selector in the order they
  first appear, each group holds exactly the items with its key in their order, and an item is in
  no other group.
\<close>

lemma groupBy_filters:
  "keys_of (items (groupBy retrieve c)) = rev (remdups (rev (map (\<lambda>(k, v). retrieve v k) (items c)))) \<and>
   map_of (items (groupBy retrieve c)) j =
    (let vs = map snd (filter (\<lambda>(k, v). retrieve v k = j) (items c)) in if vs = [] then None else Some (make vs))"
proof (intro conjI)
  let ?kvs = "map (\<lambda>(k, v). (retrieve v k, v)) (items c)"
  have keys: "keys_of ?kvs = map (\<lambda>(k, v). retrieve v k) (items c)" by (simp add: case_prod_unfold)
  have "keys_of (items (groupBy retrieve c)) = keys_of (buckets ?kvs)"
    by (simp add: groupBy_def newInstance_def case_prod_unfold comp_def)
  then show "keys_of (items (groupBy retrieve c)) = rev (remdups (rev (map (\<lambda>(k, v). retrieve v k) (items c))))"
    using keys_of_buckets [of "[]" ?kvs] unfolding keys by (simp add: buckets_def)
  have filter: "map snd (filter (\<lambda>kv. fst kv = j) (map (\<lambda>(k, v). (retrieve v k, v)) es)) =
      map snd (filter (\<lambda>(k, v). retrieve v k = j) es)" for es
    by (induction es) auto
  have mem: "j \<in> key_set (map (\<lambda>(k, v). (retrieve v k, v)) es) \<longleftrightarrow> filter (\<lambda>(k, v). retrieve v k = j) es \<noteq> []" for es
    by (induction es) auto
  have "map_of (items (groupBy retrieve c)) j = map_option make (map_of (buckets ?kvs) j)"
    by (simp add: groupBy_def newInstance_def map_of_map)
  moreover have "map_of (buckets ?kvs) j =
      (if filter (\<lambda>(k, v). retrieve v k = j) (items c) \<noteq> []
       then Some (map snd (filter (\<lambda>(k, v). retrieve v k = j) (items c))) else None)"
    by (simp only: buckets_def map_of_buckets filter mem map_of.simps option.case)
  ultimately show "map_of (items (groupBy retrieve c)) j =
    (let vs = map snd (filter (\<lambda>(k, v). retrieve v k = j) (items c)) in if vs = [] then None else Some (make vs))"
    by (simp add: Let_def)
qed

section \<open>Orders\<close>

text \<open>A comparator \<open>sort\<close> accepts: any two values compare, consistently.\<close>

definition consistent :: "('a \<Rightarrow> 'a \<Rightarrow> int) \<Rightarrow> bool" where
  "consistent cmp \<longleftrightarrow> (\<forall>a b. cmp a b \<le> 0 \<or> cmp b a \<le> 0) \<and> (\<forall>a b c. cmp a b \<le> 0 \<longrightarrow> cmp b c \<le> 0 \<longrightarrow> cmp a c \<le> 0)"

definition same_rank :: "('a \<Rightarrow> 'a \<Rightarrow> int) \<Rightarrow> 'a \<Rightarrow> 'a \<Rightarrow> bool" where
  "same_rank cmp a b \<longleftrightarrow> cmp a b \<le> 0 \<and> cmp b a \<le> 0"

lemma sorted_insert_by:
  assumes "consistent cmp"
  shows "sorted_wrt (\<lambda>a b. cmp a b \<le> 0) ys \<Longrightarrow> sorted_wrt (\<lambda>a b. cmp a b \<le> 0) (insert_by cmp x ys)"
proof (induction ys)
  case (Cons y ys)
  have mem: "z \<in> set (insert_by cmp x ys) \<longleftrightarrow> z = x \<or> z \<in> set ys" for z
    using mset_insert_by [of cmp x ys, THEN mset_eq_setD [of _ "x # ys", simplified]] by auto
  have other: "\<not> cmp x y \<le> 0 \<Longrightarrow> cmp y x \<le> 0" and through: "cmp x y \<le> 0 \<Longrightarrow> cmp y z \<le> 0 \<Longrightarrow> cmp x z \<le> 0" for z
    using assms unfolding consistent_def by blast+
  show ?case using Cons by (auto simp: mem dest: other intro: through)
qed simp

lemma stable_insert_by:
  assumes "consistent cmp"
  shows "filter (same_rank cmp a) (insert_by cmp x ys) = filter (same_rank cmp a) (x # ys)"
proof (induction ys)
  case (Cons y ys)
  show ?case
  proof (cases "cmp x y \<le> 0")
    case False
    then have "\<not> (same_rank cmp a x \<and> same_rank cmp a y)"
      using assms unfolding consistent_def same_rank_def by blast
    then show ?thesis using Cons False by auto
  qed simp
qed simp

lemma js_sort_spec:
  assumes "consistent cmp"
  shows "sorted_wrt (\<lambda>a b. cmp a b \<le> 0) (js_sort cmp xs)" "filter (same_rank cmp a) (js_sort cmp xs) = filter (same_rank cmp a) xs"
  by (induction xs) (simp_all add: js_sort_def sorted_insert_by [OF assms] stable_insert_by [OF assms])

text \<open>
  Sorting with a consistent comparator permutes the items with their keys, orders their values and
  is stable: the items that rank alike stay in their order, and the next index is kept.
\<close>

lemma sort_items_stable:
  assumes "consistent cmp"
  shows "mset (items (sort_items cmp c)) = mset (items c) \<and>
    sorted_wrt (\<lambda>a b. cmp a b \<le> 0) (all_items (sort_items cmp c)) \<and>
    filter (\<lambda>e. same_rank cmp v (snd e)) (items (sort_items cmp c)) = filter (\<lambda>e. same_rank cmp v (snd e)) (items c)"
proof (intro conjI)
  have lift: "consistent (\<lambda>a b. cmp (snd a) (snd b) :: int)" using assms unfolding consistent_def by blast
  note spec = js_sort_spec [OF lift]
  have rank: "same_rank (\<lambda>a b. cmp (snd a) (snd b)) (undefined, v) = (\<lambda>e. same_rank cmp v (snd e))"
    by (simp add: fun_eq_iff same_rank_def)
  show "sorted_wrt (\<lambda>a b. cmp a b \<le> 0) (all_items (sort_items cmp c))"
    using spec(1) [of "items c"] by (simp add: all_items_def sort_items_def newInstance_def sorted_wrt_map)
  show "filter (\<lambda>e. same_rank cmp v (snd e)) (items (sort_items cmp c)) = filter (\<lambda>e. same_rank cmp v (snd e)) (items c)"
    using spec(2) [of "(undefined, v)" "items c"] by (simp add: sort_items_def newInstance_def rank)
qed (simp add: sort_items_def newInstance_def)


text \<open>
  The comparison that sorting uses without a comparator is documented as a total order, and on
  numbers alone, or on texts alone, it is one when \<open>localeCompare\<close> is.  On a mix of texts and other
  values it is not: two texts compare by locale but a text and another value by code units, so with a
  locale that puts \<open>a\<close> before \<open>B\<close>, as every dictionary order does, three values can each come before
  the next in a circle.
\<close>

lemma default_order_cycles:
  assumes "locale_compare ''a'' ''B'' < 0"
  shows "defaultCompare locale_compare (Text ''a'') (Text ''B'') < 0"
    and "defaultCompare locale_compare (Text ''B'') (Other ''Z'') < 0"
    and "defaultCompare locale_compare (Other ''Z'') (Text ''a'') < 0"
    and "\<not> consistent (defaultCompare locale_compare)"
proof -
  show circle: "defaultCompare locale_compare (Text ''a'') (Text ''B'') < 0"
    "defaultCompare locale_compare (Text ''B'') (Other ''Z'') < 0"
    "defaultCompare locale_compare (Other ''Z'') (Text ''a'') < 0"
    using assms by (simp_all add: defaultCompare_def)
  have "\<not> defaultCompare locale_compare (Text ''a'') (Other ''Z'') \<le> 0" by (simp add: defaultCompare_def)
  then show "\<not> consistent (defaultCompare locale_compare)" using circle unfolding consistent_def by (meson less_imp_le)
qed


lemma numbers_consistent: "consistent (\<lambda>x y. defaultCompare locale_compare (Numeric x) (Numeric y))"
  unfolding consistent_def defaultCompare_def by auto

section \<open>Chunks\<close>

lemma chunk_lists_props:
  "0 < sz \<Longrightarrow> concat (chunk_lists sz vs) = vs \<and> list_all (\<lambda>ws. ws \<noteq> [] \<and> length ws \<le> sz) (chunk_lists sz vs) \<and>
    list_all (\<lambda>ws. length ws = sz) (butlast (chunk_lists sz vs)) \<and> (chunk_lists sz vs = [] \<longleftrightarrow> vs = [])"
proof (induction sz vs rule: chunk_lists.induct)
  case (1 sz vs)
  show ?case
  proof (cases "vs = []")
    case False
    then have "chunk_lists sz vs = take sz vs # chunk_lists sz (drop sz vs)" using 1 by (simp add: chunk_lists.simps)
    then show ?thesis using 1 False by auto
  qed (simp add: chunk_lists.simps)
qed

lemma length_chunk_lists:
  "0 < sz \<Longrightarrow> length (chunk_lists sz vs) = (length vs + sz - 1) div sz"
proof (induction sz vs rule: chunk_lists.induct)
  case (1 sz vs)
  show ?case
  proof (cases "vs = []")
    case False
    then have step: "chunk_lists sz vs = take sz vs # chunk_lists sz (drop sz vs)" using 1 by (simp add: chunk_lists.simps)
    show ?thesis
    proof (cases "length vs \<le> sz")
      case True
      then have "(length vs + sz - 1) div sz = 1" using False 1
        by (intro div_nat_eqI) (auto simp: Suc_le_eq length_greater_0_conv [symmetric] simp del: length_greater_0_conv)
      then show ?thesis using step True by (simp add: chunk_lists.simps)
    next
      case larger: False
      then have "(length vs + sz - 1) div sz = Suc ((length vs - sz + sz - 1) div sz)"
        using 1 by (subst div_if) auto
      then show ?thesis using step 1 False by simp
    qed
  qed (use 1 in \<open>simp add: chunk_lists.simps\<close>)
qed

lemma length_chunk_le:
  assumes "0 < sz" "length vs \<le> sz * n"
  shows "length (chunk_lists sz vs) \<le> n"
proof -
  have "(length vs + sz - 1) div sz \<le> ((sz - 1) + sz * n) div sz" by (rule div_le_mono) (use assms in simp)
  also have "\<dots> = n" using assms(1) div_mult_self2 [of sz "sz - 1" n] by (simp del: div_mult_self2)
  finally show ?thesis by (simp add: length_chunk_lists [OF assms(1)])
qed

lemma split_loop_props:
  "length vs = n * g + r \<Longrightarrow> r \<le> n \<Longrightarrow> concat (split_loop n g r vs) = vs \<and>
     list_all (\<lambda>ws. ws \<noteq> [] \<and> length ws \<in> {g, g + 1}) (split_loop n g r vs) \<and>
     length (split_loop n g r vs) = min n (length vs)"
proof (induction n arbitrary: r vs)
  case (Suc n)
  let ?sz = "g + (if 0 < r then 1 else 0)"
  have rest: "length (drop ?sz vs) = n * g + (r - 1)" "r - 1 \<le> n" using Suc.prems by (auto split: if_splits)
  note IH = Suc.IH [OF rest]
  show ?case
  proof (cases "0 < ?sz")
    case True
    then have "vs \<noteq> []" "?sz \<le> length vs" using Suc.prems by (auto split: if_splits)
    moreover have "min (Suc n) (length vs) = Suc (min n (length vs - ?sz))"
    proof (cases "g = 0")
      case False
      then have "n \<le> n * g" by simp
      then have "n \<le> length vs - ?sz" using rest(1) unfolding length_drop by linarith
      then have "Suc n \<le> length vs" "n \<le> length vs - ?sz" using True \<open>?sz \<le> length vs\<close> by linarith+
      then show ?thesis by simp
    qed (use True Suc.prems in \<open>auto split: if_splits\<close>)
    ultimately show ?thesis using IH True by (auto simp: Let_def split: if_splits)
  next
    case False
    then have "g = 0 \<and> r = 0 \<and> vs = []" using Suc.prems by (auto split: if_splits)
    then show ?thesis using IH by (auto simp: Let_def)
  qed
qed simp

lemma all_items_comp_make [simp]: "all_items \<circ> make = id"
  by (simp add: fun_eq_iff)

lemma count_make [simp]: "count_items (make vs) = length vs"
  by (simp add: count_items_def make_def)

lemma count_all_items: "count_items c = length (all_items c)"
  by (simp add: count_items_def all_items_def)

lemma chunk_items: "0 < n \<Longrightarrow> all_items (chunk n c) = map make (chunk_lists (nat n) (all_items c))"
  by (simp add: chunk_def)

lemma split_groups_pieces:
  assumes "0 < n"
  shows "\<exists>wss. split_groups n c = Inr (make (map make wss)) \<and> concat wss = all_items c \<and>
    length wss = min (nat n) (count_items c) \<and>
    list_all (\<lambda>ws. ws \<noteq> [] \<and> length ws \<in> {count_items c div nat n, count_items c div nat n + 1}) wss"
proof (cases "isEmpty c")
  case True
  then have "items c = []" by (simp add: isEmpty_def)
  then show ?thesis
    using assms True by (intro exI [of _ "[]"]) (simp add: split_groups_def count_items_def all_items_def make_def empty_collection_def)
next
  case False
  have "split_groups n c = Inr (make (map make (split_loop (nat n) (count_items c div nat n) (count_items c mod nat n) (all_items c))))"
    using assms False by (simp add: split_groups_def Let_def count_all_items)
  moreover have "count_items c mod nat n \<le> nat n" using assms by (simp add: less_imp_le)
  moreover have "length (all_items c) = nat n * (count_items c div nat n) + count_items c mod nat n" by (simp add: count_all_items)
  ultimately show ?thesis using split_loop_props [of "all_items c" "nat n" "count_items c div nat n" "count_items c mod nat n"]
    unfolding count_all_items by blast
qed

lemma splitIn_pieces:
  assumes "0 < n"
  shows "\<exists>pieces. splitIn n c = Inr pieces \<and> concat (map all_items (all_items pieces)) = all_items c \<and>
    int (count_items pieces) \<le> n"
proof -
  let ?k = "int (count_items c)"
  let ?s = "(?k + n - 1) div n"
  have splitIn: "splitIn n c = Inr (chunk ?s c)" using assms by (simp add: splitIn_def)
  show ?thesis
  proof (cases "?s \<le> 0")
    case True
    then have "?k + n - 1 < n" using assms by (metis add_0 div_pos_pos_trivial int_ops(1) linorder_not_less pos_imp_zdiv_pos_iff zless_add1_eq)
    then have "all_items c = []" by (simp add: count_all_items)
    then show ?thesis using splitIn True assms
      by (simp add: chunk_def empty_collection_def all_items_def count_items_def)
  next
    case False
    then have pos: "0 < nat ?s" by simp
    have "?k \<le> ?s * n"
    proof -
      have "(?k + n - 1) mod n < n" using assms by simp
      then show ?thesis using div_mult_mod_eq [of "?k + n - 1" n] by linarith
    qed
    then have "int (length (all_items c)) \<le> int (nat ?s * nat n)" using False assms by (simp add: count_all_items)
    then have "length (chunk_lists (nat ?s) (all_items c)) \<le> nat n" by (intro length_chunk_le pos) (simp only: of_nat_le_iff)
    then have "int (length (chunk_lists (nat ?s) (all_items c))) \<le> n" using assms by simp
    then show ?thesis
      using splitIn False chunk_lists_props [OF pos, of "all_items c"] by (simp add: chunk_def)
  qed
qed

text \<open>
  Cutting a collection into pieces loses and reorders nothing: the items of the pieces of \<open>chunk\<close>,
  one after another, are the items, every piece has from one to \<open>size\<close> of them and all but the last
  exactly \<open>size\<close>; \<open>split\<close> makes at most the pieces asked for, none empty and their sizes at most one
  apart; \<open>splitIn\<close> never makes more pieces than asked for.
\<close>

lemma pieces_cover:
  assumes "0 < n"
  shows "concat (map all_items (all_items (chunk n c))) = all_items c \<and>
    list_all (\<lambda>ws. 0 < count_items ws \<and> int (count_items ws) \<le> n) (all_items (chunk n c)) \<and>
    list_all (\<lambda>ws. int (count_items ws) = n) (butlast (all_items (chunk n c))) \<and>
    (\<exists>pieces. split_groups n c = Inr pieces \<and> concat (map all_items (all_items pieces)) = all_items c \<and>
      int (count_items pieces) = min n (int (count_items c)) \<and>
      list_all (\<lambda>ws. 0 < count_items ws \<and>
        (int (count_items ws) = int (count_items c) div n \<or> int (count_items ws) = int (count_items c) div n + 1)) (all_items pieces)) \<and>
    (\<exists>pieces. splitIn n c = Inr pieces \<and> concat (map all_items (all_items pieces)) = all_items c \<and>
      int (count_items pieces) \<le> n)"
proof (intro conjI)
  note pieces = chunk_lists_props [of "nat n" "all_items c"] chunk_items [OF assms, of c]
  show "concat (map all_items (all_items (chunk n c))) = all_items c" using pieces assms by simp
  show "list_all (\<lambda>ws. 0 < count_items ws \<and> int (count_items ws) \<le> n) (all_items (chunk n c))"
    using pieces assms by (auto simp: list_all_iff)
  show "list_all (\<lambda>ws. int (count_items ws) = n) (butlast (all_items (chunk n c)))"
    using pieces assms by (auto simp: list_all_iff map_butlast [symmetric])
  obtain wss where wss: "split_groups n c = Inr (make (map make wss))" "concat wss = all_items c"
    "length wss = min (nat n) (count_items c)"
    "list_all (\<lambda>ws. ws \<noteq> [] \<and> length ws \<in> {count_items c div nat n, count_items c div nat n + 1}) wss"
    using split_groups_pieces [OF assms] by blast
  have "int (count_items c) div n = int (count_items c div nat n)" using assms by (simp add: zdiv_int)
  then show "\<exists>pieces. split_groups n c = Inr pieces \<and> concat (map all_items (all_items pieces)) = all_items c \<and>
      int (count_items pieces) = min n (int (count_items c)) \<and>
      list_all (\<lambda>ws. 0 < count_items ws \<and>
        (int (count_items ws) = int (count_items c) div n \<or> int (count_items ws) = int (count_items c) div n + 1)) (all_items pieces)"
    using wss assms by (intro exI [of _ "make (map make wss)"]) (auto simp: list_all_iff)
  show "\<exists>pieces. splitIn n c = Inr pieces \<and> concat (map all_items (all_items pieces)) = all_items c \<and>
      int (count_items pieces) \<le> n"
    using splitIn_pieces [OF assms] by blast
qed


end
