(* ===== verification/Migrations.thy ===== *)
theory Migrations
  imports JsPrelude "HOL-Library.Product_Lexorder" "HOL-Library.Multiset"
begin

text \<open>
  The migration runner of \<open>framework/database/src/migrator.ts\<close>: discovery, the lock row, running,
  rolling back, resetting, refreshing and reporting, and the interleaving of several runners.

  The tables an application's migrations create are a parameter, the type of \<open>schema\<close>; a migration is
  what its \<open>up\<close> and \<open>down\<close> do to them, and whether they throw.  A directory listing, its absence, and
  importing a file are parameters too.
\<close>

section \<open>Migrations and where they come from\<close>

record 's Migration =
  migration_name :: string
  up_fun :: "'s \<Rightarrow> bool \<times> 's"
  down_fun :: "'s \<Rightarrow> bool \<times> 's"

datatype 's MigrationSource = Directory string | Registered "'s Migration"

text \<open>The two regular expressions: digits, a separator, a name, and one of six extensions.\<close>

definition script_exts :: "string list" where
  "script_exts = [''.ts'', ''.js'', ''.mts'', ''.mjs'', ''.cts'', ''.cjs'']"

definition compiled_exts :: "string list" where
  "compiled_exts = [''.js'', ''.mjs'', ''.cjs'']"

definition line_end :: "char \<Rightarrow> bool" where
  "line_end c = ((of_char c :: nat) = 10 \<or> (of_char c :: nat) = 13)"

definition is_migration_file :: "string \<Rightarrow> bool" where
  "is_migration_file f =
     (takeWhile is_digit f \<noteq> [] \<and>
      (case dropWhile is_digit f of
         [] \<Rightarrow> False
       | sep # rest \<Rightarrow> (sep = CHR ''_'' \<or> sep = CHR ''-'') \<and>
           list_ex (\<lambda>e. ends_with rest e \<and> length e < length rest \<and>
             list_all (\<lambda>c. \<not> line_end c) (take (length rest - length e) rest)) script_exts))"

definition has_ext :: "string list \<Rightarrow> string \<Rightarrow> bool" where
  "has_ext exts f = list_ex (ends_with f) exts"

definition strip_ext :: "string \<Rightarrow> string" where
  "strip_ext f = (case find (ends_with f) script_exts of None \<Rightarrow> f | Some e \<Rightarrow> take (length f - length e) f)"

definition is_typescript :: "string \<Rightarrow> bool" where
  "is_typescript f = has_ext [''.ts'', ''.mts'', ''.cts''] f"

definition preferCompiled :: "string list \<Rightarrow> string list" where
  "preferCompiled files =
     (let compiled = map strip_ext (filter (has_ext compiled_exts) files) in
      filter (\<lambda>f. \<not> is_typescript f \<or> strip_ext f \<notin> set compiled) files)"

definition listed_files :: "string list \<Rightarrow> string list" where
  "listed_files entries =
     preferCompiled (sort (filter (\<lambda>f. \<not> ends_with f ''.d.ts'' \<and> is_migration_file f) entries))"

definition imported :: "(string \<Rightarrow> string \<Rightarrow> 's Migration) \<Rightarrow> string \<Rightarrow> string \<Rightarrow> 's Migration" where
  "imported load dir f = (load dir f)\<lparr>migration_name := strip_ext f\<rparr>"

fun source_migrations ::
  "(string \<Rightarrow> string list option) \<Rightarrow> (string \<Rightarrow> string \<Rightarrow> 's Migration) \<Rightarrow> 's MigrationSource \<Rightarrow> 's Migration list" where
  "source_migrations readdir load (Registered m) = [m]"
| "source_migrations readdir load (Directory d) =
     (case readdir d of None \<Rightarrow> [] | Some entries \<Rightarrow> map (imported load d) (listed_files entries))"

fun first_by_name :: "string list \<Rightarrow> 's Migration list \<Rightarrow> 's Migration list" where
  "first_by_name seen [] = []"
| "first_by_name seen (m # ms) =
     (if migration_name m \<in> set seen then first_by_name seen ms else m # first_by_name (migration_name m # seen) ms)"

definition discover ::
  "(string \<Rightarrow> string list option) \<Rightarrow> (string \<Rightarrow> string \<Rightarrow> 's Migration) \<Rightarrow> 's MigrationSource list \<Rightarrow> 's Migration list" where
  "discover readdir load sources =
     sort_key migration_name (first_by_name [] (concat (map (source_migrations readdir load) sources)))"

section \<open>The bookkeeping tables\<close>

record MigrationRow =
  row_name :: string
  batch :: nat
  migrated_at :: string

text \<open>A table that has not been created is \<open>None\<close>; the lock table holds at most the row with the fixed id.\<close>

record 's MigrationDb =
  schema :: 's
  migrations :: "MigrationRow list option"
  lock_table :: "string option option"

datatype migration_error =
  LockHeld string | MigrationThrew string | DuplicateName string | NoSuchMigration string | NoSuchTable string

datatype MigrationDialect = Sqlite | Postgres | MySql

definition ensureMigrationsTable :: "'s MigrationDb \<Rightarrow> 's MigrationDb" where
  "ensureMigrationsTable db = db\<lparr>migrations := Some (nullish (migrations db) [])\<rparr>"

definition ensureLockTable :: "'s MigrationDb \<Rightarrow> 's MigrationDb" where
  "ensureLockTable db = db\<lparr>lock_table := Some (nullish (lock_table db) None)\<rparr>"

definition insert_lock :: "string \<Rightarrow> 's MigrationDb \<Rightarrow> (migration_error + unit) \<times> 's MigrationDb" where
  "insert_lock owner db =
     (case lock_table db of
        None \<Rightarrow> (Inl (NoSuchTable ''migrations_lock''), db)
      | Some (Some held) \<Rightarrow> (Inl (LockHeld held), db)
      | Some None \<Rightarrow> (Inr (), db\<lparr>lock_table := Some (Some owner)\<rparr>))"

definition delete_lock :: "'s MigrationDb \<Rightarrow> (migration_error + unit) \<times> 's MigrationDb" where
  "delete_lock db =
     (case lock_table db of
        None \<Rightarrow> (Inl (NoSuchTable ''migrations_lock''), db)
      | Some _ \<Rightarrow> (Inr (), db\<lparr>lock_table := Some None\<rparr>))"

definition withLock ::
  "string \<Rightarrow> ('s MigrationDb \<Rightarrow> (migration_error + 'a) \<times> 's MigrationDb) \<Rightarrow> 's MigrationDb \<Rightarrow>
   (migration_error + 'a) \<times> 's MigrationDb" where
  "withLock owner work db =
     (case insert_lock owner (ensureLockTable db) of
        (Inl e, db) \<Rightarrow> (Inl e, db)
      | (Inr _, db) \<Rightarrow>
          (let (result, db) = work db in
           case delete_lock db of (Inl e, db) \<Rightarrow> (Inl e, db) | (Inr _, db) \<Rightarrow> (result, db)))"

definition insert_row :: "MigrationRow \<Rightarrow> 's MigrationDb \<Rightarrow> (migration_error + unit) \<times> 's MigrationDb" where
  "insert_row row db =
     (case migrations db of
        None \<Rightarrow> (Inl (NoSuchTable ''migrations''), db)
      | Some rows \<Rightarrow>
          if row_name row \<in> row_name ` set rows then (Inl (DuplicateName (row_name row)), db)
          else (Inr (), db\<lparr>migrations := Some (rows @ [row])\<rparr>))"

definition delete_row :: "string \<Rightarrow> 's MigrationDb \<Rightarrow> (migration_error + unit) \<times> 's MigrationDb" where
  "delete_row name db =
     (case migrations db of
        None \<Rightarrow> (Inl (NoSuchTable ''migrations''), db)
      | Some rows \<Rightarrow> (Inr (), db\<lparr>migrations := Some (filter (\<lambda>r. row_name r \<noteq> name) rows)\<rparr>))"

section \<open>Running one migration\<close>

definition supportsTransactionalDdl :: "MigrationDialect \<Rightarrow> bool" where
  "supportsTransactionalDdl d = (d \<noteq> MySql)"

definition runOne ::
  "MigrationDialect \<Rightarrow> ('s MigrationDb \<Rightarrow> (migration_error + unit) \<times> 's MigrationDb) \<Rightarrow> 's MigrationDb \<Rightarrow>
   (migration_error + unit) \<times> 's MigrationDb" where
  "runOne d run db =
     (case run db of
        (Inl e, db') \<Rightarrow> (Inl e, if supportsTransactionalDdl d then db else db')
      | (Inr _, db') \<Rightarrow> (Inr (), db'))"

definition run_up :: "nat \<Rightarrow> string \<Rightarrow> 's Migration \<Rightarrow> 's MigrationDb \<Rightarrow> (migration_error + unit) \<times> 's MigrationDb" where
  "run_up b now m db =
     (let (ok, s) = up_fun m (schema db); db = db\<lparr>schema := s\<rparr> in
      if \<not> ok then (Inl (MigrationThrew (migration_name m)), db)
      else insert_row \<lparr>row_name = migration_name m, batch = b, migrated_at = now\<rparr> db)"

definition run_down :: "'s Migration \<Rightarrow> 's MigrationDb \<Rightarrow> (migration_error + unit) \<times> 's MigrationDb" where
  "run_down m db =
     (let (ok, s) = down_fun m (schema db); db = db\<lparr>schema := s\<rparr> in
      if \<not> ok then (Inl (MigrationThrew (migration_name m)), db) else delete_row (migration_name m) db)"

text \<open>Running a list stops at the first failure; what ran before stays.\<close>

fun run_each ::
  "('m \<Rightarrow> 's MigrationDb \<Rightarrow> (migration_error + unit) \<times> 's MigrationDb) \<Rightarrow> ('m \<Rightarrow> string) \<Rightarrow> 'm list \<Rightarrow>
   's MigrationDb \<Rightarrow> (migration_error + string list) \<times> 's MigrationDb" where
  "run_each run name [] db = (Inr [], db)"
| "run_each run name (m # ms) db =
     (case run m db of
        (Inl e, db) \<Rightarrow> (Inl e, db)
      | (Inr _, db) \<Rightarrow>
          (case run_each run name ms db of
             (Inl e, db) \<Rightarrow> (Inl e, db)
           | (Inr names, db) \<Rightarrow> (Inr (name m # names), db)))"

section \<open>The operations of the runner\<close>

definition recorded :: "'s MigrationDb \<Rightarrow> MigrationRow list" where
  "recorded db = nullish (migrations db) []"

definition pending :: "'s Migration list \<Rightarrow> 's MigrationDb \<Rightarrow> 's Migration list" where
  "pending found db = filter (\<lambda>m. migration_name m \<notin> row_name ` set (recorded db)) found"

definition next_batch :: "'s MigrationDb \<Rightarrow> nat" where
  "next_batch db = fold max (map batch (recorded db)) 0 + 1"

definition up_locked ::
  "MigrationDialect \<Rightarrow> string \<Rightarrow> 's Migration list \<Rightarrow> 's MigrationDb \<Rightarrow> (migration_error + string list) \<times> 's MigrationDb" where
  "up_locked d now found db =
     (let todo = pending found db in
      if todo = [] then (Inr [], db)
      else run_each (\<lambda>m. runOne d (run_up (next_batch db) now m)) migration_name todo db)"

definition migrate_up ::
  "MigrationDialect \<Rightarrow> string \<Rightarrow> string \<Rightarrow> 's Migration list \<Rightarrow> 's MigrationDb \<Rightarrow>
   (migration_error + string list) \<times> 's MigrationDb" where
  "migrate_up d owner now found db = withLock owner (up_locked d now found) (ensureMigrationsTable db)"

definition pretend_up :: "'s Migration list \<Rightarrow> 's MigrationDb \<Rightarrow> string list \<times> 's MigrationDb" where
  "pretend_up found db =
     (let db = ensureMigrationsTable db in (map migration_name (pending found db), db))"

text \<open>
  The batches to undo, newest first, and their rows: newest batch first and names descending within
  a batch.  Names are unique, so the comparator's order is the one of the pairs.
\<close>

definition target_batches :: "int option \<Rightarrow> 's MigrationDb \<Rightarrow> nat list" where
  "target_batches step db =
     (let batches = rev (sort (remdups (map batch (recorded db)))) in
      case step of None \<Rightarrow> batches | Some n \<Rightarrow> take (nat n) batches)"

definition rollback_plan :: "int option \<Rightarrow> 's MigrationDb \<Rightarrow> string list" where
  "rollback_plan step db =
     map row_name (rev (sort_key (\<lambda>r. (batch r, row_name r))
       (filter (\<lambda>r. batch r \<in> set (target_batches step db)) (recorded db))))"

definition undo_named ::
  "MigrationDialect \<Rightarrow> 's Migration list \<Rightarrow> string \<Rightarrow> 's MigrationDb \<Rightarrow> (migration_error + unit) \<times> 's MigrationDb" where
  "undo_named d found name db =
     (case find (\<lambda>m. migration_name m = name) (rev found) of
        None \<Rightarrow> (Inl (NoSuchMigration name), db)
      | Some m \<Rightarrow> runOne d (run_down m) db)"

definition rollback_locked ::
  "MigrationDialect \<Rightarrow> 's Migration list \<Rightarrow> int option \<Rightarrow> 's MigrationDb \<Rightarrow>
   (migration_error + string list) \<times> 's MigrationDb" where
  "rollback_locked d found step db = run_each (undo_named d found) (\<lambda>name. name) (rollback_plan step db) db"

definition rollback ::
  "MigrationDialect \<Rightarrow> string \<Rightarrow> 's Migration list \<Rightarrow> int option \<Rightarrow> 's MigrationDb \<Rightarrow>
   (migration_error + string list) \<times> 's MigrationDb" where
  "rollback d owner found step db = withLock owner (rollback_locked d found step) (ensureMigrationsTable db)"

definition pretend_rollback :: "int option \<Rightarrow> 's MigrationDb \<Rightarrow> string list \<times> 's MigrationDb" where
  "pretend_rollback step db = (let db = ensureMigrationsTable db in (rollback_plan step db, db))"

definition reset_all ::
  "MigrationDialect \<Rightarrow> string \<Rightarrow> 's Migration list \<Rightarrow> 's MigrationDb \<Rightarrow>
   (migration_error + string list) \<times> 's MigrationDb" where
  "reset_all d owner found db = rollback d owner found None db"

text \<open>Dropping every table drops the runner's own two as well.\<close>

definition dropAllTables :: "'s \<Rightarrow> 's MigrationDb \<Rightarrow> 's MigrationDb" where
  "dropAllTables empty_schema db = db\<lparr>schema := empty_schema, migrations := None, lock_table := None\<rparr>"

definition fresh_start ::
  "MigrationDialect \<Rightarrow> 's \<Rightarrow> string \<Rightarrow> string \<Rightarrow> 's Migration list \<Rightarrow> 's MigrationDb \<Rightarrow>
   (migration_error + string list) \<times> 's MigrationDb" where
  "fresh_start d empty_schema owner now found db = migrate_up d owner now found (dropAllTables empty_schema db)"

definition status :: "'s Migration list \<Rightarrow> 's MigrationDb \<Rightarrow> (string \<times> bool \<times> nat option) list \<times> 's MigrationDb" where
  "status found db =
     (let db = ensureMigrationsTable db in
      (map (\<lambda>m. let row = find (\<lambda>r. row_name r = migration_name m) (rev (recorded db)) in
          (migration_name m, row \<noteq> None, map_option batch row)) found, db))"

end
