(* ===== verification/MigrationLaws.thy ===== *)
theory MigrationLaws
  imports Migrations
begin

text \<open>
  What the migration runner guarantees: a deterministic order of discovery, an \<open>up\<close> that a rollback
  undoes, a failed run that leaves what it recorded applied, and runs that exclude each other.
\<close>

section \<open>Discovery\<close>

lemma first_by_name_spec:
  "distinct (map migration_name (first_by_name seen ms)) \<and>
   set (map migration_name (first_by_name seen ms)) = set (map migration_name ms) - set seen \<and>
   (n \<notin> set seen \<longrightarrow> find (\<lambda>m. migration_name m = n) (first_by_name seen ms) = find (\<lambda>m. migration_name m = n) ms)"
  by (induction seen ms rule: first_by_name.induct) auto

lemma find_unique:
  "distinct (map f xs) \<Longrightarrow> mset xs = mset ys \<Longrightarrow> find (\<lambda>x. f x = n) xs = find (\<lambda>x. f x = n) ys"
proof -
  assume distinct: "distinct (map f xs)" and same: "mset xs = mset ys"
  then have distinct': "distinct (map f ys)" by (metis mset_eq_imp_distinct_iff mset_map)
  have found: "find (\<lambda>x. f x = n) zs = Some z \<longleftrightarrow> z \<in> set zs \<and> f z = n" if "distinct (map f zs)" for zs z
    using that by (induction zs) auto
  show ?thesis
  proof (cases "find (\<lambda>x. f x = n) xs")
    case None
    then have "find (\<lambda>x. f x = n) ys = None" using mset_eq_setD [OF same] by (simp add: find_None_iff)
    then show ?thesis using None by simp
  next
    case (Some z)
    then show ?thesis using found [OF distinct, of z] found [OF distinct', of z] mset_eq_setD [OF same] by simp
  qed
qed

lemma discover_sorted: "sorted_wrt (<) (map migration_name (discover readdir load sources))"
proof -
  have "distinct (map migration_name (discover readdir load sources))"
    unfolding discover_def using first_by_name_spec
    by (metis mset_eq_imp_distinct_iff mset_map mset_sort)
  then show ?thesis unfolding discover_def strict_sorted_iff by simp
qed

lemma listed_files_perm: "mset xs = mset ys \<Longrightarrow> listed_files xs = listed_files ys"
  unfolding listed_files_def
  by (rule arg_cong [where f = preferCompiled], rule properties_for_sort) simp_all

text \<open>
  Discovery is deterministic: its order is the strict order of the names by code units, so no
  name runs twice; each name is the first migration of that name among the sources; and the order
  in which the file system lists a directory does not matter.
\<close>

lemma discover_deterministic:
  assumes "\<And>d. rel_option (\<lambda>xs ys. mset xs = mset ys) (readdir d) (readdir' d)"
  shows "discover readdir' load sources = discover readdir load sources \<and>
    sorted_wrt (<) (map migration_name (discover readdir load sources)) \<and>
    find (\<lambda>m. migration_name m = n) (discover readdir load sources) =
      find (\<lambda>m. migration_name m = n) (concat (map (source_migrations readdir load) sources))"
proof (intro conjI)
  have "source_migrations readdir' load src = source_migrations readdir load src" for src
  proof (cases src)
    case (Directory d)
    then show ?thesis using assms [of d] by (cases "readdir d"; cases "readdir' d") (auto dest!: listed_files_perm)
  qed simp
  then show "discover readdir' load sources = discover readdir load sources" unfolding discover_def by presburger
  show "sorted_wrt (<) (map migration_name (discover readdir load sources))" by (rule discover_sorted)
  show "find (\<lambda>m. migration_name m = n) (discover readdir load sources) =
      find (\<lambda>m. migration_name m = n) (concat (map (source_migrations readdir load) sources))"
    using first_by_name_spec [of "[]" "concat (map (source_migrations readdir load) sources)" n]
      find_unique [of migration_name "discover readdir load sources"
        "first_by_name [] (concat (map (source_migrations readdir load) sources))" n] discover_sorted [of readdir load sources]
    by (simp add: discover_def strict_sorted_iff)
qed


text \<open>A declaration file of a module compiled from \<open>.mts\<close> passes for a migration.\<close>

lemma declaration_file_is_listed:
  "listed_files [''0001_a.d.ts''] = []"
  "map strip_ext (listed_files [''0001_a.d.mts'', ''0001_a.mjs'']) = [''0001_a.d'', ''0001_a'']"
  by code_simp+

section \<open>Applying and undoing\<close>

definition applied :: "'s Migration list \<Rightarrow> 's \<Rightarrow> 's" where
  "applied ms s = foldl (\<lambda>s m. snd (up_fun m s)) s ms"

fun all_succeed :: "'s Migration list \<Rightarrow> 's \<Rightarrow> bool" where
  "all_succeed [] s = True"
| "all_succeed (m # ms) s = (fst (up_fun m s) \<and> all_succeed ms (snd (up_fun m s)))"

definition row_of :: "nat \<Rightarrow> string \<Rightarrow> 's Migration \<Rightarrow> MigrationRow" where
  "row_of b now m = \<lparr>row_name = migration_name m, batch = b, migrated_at = now\<rparr>"

definition ran :: "nat \<Rightarrow> string \<Rightarrow> 's Migration list \<Rightarrow> 's MigrationDb \<Rightarrow> 's MigrationDb" where
  "ran b now ms db = db\<lparr>schema := applied ms (schema db), migrations := Some (recorded db @ map (row_of b now) ms)\<rparr>"

abbreviation row_names :: "'s MigrationDb \<Rightarrow> string set" where
  "row_names db \<equiv> row_name ` set (recorded db)"

lemma applied_simps [simp]:
  "applied [] s = s" "applied (m # ms) s = applied ms (snd (up_fun m s))"
  "applied (ms @ ns) s = applied ns (applied ms s)"
  by (simp_all add: applied_def)

lemma row_of_simps [simp]:
  "row_name (row_of b now m) = migration_name m" "batch (row_of b now m) = b" "row_name \<circ> row_of b now = migration_name"
  by (simp_all add: row_of_def fun_eq_iff)

lemma recorded_update [simp]:
  "recorded (db\<lparr>migrations := Some rs\<rparr>) = rs" "recorded (db\<lparr>schema := s\<rparr>) = recorded db"
  "recorded (db\<lparr>lock_table := l\<rparr>) = recorded db"
  by (simp_all add: recorded_def)

lemma ran_nil: "migrations db \<noteq> None \<Longrightarrow> ran b now [] db = db"
  by (cases db) (auto simp: ran_def recorded_def)

lemma run_up_ok:
  "fst (up_fun m (schema db)) \<Longrightarrow> migrations db \<noteq> None \<Longrightarrow> migration_name m \<notin> row_names db \<Longrightarrow>
   runOne d (run_up b now m) db = (Inr (), ran b now [m] db)"
  by (auto simp: runOne_def run_up_def insert_row_def ran_def recorded_def row_of_def split: prod.splits)

lemma run_each_up:
  "all_succeed ms (schema db) \<Longrightarrow> migrations db \<noteq> None \<Longrightarrow> distinct (map migration_name ms) \<Longrightarrow>
   list_all (\<lambda>m. migration_name m \<notin> row_names db) ms \<Longrightarrow>
   run_each (\<lambda>m. runOne d (run_up b now m)) migration_name ms db = (Inr (map migration_name ms), ran b now ms db)"
proof (induction ms arbitrary: db)
  case Nil
  then show ?case by (simp add: ran_nil)
next
  case (Cons m ms)
  have first: "runOne d (run_up b now m) db = (Inr (), ran b now [m] db)" using Cons.prems by (intro run_up_ok) auto
  have "run_each (\<lambda>m. runOne d (run_up b now m)) migration_name ms (ran b now [m] db) =
      (Inr (map migration_name ms), ran b now ms (ran b now [m] db))"
    using Cons.prems by (intro Cons.IH) (auto simp: ran_def list_all_iff, (metis image_eqI)+)
  then show ?case using first by (simp add: ran_def)
qed

lemma runOne_restores: "supportsTransactionalDdl d \<Longrightarrow> run db = (Inl e, db') \<Longrightarrow> runOne d run db = (Inl e, db)"
  by (simp add: runOne_def)

lemma run_each_up_fails:
  assumes "supportsTransactionalDdl d" "all_succeed pre (schema db)" "\<not> fst (up_fun m (applied pre (schema db)))"
    "migrations db \<noteq> None" "distinct (map migration_name (pre @ m # post))"
    "list_all (\<lambda>m. migration_name m \<notin> row_names db) (pre @ m # post)"
  shows "run_each (\<lambda>m. runOne d (run_up b now m)) migration_name (pre @ m # post) db =
    (Inl (MigrationThrew (migration_name m)), ran b now pre db)"
  using assms(2-)
proof (induction pre arbitrary: db)
  case Nil
  have "run_up b now m db = (Inl (MigrationThrew (migration_name m)), db\<lparr>schema := snd (up_fun m (schema db))\<rparr>)"
    using Nil by (cases "up_fun m (schema db)") (simp add: run_up_def)
  then have "runOne d (run_up b now m) db = (Inl (MigrationThrew (migration_name m)), db)" by (rule runOne_restores [OF assms(1)])
  then show ?case using Nil by (simp add: ran_nil)
next
  case (Cons p pre)
  have first: "runOne d (run_up b now p) db = (Inr (), ran b now [p] db)" using Cons.prems by (intro run_up_ok) auto
  have "run_each (\<lambda>m. runOne d (run_up b now m)) migration_name (pre @ m # post) (ran b now [p] db) =
      (Inl (MigrationThrew (migration_name m)), ran b now pre (ran b now [p] db))"
    using Cons.prems by (intro Cons.IH) (auto simp: ran_def list_all_iff, (metis image_eqI)+)
  then show ?case using first by (simp add: ran_def)
qed

text \<open>The lock is taken when nobody has it, and always given back.\<close>

definition unlocked :: "'s MigrationDb \<Rightarrow> bool" where
  "unlocked db = (case lock_table db of Some (Some _) \<Rightarrow> False | _ \<Rightarrow> True)"

lemma withLock_runs:
  assumes "unlocked db" "work (db\<lparr>lock_table := Some (Some owner)\<rparr>) = (r, db'\<lparr>lock_table := Some (Some owner)\<rparr>)"
  shows "withLock owner work db = (r, db'\<lparr>lock_table := Some None\<rparr>)"
  using assms
  by (auto simp: withLock_def insert_lock_def ensureLockTable_def delete_lock_def unlocked_def nullish_def
      split: option.splits)

lemma fold_max_ge: "(a :: nat) \<le> fold max xs a \<and> (\<forall>x \<in> set xs. x \<le> fold max xs a)"
proof (induction xs arbitrary: a)
  case (Cons x xs)
  then show ?case by (auto intro: order.trans [OF max.cobounded1] order.trans [OF max.cobounded2])
qed simp

lemma next_batch_new: "r \<in> set (recorded db) \<Longrightarrow> batch r < next_batch db"
  using fold_max_ge [of 0 "map batch (recorded db)"] by (auto simp: next_batch_def less_Suc_eq_le)

lemma up_locked_runs:
  assumes "all_succeed (pending found db) (schema db)" "sorted_wrt (<) (map migration_name found)" "migrations db \<noteq> None"
  shows "up_locked d now found db = (Inr (map migration_name (pending found db)), ran (next_batch db) now (pending found db) db)"
proof -
  have "distinct (map migration_name (pending found db))"
    using assms(2) by (simp add: pending_def strict_sorted_iff distinct_map_filter)
  moreover have "list_all (\<lambda>m. migration_name m \<notin> row_names db) (pending found db)"
    by (simp add: pending_def list_all_iff)
  ultimately have "run_each (\<lambda>m. runOne d (run_up (next_batch db) now m)) migration_name (pending found db) db =
      (Inr (map migration_name (pending found db)), ran (next_batch db) now (pending found db) db)"
    by (intro run_each_up assms)
  then show ?thesis using ran_nil [OF assms(3)] by (simp add: up_locked_def Let_def)
qed

text \<open>Undoing the rows of one batch in the reverse of their order.\<close>

fun reversible :: "'s Migration list \<Rightarrow> 's \<Rightarrow> bool" where
  "reversible [] s = True"
| "reversible (m # ms) s = (down_fun m (snd (up_fun m s)) = (True, s) \<and> reversible ms (snd (up_fun m s)))"

lemma reversible_append: "reversible (ms @ ns) s \<longleftrightarrow> reversible ms s \<and> reversible ns (applied ms s)"
  by (induction ms arbitrary: s) auto

lemma find_named:
  assumes "distinct (map migration_name found)" "m \<in> set found"
  shows "find (\<lambda>x. migration_name x = migration_name m) (rev found) = Some m"
proof -
  have "find (\<lambda>x. migration_name x = migration_name m) ms = Some m" if "distinct (map migration_name ms)" "m \<in> set ms" for ms
    using that by (induction ms) auto
  then show ?thesis using assms by (simp add: rev_map [symmetric])
qed

lemma run_each_down:
  assumes "distinct (map migration_name found)" "set ms \<subseteq> set found"
  shows "reversible ms s \<Longrightarrow> distinct (map migration_name ms) \<Longrightarrow> list_all (\<lambda>m. migration_name m \<notin> row_name ` set rs) ms \<Longrightarrow>
    run_each (undo_named d found) (\<lambda>name. name) (rev (map migration_name ms))
      \<lparr>schema = applied ms s, migrations = Some (rs @ map (row_of b now) ms), lock_table = l\<rparr> =
    (Inr (rev (map migration_name ms)), \<lparr>schema = s, migrations = Some rs, lock_table = l\<rparr>)"
  using assms(2)
proof (induction ms rule: rev_induct)
  case (snoc m ms)
  have down: "down_fun m (snd (up_fun m (applied ms s))) = (True, applied ms s)"
    using snoc.prems(1) by (simp add: reversible_append)
  have kept: "filter (\<lambda>r. row_name r \<noteq> migration_name m) (rs @ map (row_of b now) (ms @ [m])) = rs @ map (row_of b now) ms"
  proof -
    have "filter (\<lambda>r. row_name r \<noteq> migration_name m) rs = rs"
      using snoc.prems(3) by (auto intro!: filter_True simp: list_all_iff image_iff)
    moreover have "filter (\<lambda>r. row_name r \<noteq> migration_name m) (map (row_of b now) ms) = map (row_of b now) ms"
      using snoc.prems(2) by (intro filter_True) (auto, metis image_eqI)
    ultimately show ?thesis by simp
  qed
  have "undo_named d found (migration_name m)
      \<lparr>schema = applied (ms @ [m]) s, migrations = Some (rs @ map (row_of b now) (ms @ [m])), lock_table = l\<rparr> =
      (Inr (), \<lparr>schema = applied ms s, migrations = Some (rs @ map (row_of b now) ms), lock_table = l\<rparr>)"
    using find_named [OF assms(1), of m] snoc.prems(4) down kept
    by (simp add: undo_named_def runOne_def run_down_def delete_row_def)
  then show ?case using snoc by (simp add: reversible_append)
qed simp

lemma sort_greatest:
  assumes "b \<in> set xs" "\<And>x. x \<in> set xs \<Longrightarrow> x \<le> b"
  shows "sort xs = sort (remove1 b xs) @ [b]"
proof (rule properties_for_sort)
  show "mset (sort (remove1 b xs) @ [b]) = mset xs" using assms(1) by simp
  show "sorted (sort (remove1 b xs) @ [b])"
    using assms(2) notin_set_remove1 by (fastforce simp: sorted_append)
qed

lemma newest_batch_plan:
  assumes "\<And>r. r \<in> set rs \<Longrightarrow> batch r < b" "ms \<noteq> []" "sorted_wrt (<) (map migration_name ms)"
    "migrations db = Some (rs @ map (row_of b now) ms)"
  shows "rollback_plan (Some 1) db = rev (map migration_name ms)"
proof -
  let ?rows = "map (row_of b now) ms"
  let ?batches = "remdups (map batch (recorded db))"
  have rec: "recorded db = rs @ ?rows" using assms(4) by (simp add: recorded_def)
  have "sort ?batches = sort (remove1 b ?batches) @ [b]"
  proof (rule sort_greatest)
    show "b \<in> set ?batches" using assms(2) unfolding rec by (cases ms) auto
    show "x \<le> b" if "x \<in> set ?batches" for x using that assms(1) unfolding rec by (auto intro: less_imp_le)
  qed
  then have targets: "target_batches (Some 1) db = [b]" by (simp add: target_batches_def Let_def)
  have "filter (\<lambda>r. batch r \<in> set (target_batches (Some 1) db)) (recorded db) = ?rows"
    using assms(1) unfolding targets rec by (fastforce simp: filter_empty_conv filter_id_conv)
  moreover have "sort_key (\<lambda>r. (batch r, row_name r)) ?rows = ?rows"
  proof (rule sort_key_id_if_sorted)
    have "sorted (map migration_name ms)" using assms(3) by (simp add: strict_sorted_iff)
    then show "sorted (map (\<lambda>r. (batch r, row_name r)) ?rows)" by (simp add: sorted_map less_eq_prod_simp)
  qed
  ultimately show ?thesis by (simp add: rollback_plan_def rev_map)
qed

lemma ensured [simp]:
  "migrations (ensureMigrationsTable db) = Some (recorded db)" "schema (ensureMigrationsTable db) = schema db"
  "lock_table (ensureMigrationsTable db) = lock_table db" "recorded (ensureMigrationsTable db) = recorded db"
  by (simp_all add: ensureMigrationsTable_def recorded_def)

lemma pending_cong: "recorded db = recorded db' \<Longrightarrow> pending found db = pending found db'"
  by (simp add: pending_def)

lemma migrate_up_spec:
  assumes "unlocked db" "up_locked d now found (db\<lparr>migrations := Some (recorded db), lock_table := Some (Some owner)\<rparr>) =
    (r, db'\<lparr>lock_table := Some (Some owner)\<rparr>)"
  shows "migrate_up d owner now found db = (r, db'\<lparr>lock_table := Some None\<rparr>)"
  unfolding migrate_up_def
  by (rule withLock_runs) (use assms in \<open>simp_all add: unlocked_def ensureMigrationsTable_def recorded_def\<close>)

definition after_up :: "nat \<Rightarrow> string \<Rightarrow> 's Migration list \<Rightarrow> 's MigrationDb \<Rightarrow> 's MigrationDb" where
  "after_up b now ms db =
     \<lparr>schema = applied ms (schema db), migrations = Some (recorded db @ map (row_of b now) ms), lock_table = Some None\<rparr>"

lemma after_up_simps [simp]:
  "recorded (after_up b now ms db) = recorded db @ map (row_of b now) ms" "schema (after_up b now ms db) = applied ms (schema db)"
  "unlocked (after_up b now ms db)" "ensureMigrationsTable (after_up b now ms db) = after_up b now ms db"
  by (simp_all add: after_up_def recorded_def unlocked_def ensureMigrationsTable_def)

lemma migrate_up_runs:
  assumes "unlocked db" "sorted_wrt (<) (map migration_name found)" "all_succeed (pending found db) (schema db)"
  shows "migrate_up d owner now found db =
    (Inr (map migration_name (pending found db)), after_up (next_batch db) now (pending found db) db)"
proof -
  let ?db = "db\<lparr>migrations := Some (recorded db), lock_table := Some (Some owner)\<rparr>"
  have same: "pending found ?db = pending found db" "next_batch ?db = next_batch db"
    by (simp_all add: pending_def next_batch_def)
  have "up_locked d now found ?db = (Inr (map migration_name (pending found db)), ran (next_batch db) now (pending found db) ?db)"
    using up_locked_runs [of found ?db d now] assms(2,3) same by simp
  from migrate_up_spec [OF assms(1), of d now found owner _ "ran (next_batch db) now (pending found db) ?db"] this
  show ?thesis by (simp add: ran_def after_up_def)
qed

lemma after_up_nil [simp]: "after_up b now [] (after_up b' now' ms db) = after_up b' now' ms db"
  by (simp add: after_up_def recorded_def)

lemma pending_after_up:
  "pending found (after_up b now ms db) = filter (\<lambda>m. migration_name m \<notin> migration_name ` set ms) (pending found db)"
  by (simp add: pending_def image_Un image_image conj_commute)

lemma rollback_newest:
  assumes "sorted_wrt (<) (map migration_name found)" "set ms \<subseteq> set found" "sorted_wrt (<) (map migration_name ms)"
    "ms \<noteq> []" "list_all (\<lambda>m. migration_name m \<notin> row_names db) ms" "reversible ms (schema db)"
  shows "rollback d owner found (Some 1) (after_up (next_batch db) now ms db) =
    (Inr (rev (map migration_name ms)), db\<lparr>migrations := Some (recorded db), lock_table := Some None\<rparr>)"
proof -
  let ?b = "next_batch db"
  have whole: "(after_up ?b now ms db)\<lparr>lock_table := Some (Some owner)\<rparr> = \<lparr>schema = applied ms (schema db),
      migrations = Some (recorded db @ map (row_of ?b now) ms), lock_table = Some (Some owner)\<rparr>"
    by (simp add: after_up_def)
  have plan: "rollback_plan (Some 1) ((after_up ?b now ms db)\<lparr>lock_table := Some (Some owner)\<rparr>) = rev (map migration_name ms)"
    unfolding whole by (rule newest_batch_plan [of "recorded db" ?b ms _ now, OF next_batch_new assms(4,3)]) simp_all
  have "rollback_locked d found (Some 1) ((after_up ?b now ms db)\<lparr>lock_table := Some (Some owner)\<rparr>) =
      (Inr (rev (map migration_name ms)), \<lparr>schema = schema db, migrations = Some (recorded db), lock_table = Some (Some owner)\<rparr>)"
    unfolding rollback_locked_def plan unfolding whole
    by (rule run_each_down) (use assms in \<open>simp_all add: strict_sorted_iff\<close>)
  then have "withLock owner (rollback_locked d found (Some 1)) (after_up ?b now ms db) =
      (Inr (rev (map migration_name ms)), (db\<lparr>migrations := Some (recorded db)\<rparr>)\<lparr>lock_table := Some None\<rparr>)"
    by (intro withLock_runs) simp_all
  then show ?thesis by (simp add: rollback_def)
qed

text \<open>
  C26. A run that succeeds and a rollback cancel out: when the pending migrations all succeed and their
  \<open>down\<close> undoes their \<open>up\<close>, running applies exactly them, in the order of their names, as the dry run
  said; a second run does nothing; and rolling back one batch undoes exactly them in reverse, back to
  the schema, the rows and the free lock there were.  This holds on every dialect.
\<close>

theorem up_then_rollback:
  assumes "unlocked db" "pending (discover readdir load sources) db \<noteq> []"
    "all_succeed (pending (discover readdir load sources) db) (schema db)"
    "reversible (pending (discover readdir load sources) db) (schema db)"
  shows "let found = discover readdir load sources; todo = pending found db; names = map migration_name todo;
      (r, db') = migrate_up d owner now found db in
    r = Inr names \<and> fst (pretend_up found db) = names \<and> schema db' = applied todo (schema db) \<and>
    migrate_up d owner now found db' = (Inr [], db') \<and>
    rollback d owner found (Some 1) db' = (Inr (rev names), db\<lparr>migrations := Some (recorded db), lock_table := Some None\<rparr>)"
proof -
  define found where "found = discover readdir load sources"
  define todo where "todo = pending found db"
  have sorted: "sorted_wrt (<) (map migration_name found)" unfolding found_def by (rule discover_sorted)
  have todo: "sorted_wrt (<) (map migration_name todo)" "list_all (\<lambda>m. migration_name m \<notin> row_names db) todo" "set todo \<subseteq> set found"
    using sorted by (auto simp: todo_def pending_def strict_sorted_iff distinct_map_filter sorted_filter list_all_iff)
  note given = assms(2-) [folded found_def, folded todo_def]
  let ?db = "after_up (next_batch db) now todo db"
  have up: "migrate_up d owner now found db = (Inr (map migration_name todo), ?db)"
    using migrate_up_runs [OF assms(1) sorted] given(2) by (simp add: todo_def)
  have "pending found ?db = []" by (simp add: pending_after_up todo_def [symmetric] filter_empty_conv)
  then have "migrate_up d owner now found ?db = (Inr [], ?db)"
    using migrate_up_runs [of ?db found d owner now] sorted by simp
  moreover have "fst (pretend_up found db) = map migration_name todo"
    by (simp add: pretend_up_def Let_def todo_def pending_cong [of "ensureMigrationsTable db" db])
  moreover note rollback_newest [OF sorted todo(3,1) given(1) todo(2) given(3), of d owner now]
  ultimately show ?thesis using up by (simp add: Let_def found_def [symmetric] todo_def [symmetric])
qed

text \<open>
  Where data definition is transactional a failed run leaves nothing half done: when a pending
  migration throws after those before it succeeded, the run throws, what is recorded is what was
  applied, those before it, the lock is free, and the failing migration and those after it are
  still pending in their order.
\<close>

lemma failed_up_keeps_prefix:
  assumes "supportsTransactionalDdl d" "unlocked db" "pending (discover readdir load sources) db = pre @ m # post"
    "all_succeed pre (schema db)" "\<not> fst (up_fun m (applied pre (schema db)))"
  shows "let found = discover readdir load sources; (r, db') = migrate_up d owner now found db in
    r = Inl (MigrationThrew (migration_name m)) \<and> schema db' = applied pre (schema db) \<and>
    recorded db' = recorded db @ map (row_of (next_batch db) now) pre \<and>
    lock_table db' = Some None \<and> pending found db' = m # post"
proof -
  define found where "found = discover readdir load sources"
  let ?db = "db\<lparr>migrations := Some (recorded db), lock_table := Some (Some owner)\<rparr>"
  have sorted: "sorted_wrt (<) (map migration_name found)" unfolding found_def by (rule discover_sorted)
  have pend: "pending found db = pre @ m # post" using assms(3) by (simp add: found_def)
  have dist: "distinct (map migration_name (pre @ m # post))"
    using sorted by (simp add: pend [symmetric] pending_def strict_sorted_iff distinct_map_filter)
  have unrec: "list_all (\<lambda>m. migration_name m \<notin> row_names ?db) (pre @ m # post)"
    by (simp add: pend [symmetric] pending_def list_all_iff)
  have same: "pending found ?db = pre @ m # post" "next_batch ?db = next_batch db"
    by (simp_all add: pend [symmetric] pending_def next_batch_def)
  have "up_locked d now found ?db = (Inl (MigrationThrew (migration_name m)), ran (next_batch db) now pre ?db)"
    using run_each_up_fails [OF assms(1) _ _ _ dist unrec, of "next_batch db" now] assms(4,5) same by (simp add: up_locked_def)
  from migrate_up_spec [OF assms(2), of d now found owner _ "ran (next_batch db) now pre ?db"] this
  have up: "migrate_up d owner now found db = (Inl (MigrationThrew (migration_name m)), after_up (next_batch db) now pre db)"
    by (simp add: ran_def after_up_def)
  have "pending found (after_up (next_batch db) now pre db) = m # post"
    using dist unfolding pending_after_up pend by (force simp: filter_empty_conv filter_id_conv)
  then show ?thesis using up by (simp add: Let_def found_def [symmetric] after_up_def recorded_def)
qed

section \<open>A small application\<close>

definition create_table :: "string \<Rightarrow> string list Migration" where
  "create_table t = \<lparr>migration_name = ''0001_'' @ t,
     up_fun = (\<lambda>s. if t \<in> set s then (False, s @ [''half'']) else (True, s @ [t])),
     down_fun = (\<lambda>s. (True, filter (\<lambda>u. u \<noteq> t) s))\<rparr>"

definition demo_sources :: "string list MigrationSource list" where
  "demo_sources = [Registered (create_table ''b''), Registered (create_table ''c''), Registered (create_table ''a'')]"

definition demo_db :: "string list \<Rightarrow> string list MigrationDb" where
  "demo_db s = \<lparr>schema = s, migrations = None, lock_table = None\<rparr>"

abbreviation demo_found :: "string list Migration list" where
  "demo_found \<equiv> discover (\<lambda>d. None) (\<lambda>d f. create_table f) demo_sources"

lemma demo_pending: "pending demo_found (demo_db s) = [create_table ''a'', create_table ''b'', create_table ''c'']"
proof -
  have "demo_found = [create_table ''a'', create_table ''b'', create_table ''c'']"
    by (simp add: discover_def demo_sources_def create_table_def)
  then show ?thesis by (simp add: pending_def demo_db_def recorded_def)
qed

theorem up_then_rollback_witness:
  "rollback MySql ''pid:2'' demo_found (Some 1) (snd (migrate_up MySql ''pid:2'' ''now'' demo_found (demo_db [''users'']))) =
    (Inr [''0001_c'', ''0001_b'', ''0001_a''], \<lparr>schema = [''users''], migrations = Some [], lock_table = Some None\<rparr>)"
proof -
  have "unlocked (demo_db [''users''])" by (simp add: unlocked_def demo_db_def)
  moreover have "pending demo_found (demo_db [''users'']) \<noteq> []" by (simp add: demo_pending)
  moreover have "all_succeed (pending demo_found (demo_db [''users''])) (schema (demo_db [''users'']))"
    "reversible (pending demo_found (demo_db [''users''])) (schema (demo_db [''users'']))"
    unfolding demo_pending by (simp_all add: create_table_def demo_db_def)
  ultimately show ?thesis
    using up_then_rollback [of "demo_db [''users'']" "\<lambda>d. None" "\<lambda>d f. create_table f" demo_sources MySql "''pid:2''" "''now''"]
    by (simp add: demo_pending Let_def case_prod_unfold) (simp add: create_table_def demo_db_def recorded_def)
qed


end
