(* ===== verification/MigrationRuns.thy ===== *)
theory MigrationRuns
  imports MigrationLaws
begin

text \<open>
  Several migration runs at once: the steps of \<open>up\<close>, \<open>rollback\<close> and \<open>fresh\<close> between which another
  process may run.  A step is one statement, or one migration in its transaction.  A process may stop
  for good at any step.
\<close>

section \<open>The steps of a run\<close>

datatype 's run_request = UpRun | RollbackRun "int option" | FreshRun 's

datatype 's run_pc =
  RunStart | RunTables | RunLockTable | RunInsert | RunPlan | RunUp nat "'s Migration list" | RunDown "string list"
  | RunRelease | RunOver "migration_error option"

text \<open>The history lists the migrations that ran to their end, with true for \<open>up\<close>.\<close>

record 's Runs =
  mdb :: "'s MigrationDb"
  run_pcs :: "nat \<Rightarrow> 's run_pc"
  history :: "('s Migration \<times> bool) list"

definition run_goto :: "nat \<Rightarrow> 's run_pc \<Rightarrow> 's MigrationDb \<Rightarrow> ('s Migration \<times> bool) list \<Rightarrow> 's Runs \<Rightarrow> 's Runs" where
  "run_goto p pc db es w = w\<lparr>mdb := db, run_pcs := (run_pcs w)(p := pc), history := history w @ es\<rparr>"

fun run_advance ::
  "MigrationDialect \<Rightarrow> 's Migration list \<Rightarrow> (nat \<Rightarrow> 's run_request) \<Rightarrow> (nat \<Rightarrow> string) \<Rightarrow> string \<Rightarrow> nat \<Rightarrow> 's run_pc \<Rightarrow>
   's Runs \<Rightarrow> 's Runs" where
  "run_advance d found req owner now p RunStart w =
     run_goto p RunTables (case req p of FreshRun s \<Rightarrow> dropAllTables s (mdb w) | _ \<Rightarrow> mdb w) [] w"
| "run_advance d found req owner now p RunTables w = run_goto p RunLockTable (ensureMigrationsTable (mdb w)) [] w"
| "run_advance d found req owner now p RunLockTable w = run_goto p RunInsert (ensureLockTable (mdb w)) [] w"
| "run_advance d found req owner now p RunInsert w =
     (case insert_lock (owner p) (mdb w) of
        (Inl e, db) \<Rightarrow> run_goto p (RunOver (Some e)) db [] w
      | (Inr _, db) \<Rightarrow> run_goto p RunPlan db [] w)"
| "run_advance d found req owner now p RunPlan w =
     run_goto p (case req p of RollbackRun step \<Rightarrow> RunDown (rollback_plan step (mdb w))
        | _ \<Rightarrow> RunUp (next_batch (mdb w)) (pending found (mdb w))) (mdb w) [] w"
| "run_advance d found req owner now p (RunUp b []) w = run_goto p RunRelease (mdb w) [] w"
| "run_advance d found req owner now p (RunUp b (m # ms)) w =
     (case runOne d (run_up b now m) (mdb w) of
        (Inl e, db) \<Rightarrow> run_goto p RunRelease db [] w
      | (Inr _, db) \<Rightarrow> run_goto p (RunUp b ms) db [(m, True)] w)"
| "run_advance d found req owner now p (RunDown []) w = run_goto p RunRelease (mdb w) [] w"
| "run_advance d found req owner now p (RunDown (n # ns)) w =
     (case undo_named d found n (mdb w) of
        (Inl e, db) \<Rightarrow> run_goto p RunRelease db [] w
      | (Inr _, db) \<Rightarrow> run_goto p (RunDown ns) db
          (case find (\<lambda>m. migration_name m = n) (rev found) of None \<Rightarrow> [] | Some m \<Rightarrow> [(m, False)]) w)"
| "run_advance d found req owner now p RunRelease w =
     (case delete_lock (mdb w) of
        (Inl e, db) \<Rightarrow> run_goto p (RunOver (Some e)) db [] w
      | (Inr _, db) \<Rightarrow> run_goto p (RunOver None) db [] w)"
| "run_advance d found req owner now p (RunOver e) w = w"

fun inside_lock :: "'s run_pc \<Rightarrow> bool" where
  "inside_lock RunPlan = True" | "inside_lock (RunUp b ms) = True" | "inside_lock (RunDown ns) = True"
| "inside_lock RunRelease = True" | "inside_lock _ = False"

inductive runs_reach ::
  "MigrationDialect \<Rightarrow> 's Migration list \<Rightarrow> (nat \<Rightarrow> 's run_request) \<Rightarrow> (nat \<Rightarrow> string) \<Rightarrow> string \<Rightarrow> 's Runs \<Rightarrow> 's Runs \<Rightarrow> bool"
  for d found req owner now w0 where
  reach_start: "runs_reach d found req owner now w0 w0"
| reach_step: "runs_reach d found req owner now w0 w \<Longrightarrow>
    runs_reach d found req owner now w0 (run_advance d found req owner now p (run_pcs w p) w)"
| reach_crash: "runs_reach d found req owner now w0 w \<Longrightarrow>
    runs_reach d found req owner now w0 (run_goto p (RunOver None) (mdb w) [] w)"

definition runs_start :: "'s MigrationDb \<Rightarrow> 's Runs" where
  "runs_start db = \<lparr>mdb = db, run_pcs = (\<lambda>_. RunStart), history = []\<rparr>"

section \<open>Runs exclude each other\<close>

fun alternates :: "bool \<Rightarrow> bool list \<Rightarrow> bool" where
  "alternates b [] = True"
| "alternates b (e # es) = (e \<noteq> b \<and> alternates e es)"

lemma alternates_snoc: "alternates b (es @ [e]) \<longleftrightarrow> alternates b es \<and> e \<noteq> last (b # es)"
  by (induction es arbitrary: b) auto

definition runs_of :: "string \<Rightarrow> ('s Migration \<times> bool) list \<Rightarrow> bool list" where
  "runs_of n es = map snd (filter (\<lambda>e. migration_name (fst e) = n) es)"

definition replay :: "('s Migration \<times> bool) list \<Rightarrow> 's \<Rightarrow> 's" where
  "replay es s = foldl (\<lambda>s (m, up). snd ((if up then up_fun m else down_fun m) s)) s es"

lemma history_simps [simp]:
  "runs_of n [] = []" "replay [] s = s"
  "runs_of n (es @ [(m, u)]) = runs_of n es @ (if migration_name m = n then [u] else [])"
  "replay (es @ [(m, u)]) s = snd ((if u then up_fun m else down_fun m) (replay es s))"
  by (simp_all add: runs_of_def replay_def)

text \<open>What the rows and the schema say of the history.\<close>

definition faithful_rows :: "'s MigrationDb \<Rightarrow> 's MigrationDb \<Rightarrow> ('s Migration \<times> bool) list \<Rightarrow> bool" where
  "faithful_rows db0 db es \<longleftrightarrow> distinct (map row_name (recorded db)) \<and> schema db = replay es (schema db0) \<and>
     (\<forall>n. alternates (n \<in> row_names db0) (runs_of n es) \<and>
       (n \<in> row_names db \<longleftrightarrow> last ((n \<in> row_names db0) # runs_of n es)))"

definition runs_inv :: "'s MigrationDb \<Rightarrow> 's Runs \<Rightarrow> bool" where
  "runs_inv db0 w \<longleftrightarrow> faithful_rows db0 (mdb w) (history w) \<and>
     (\<forall>p q. inside_lock (run_pcs w p) \<longrightarrow> inside_lock (run_pcs w q) \<longrightarrow> p = q) \<and>
     (\<forall>p. inside_lock (run_pcs w p) \<longrightarrow> \<not> unlocked (mdb w)) \<and>
     (\<forall>p ns. run_pcs w p = RunDown ns \<longrightarrow> distinct ns \<and> set ns \<subseteq> row_names (mdb w))"

lemma runs_invD:
  assumes "runs_inv db0 w"
  shows "faithful_rows db0 (mdb w) (history w)" "inside_lock (run_pcs w p) \<Longrightarrow> inside_lock (run_pcs w q) \<Longrightarrow> p = q"
    "inside_lock (run_pcs w p) \<Longrightarrow> \<not> unlocked (mdb w)"
    "run_pcs w p = RunDown ns \<Longrightarrow> distinct ns \<and> set ns \<subseteq> row_names (mdb w)"
  using assms unfolding runs_inv_def by blast+

lemma run_goto_simps [simp]:
  "mdb (run_goto p pc db es w) = db" "history (run_goto p pc db es w) = history w @ es"
  "run_pcs (run_goto p pc db es w) = (run_pcs w)(p := pc)"
  by (simp_all add: run_goto_def)

lemma goto_runs_inv:
  assumes inv: "runs_inv db0 w" and rows: "faithful_rows db0 db (history w @ es)"
    and here: "inside_lock pc \<Longrightarrow> \<not> unlocked db" "\<And>ns. pc = RunDown ns \<Longrightarrow> distinct ns \<and> set ns \<subseteq> row_names db"
    and others: "(\<forall>q. q \<noteq> p \<longrightarrow> \<not> inside_lock (run_pcs w q)) \<or>
      \<not> inside_lock pc \<and> row_names db = row_names (mdb w) \<and> (unlocked db \<longrightarrow> unlocked (mdb w))"
  shows "runs_inv db0 (run_goto p pc db es w)"
proof -
  have down: "inside_lock (run_pcs w q)" if "run_pcs w q = RunDown ns" for q ns using that by simp
  have pcs: "inside_lock (run_pcs (run_goto p pc db es w) q) \<longleftrightarrow> (if q = p then inside_lock pc else inside_lock (run_pcs w q))" for q
    by simp
  have "q = r" if "inside_lock (run_pcs (run_goto p pc db es w) q)" "inside_lock (run_pcs (run_goto p pc db es w) r)" for q r
    using that others runs_invD(2) [OF inv, of q r] unfolding pcs by (auto split: if_splits)
  moreover have "\<not> unlocked db" if "inside_lock (run_pcs (run_goto p pc db es w) q)" for q
    using that others here(1) runs_invD(3) [OF inv, of q] unfolding pcs by (auto split: if_splits)
  moreover have "distinct ns \<and> set ns \<subseteq> row_names db" if "run_pcs (run_goto p pc db es w) q = RunDown ns" for q ns
    using that others here(2) runs_invD(4) [OF inv, of q ns] down [of q ns] by (cases "q = p") auto
  ultimately show ?thesis unfolding runs_inv_def run_goto_simps(1,2) using rows by blast
qed

lemma faithful_tables [simp]:
  "faithful_rows db0 (ensureMigrationsTable db) es = faithful_rows db0 db es"
  "faithful_rows db0 (ensureLockTable db) es = faithful_rows db0 db es"
  "faithful_rows db0 (db\<lparr>lock_table := l\<rparr>) es = faithful_rows db0 db es"
  "recorded (ensureLockTable db) = recorded db"
  by (simp_all add: faithful_rows_def ensureLockTable_def)

lemma unlocked_tables [simp]:
  "unlocked (ensureMigrationsTable db) = unlocked db" "unlocked (ensureLockTable db) = unlocked db"
  by (auto simp: unlocked_def ensureLockTable_def nullish_def split: option.splits)

lemma run_up_effect:
  assumes "supportsTransactionalDdl d" "faithful_rows db0 db es" "runOne d (run_up b now m) db = (r, db')"
  shows "lock_table db' = lock_table db \<and> faithful_rows db0 db' (if r = Inr () then es @ [(m, True)] else es) \<and>
    (r \<noteq> Inr () \<longrightarrow> db' = db)"
proof -
  have "(\<exists>e. r = Inl e) \<and> db' = db \<or>
      r = Inr () \<and> migration_name m \<notin> row_names db \<and>
      db' = db\<lparr>schema := snd (up_fun m (schema db)), migrations := Some (recorded db @ [row_of b now m])\<rparr>"
    using assms(1,3)
    by (auto simp: runOne_def run_up_def insert_row_def row_of_def recorded_def Let_def split: prod.splits option.splits if_splits sum.splits)
  then show ?thesis
  proof
    assume new: "r = Inr () \<and> migration_name m \<notin> row_names db \<and>
      db' = db\<lparr>schema := snd (up_fun m (schema db)), migrations := Some (recorded db @ [row_of b now m])\<rparr>"
    then have "row_names db' = insert (migration_name m) (row_names db)" by simp
    then show ?thesis using new assms(2) unfolding faithful_rows_def by (auto simp: alternates_snoc)
  qed (use assms(2) in auto)
qed

lemma undo_effect:
  assumes "supportsTransactionalDdl d" "faithful_rows db0 db es" "n \<in> row_names db" "undo_named d found n db = (r, db')"
  shows "lock_table db' = lock_table db \<and>
    faithful_rows db0 db' (es @ (if r = Inr () then case find (\<lambda>m. migration_name m = n) (rev found) of None \<Rightarrow> [] | Some m \<Rightarrow> [(m, False)] else [])) \<and>
    row_names db' = (if r = Inr () then row_names db - {n} else row_names db)"
proof (cases "find (\<lambda>m. migration_name m = n) (rev found)")
  case None
  then show ?thesis using assms(2,4) by (auto simp: undo_named_def)
next
  case (Some m)
  then have name: "migration_name m = n" by (auto simp: find_Some_iff)
  have "(\<exists>e. r = Inl e) \<and> db' = db \<or>
      r = Inr () \<and> db' = db\<lparr>schema := snd (down_fun m (schema db)), migrations := Some (filter (\<lambda>r. row_name r \<noteq> n) (recorded db))\<rparr>"
    using assms(1,4) Some name
    by (auto simp: undo_named_def runOne_def run_down_def delete_row_def recorded_def Let_def split: prod.splits option.splits if_splits sum.splits)
  then show ?thesis
  proof
    assume new: "r = Inr () \<and> db' = db\<lparr>schema := snd (down_fun m (schema db)), migrations := Some (filter (\<lambda>r. row_name r \<noteq> n) (recorded db))\<rparr>"
    then have "row_names db' = row_names db - {n}" by auto
    then show ?thesis using new assms(2,3) Some name unfolding faithful_rows_def by (auto simp: alternates_snoc distinct_map_filter)
  qed (use assms(2) in auto)
qed

lemma plan_names:
  assumes "distinct (map row_name (recorded db))"
  shows "distinct (rollback_plan step db) \<and> set (rollback_plan step db) \<subseteq> row_names db"
  using assms by (auto simp: rollback_plan_def distinct_map rev_map [symmetric] intro: inj_on_subset)

lemma insert_lock_effect:
  assumes "insert_lock owner db = (r, db')"
  shows "if r = Inr () then unlocked db \<and> \<not> unlocked db' \<and> (\<exists>l. db' = db\<lparr>lock_table := l\<rparr>) else db' = db"
  using assms by (auto simp: insert_lock_def unlocked_def split: option.splits)

lemma advance_runs_inv:
  assumes d: "supportsTransactionalDdl d" and inv: "runs_inv db0 w" and req: "\<And>s. req p \<noteq> FreshRun s"
  shows "runs_inv db0 (run_advance d found req owner now p (run_pcs w p) w)"
proof -
  note rows = runs_invD(1) [OF inv]
  have alone: "\<forall>q. q \<noteq> p \<longrightarrow> \<not> inside_lock (run_pcs w q)" if "inside_lock (run_pcs w p)"
    using runs_invD(2) [OF inv that] by blast
  have locked: "\<not> unlocked (mdb w)" if "inside_lock (run_pcs w p)" by (rule runs_invD(3) [OF inv that])
  show ?thesis
  proof (cases "run_pcs w p")
    case RunStart
    have "(case req p of FreshRun s \<Rightarrow> dropAllTables s (mdb w) | _ \<Rightarrow> mdb w) = mdb w"
      using req by (cases "req p") auto
    then show ?thesis using rows unfolding RunStart by (auto intro!: goto_runs_inv [OF inv])
  next
    case RunInsert
    obtain r db where insert: "insert_lock (owner p) (mdb w) = (r, db)" by (cases "insert_lock (owner p) (mdb w)")
    have free: "\<not> inside_lock (run_pcs w q)" if "unlocked (mdb w)" for q using that runs_invD(3) [OF inv, of q] by blast
    show ?thesis
      using insert_lock_effect [OF insert] insert rows free unfolding RunInsert
      by (cases r) (auto intro!: goto_runs_inv [OF inv])
  next
    case RunPlan
    then show ?thesis
      using rows alone locked plan_names [of "mdb w"]
      by (auto intro!: goto_runs_inv [OF inv] split: run_request.splits simp: faithful_rows_def)
  next
    case (RunUp b ms)
    show ?thesis
    proof (cases ms)
      case Nil
      then show ?thesis using RunUp rows alone locked by (auto intro!: goto_runs_inv [OF inv])
    next
      case (Cons m ms')
      obtain r db where run: "runOne d (run_up b now m) (mdb w) = (r, db)" by (cases "runOne d (run_up b now m) (mdb w)")
      note effect = run_up_effect [OF d rows run]
      then have "\<not> unlocked db" using locked RunUp by (simp add: unlocked_def)
      then show ?thesis
        using effect run alone RunUp Cons by (cases r) (auto intro!: goto_runs_inv [OF inv])
    qed
  next
    case (RunDown ns)
    show ?thesis
    proof (cases ns)
      case Nil
      then show ?thesis using RunDown rows alone locked by (auto intro!: goto_runs_inv [OF inv])
    next
      case (Cons n ns')
      have names: "distinct (n # ns')" "set (n # ns') \<subseteq> row_names (mdb w)" using runs_invD(4) [OF inv RunDown] Cons by auto
      obtain r db where run: "undo_named d found n (mdb w) = (r, db)" by (cases "undo_named d found n (mdb w)")
      note effect = undo_effect [OF d rows _ run]
      then have "\<not> unlocked db" using locked RunDown names by (simp add: unlocked_def)
      then show ?thesis
        using effect run alone RunDown Cons names by (cases r) (auto intro!: goto_runs_inv [OF inv])
    qed
  next
    case RunRelease
    then show ?thesis
      using rows alone by (auto simp: delete_lock_def intro!: goto_runs_inv [OF inv] split: option.splits)
  qed (use rows inv in \<open>auto intro!: goto_runs_inv [OF inv]\<close>)
qed

lemma runs_reach_inv:
  assumes "runs_reach d found req owner now w0 w" "supportsTransactionalDdl d" "runs_inv db0 w0" "\<And>p s. req p \<noteq> FreshRun s"
  shows "runs_inv db0 w"
  using assms(1)
proof induction
  case (reach_step w p)
  then show ?case using assms by (intro advance_runs_inv)
next
  case (reach_crash w p)
  then show ?case using runs_invD(1) [OF reach_crash.IH] by (intro goto_runs_inv) auto
qed (rule assms(3))

text \<open>
  C25. In every interleaving of any number of \<open>up\<close> and \<open>rollback\<close> runs, with migrations that throw and
  processes that die at any step, on a dialect with transactional data definition: at most one run is
  inside the lock; every migration is applied and rolled back in turn, never twice in a row; it is
  recorded exactly when it was last applied; and the schema is what the completed migrations make of
  the first one, so a migration that threw has left nothing.
\<close>

theorem runs_are_serial:
  assumes "runs_reach d found req owner now (runs_start db0) w" "supportsTransactionalDdl d"
    "distinct (map row_name (recorded db0))" "\<And>p s. req p \<noteq> FreshRun s"
  shows "(inside_lock (run_pcs w p) \<longrightarrow> inside_lock (run_pcs w q) \<longrightarrow> p = q) \<and>
    alternates (n \<in> row_names db0) (runs_of n (history w)) \<and>
    (n \<in> row_names (mdb w) \<longleftrightarrow> last ((n \<in> row_names db0) # runs_of n (history w))) \<and>
    schema (mdb w) = replay (history w) (schema db0)"
proof -
  have "runs_inv db0 (runs_start db0)" using assms(3) by (simp add: runs_inv_def runs_start_def faithful_rows_def)
  then have "runs_inv db0 w" by (intro runs_reach_inv [OF assms(1,2) _ assms(4)])
  then show ?thesis unfolding runs_inv_def faithful_rows_def by blast
qed

text \<open>Running the processes in a given order.\<close>

fun run_schedule ::
  "MigrationDialect \<Rightarrow> 's Migration list \<Rightarrow> (nat \<Rightarrow> 's run_request) \<Rightarrow> nat list \<Rightarrow> 's Runs \<Rightarrow> 's Runs" where
  "run_schedule d found req [] w = w"
| "run_schedule d found req (p # ps) w =
     run_schedule d found req ps (run_advance d found req (\<lambda>_. ''pid'') ''now'' p (run_pcs w p) w)"

lemma run_schedule_reach:
  "runs_reach d found req (\<lambda>_. ''pid'') ''now'' w0 w \<Longrightarrow>
   runs_reach d found req (\<lambda>_. ''pid'') ''now'' w0 (run_schedule d found req ps w)"
  by (induction ps arbitrary: w) (auto intro: reach_step)

lemma demo_found_list: "demo_found = [create_table ''a'', create_table ''b'', create_table ''c'']"
  by (simp add: discover_def demo_sources_def create_table_def)

definition demo_requests :: "nat \<Rightarrow> string list run_request" where
  "demo_requests p = (if p = 0 then UpRun else if p = 1 then RollbackRun (Some 1) else FreshRun [])"

lemmas run_simps = runs_start_def run_goto_def demo_db_def insert_lock_def ensureMigrationsTable_def ensureLockTable_def
  nullish_def pending_def recorded_def next_batch_def runOne_def run_up_def insert_row_def supportsTransactionalDdl_def
  create_table_def dropAllTables_def demo_requests_def

text \<open>An \<open>up\<close> that stops at a failing migration while a rollback is refused the lock.\<close>

theorem runs_are_serial_witness:
  "schema (mdb (run_schedule Sqlite demo_found (\<lambda>p. if p = 0 then UpRun else RollbackRun (Some 1))
     [0, 0, 0, 0, 1, 1, 1, 1, 0, 0, 0] (runs_start (demo_db [''b''])))) = [''b'', ''a'']"
proof -
  let ?req = "\<lambda>p :: nat. if p = 0 then UpRun else RollbackRun (Some 1) :: string list run_request"
  define w where "w = run_schedule Sqlite demo_found ?req [0, 0, 0, 0, 1, 1, 1, 1, 0, 0, 0] (runs_start (demo_db [''b'']))"
  have "runs_reach Sqlite demo_found ?req (\<lambda>_. ''pid'') ''now'' (runs_start (demo_db [''b''])) w"
    unfolding w_def by (rule run_schedule_reach [OF reach_start])
  moreover have "supportsTransactionalDdl Sqlite" "distinct (map row_name (recorded (demo_db [''b''])))"
    by (simp_all add: run_simps)
  ultimately have "schema (mdb w) = replay (history w) (schema (demo_db [''b'']))"
    using runs_are_serial [of Sqlite demo_found ?req _ _ _ w 0 0 "''0001_a''"] by simp
  moreover have "history w = [(create_table ''a'', True)]"
    unfolding w_def demo_found_list by (simp add: run_simps)
  ultimately have "schema (mdb w) = [''b'', ''a'']" by (simp add: replay_def create_table_def demo_db_def)
  then show ?thesis unfolding w_def .
qed

text \<open>
  \<open>fresh\<close> drops the lock table before it asks for the lock, so it does not wait for a run in
  progress, it lets a second run in: both are inside the lock, each applies migrations to the other's
  tables, and here the refreshing run fails although every migration works on the schema it dropped to.
\<close>

lemma fresh_breaks_the_lock:
  "\<exists>w. runs_reach Sqlite demo_found demo_requests (\<lambda>_. ''pid'') ''now'' (runs_start (demo_db [])) w \<and>
    inside_lock (run_pcs w 0) \<and> inside_lock (run_pcs w 2) \<and>
    (\<exists>w'. runs_reach Sqlite demo_found demo_requests (\<lambda>_. ''pid'') ''now'' w w' \<and>
      run_pcs w' 2 = RunRelease \<and> map row_name (recorded (mdb w')) = [''0001_b'', ''0001_a''] \<and>
      all_succeed demo_found [])"
proof (intro exI conjI)
  let ?w = "run_schedule Sqlite demo_found demo_requests [0, 0, 0, 0, 0, 0, 2, 2, 2, 2, 2] (runs_start (demo_db []))"
  let ?w' = "run_schedule Sqlite demo_found demo_requests [0, 2, 2] ?w"
  show "runs_reach Sqlite demo_found demo_requests (\<lambda>_. ''pid'') ''now'' (runs_start (demo_db [])) ?w"
    "runs_reach Sqlite demo_found demo_requests (\<lambda>_. ''pid'') ''now'' ?w ?w'"
    by (rule run_schedule_reach [OF reach_start])+
  show "inside_lock (run_pcs ?w 0)" "inside_lock (run_pcs ?w 2)" "run_pcs ?w' 2 = RunRelease"
    "map row_name (recorded (mdb ?w')) = [''0001_b'', ''0001_a'']"
    unfolding demo_found_list by (simp_all add: run_simps)
  show "all_succeed demo_found []" unfolding demo_found_list by (simp add: create_table_def)
qed

end
