(* ===== verification/UrlSafety.thy ===== *)
theory UrlSafety
  imports JsPrelude
begin

unbundle bit_operations_syntax

text \<open>
  Outbound URL checks: \<open>framework/core/src/url-safety.ts\<close>.  Parsing a URL and resolving a name are
  parameters; the texts of addresses and every rule on them are modelled.  A zone index with a colon
  in it is not.
\<close>

section \<open>Texts of addresses\<close>

text \<open>\<open>isIP\<close> of the standard library: four decimal octets without leading zeros, or groups of up to four
  hexadecimal digits with at most one double colon, the last two possibly as a dotted quad, and an
  optional zone index.\<close>

definition is_octet :: "string \<Rightarrow> bool" where
  "is_octet w = (all_digits w \<and> (w = ''0'' \<or> hd w \<noteq> CHR ''0'') \<and> number_of_digits w < 256)"

definition isIPv4 :: "string \<Rightarrow> bool" where
  "isIPv4 s = (let ws = split_on CHR ''.'' s in length ws = 4 \<and> list_all is_octet ws)"

definition is_hex :: "char \<Rightarrow> bool" where
  "is_hex c = (is_digit c \<or> (97 \<le> (of_char c :: nat) \<and> (of_char c :: nat) \<le> 102) \<or>
     (65 \<le> (of_char c :: nat) \<and> (of_char c :: nat) \<le> 70))"

definition hex_digit :: "char \<Rightarrow> nat" where
  "hex_digit c = (if is_digit c then digit_value c else if 97 \<le> (of_char c :: nat) then of_char c - 87 else of_char c - 55)"

definition is_hextet :: "string \<Rightarrow> bool" where
  "is_hextet w = (w \<noteq> [] \<and> length w \<le> 4 \<and> list_all is_hex w)"

text \<open>\<open>split("::")\<close>.\<close>

fun split_double :: "string \<Rightarrow> string list" where
  "split_double [] = [[]]"
| "split_double [a] = [[a]]"
| "split_double (a # b # s) =
     (if a = CHR '':'' \<and> b = CHR '':'' then [] # split_double s
      else case split_double (b # s) of [] \<Rightarrow> [[a]] | w # ws \<Rightarrow> (a # w) # ws)"

text \<open>How many groups of sixteen bits a part holds, when it is well formed.\<close>

definition group_count :: "string list \<Rightarrow> nat option" where
  "group_count ws =
     (if ws = [] then Some 0
      else if list_all is_hextet ws then Some (length ws)
      else if list_all is_hextet (butlast ws) \<and> isIPv4 (last ws) then Some (length ws + 1) else None)"

definition part_groups :: "string \<Rightarrow> string list" where
  "part_groups p = (if p = [] then [] else split_on CHR '':'' p)"

definition is_zone_char :: "char \<Rightarrow> bool" where
  "is_zone_char c = (is_digit c \<or> to_lower c \<in> set ''abcdefghijklmnopqrstuvwxyz'' \<or> c = CHR ''-'' \<or> c = CHR ''.'')"

definition isIPv6 :: "string \<Rightarrow> bool" where
  "isIPv6 s =
     (let body = takeWhile (\<lambda>c. c \<noteq> CHR ''%'') s; zone = dropWhile (\<lambda>c. c \<noteq> CHR ''%'') s in
      (zone = [] \<or> tl zone \<noteq> [] \<and> list_all is_zone_char (tl zone)) \<and>
      (case split_double body of
         [p] \<Rightarrow> group_count (part_groups p) = Some 8
       | [p, q] \<Rightarrow>
           list_all is_hextet (part_groups p) \<and>
           (case group_count (part_groups q) of None \<Rightarrow> False | Some n \<Rightarrow> length (part_groups p) + n \<le> 7)
       | _ \<Rightarrow> False))"

definition isIP :: "string \<Rightarrow> nat" where
  "isIP s = (if isIPv4 s then 4 else if isIPv6 s then 6 else 0)"

section \<open>From text to bytes\<close>

definition parseIpv4 :: "string \<Rightarrow> nat list option" where
  "parseIpv4 s = (if isIP s \<noteq> 4 then None else Some (map number_of_digits (split_on CHR ''.'' s)))"

text \<open>\<open>parseInt(piece, 16)\<close> reads the leading hexadecimal digits; without any it is NaN, which counts as
  zero in the shifts it is used in.\<close>

definition parseInt16 :: "string \<Rightarrow> nat" where
  "parseInt16 s = foldl (\<lambda>n c. 16 * n + hex_digit c) 0 (takeWhile is_hex s)"

definition splitHextets :: "string \<Rightarrow> nat list" where
  "splitHextets part =
     (if part = [] then [] else map parseInt16 (filter (\<lambda>w. w \<noteq> []) (split_on CHR '':'' part)))"

definition after_last_colon :: "string \<Rightarrow> string" where
  "after_last_colon s = rev (takeWhile (\<lambda>c. c \<noteq> CHR '':'') (rev s))"

definition up_to_last_colon :: "string \<Rightarrow> string" where
  "up_to_last_colon s = take (length s - length (after_last_colon s)) s"

definition word_bytes :: "nat \<Rightarrow> nat list" where
  "word_bytes w = [drop_bit 8 w AND 255, w AND 255]"

definition parseIpv6 :: "string \<Rightarrow> nat list option" where
  "parseIpv6 address =
     (if isIP address \<noteq> 6 then None
      else let tail = after_last_colon address;
               trailingV4 = (if CHR ''.'' \<in> set tail then parseIpv4 tail else None);
               hextets = split_double (if trailingV4 = None then address else up_to_last_colon address) in
        if 2 < length hextets then None
        else let head = splitHextets (hextets ! 0); rest = (if length hextets = 1 then [] else splitHextets (hextets ! 1));
                 groups = (if trailingV4 = None then 8 else 6) in
          if length hextets = 1 \<and> length head \<noteq> groups then None
          else if groups < length head + length rest then None
          else let bytes = concat (map word_bytes (head @ replicate (groups - length head - length rest) 0 @ rest)) @
                     nullish trailingV4 [] in
            if length bytes = 16 then Some bytes else None)"

definition dotted :: "nat list \<Rightarrow> string" where
  "dotted ns = join_with ''.'' (map string_of_nat ns)"

definition embedded_ipv4 :: "nat list \<Rightarrow> bool" where
  "embedded_ipv4 bytes =
     (list_all (\<lambda>b. b = 0) (take 10 bytes) \<and> bytes ! 10 = 255 \<and> bytes ! 11 = 255 \<or>
      bytes ! 0 = 0 \<and> bytes ! 1 = 0x64 \<and> bytes ! 2 = 0xff \<and> bytes ! 3 = 0x9b \<and>
      list_all (\<lambda>b. b = 0) (take 8 (drop 4 bytes)))"

definition unwrapMappedIpv4 :: "string \<Rightarrow> string option" where
  "unwrapMappedIpv4 address =
     (case parseIpv6 address of None \<Rightarrow> None
      | Some bytes \<Rightarrow> if embedded_ipv4 bytes then Some (dotted (drop 12 bytes)) else None)"

section \<open>Judging addresses\<close>

definition isPrivateIpv4 :: "nat list \<Rightarrow> bool" where
  "isPrivateIpv4 octets =
     (let a = octets ! 0; b = octets ! 1 in
      a = 0 \<or> a = 10 \<or> a = 127 \<or> a = 100 \<and> 64 \<le> b \<and> b \<le> 127 \<or> a = 169 \<and> b = 254 \<or>
      a = 172 \<and> 16 \<le> b \<and> b \<le> 31 \<or> a = 192 \<and> b = 0 \<and> octets ! 2 = 0 \<or> a = 192 \<and> b = 168 \<or>
      a = 198 \<and> (b = 18 \<or> b = 19) \<or> 224 \<le> a)"

definition isPrivateIpv6 :: "nat list \<Rightarrow> bool" where
  "isPrivateIpv6 bytes =
     (if list_all (\<lambda>b. b = 0) (take 15 bytes) \<and> (bytes ! 15 = 0 \<or> bytes ! 15 = 1) then True
      else let x = bytes ! 0; y = bytes ! 1 in
        x AND 0xfe = 0xfc \<or> x = 0xfe \<and> y AND 0xc0 = 0x80 \<or> x = 0xff)"

definition metadata_ipv4 :: string where
  "metadata_ipv4 = ''169.254.169.254''"

definition metadata_ipv6 :: string where
  "metadata_ipv6 = ''fd00:ec2::254''"

definition isMetadataAddress :: "string \<Rightarrow> bool" where
  "isMetadataAddress address =
     (let normalised = nullish (unwrapMappedIpv4 address) (toLowerCase address) in
      if normalised = metadata_ipv4 \<or> normalised = metadata_ipv6 then True
      else case parseIpv6 normalised of None \<Rightarrow> False | Some bytes \<Rightarrow> parseIpv6 metadata_ipv6 = Some bytes)"

record UrlPolicy =
  schemes :: "string list option"
  allowPrivate :: bool
  rejectCredentials :: bool
  allowHosts :: "string list"

datatype UnsafeUrlRule = ParseRule | SchemeRule | CredentialsRule | HostRule | DnsRule | MetadataRule string | PrivateRule string

record ParsedUrl =
  protocol :: string
  username :: string
  password :: string
  hostname :: string

definition normaliseScheme :: "string \<Rightarrow> string" where
  "normaliseScheme s = (if ends_with s '':'' then toLowerCase s else toLowerCase s @ '':'')"

definition parseUrl :: "(string \<Rightarrow> ParsedUrl option) \<Rightarrow> string \<Rightarrow> UrlPolicy \<Rightarrow> UnsafeUrlRule + ParsedUrl" where
  "parseUrl new_url url pol =
     (case new_url url of
        None \<Rightarrow> Inl ParseRule
      | Some parsed \<Rightarrow>
          if protocol parsed \<notin> set (map normaliseScheme (nullish (schemes pol) [''https:'', ''http:''])) then Inl SchemeRule
          else if rejectCredentials pol \<and> (username parsed \<noteq> [] \<or> password parsed \<noteq> []) then Inl CredentialsRule
          else if hostname parsed = [] then Inl HostRule else Inr parsed)"

definition hostnameOf :: "ParsedUrl \<Rightarrow> string" where
  "hostnameOf url =
     (let host = hostname url in
      if starts_with host ''['' \<and> ends_with host '']'' then butlast (tl host) else host)"

definition isAllowedHost :: "ParsedUrl \<Rightarrow> UrlPolicy \<Rightarrow> bool" where
  "isAllowedHost url pol = list_ex (\<lambda>h. toLowerCase h = toLowerCase (hostnameOf url)) (allowHosts pol)"

definition resolveAddresses :: "(string \<Rightarrow> string list option) \<Rightarrow> ParsedUrl \<Rightarrow> UnsafeUrlRule + string list" where
  "resolveAddresses lookup url =
     (let host = hostnameOf url in
      if isIP host \<noteq> 0 then Inr [host]
      else case lookup host of
        None \<Rightarrow> Inl DnsRule
      | Some resolved \<Rightarrow> if resolved = [] then Inl DnsRule else Inr resolved)"

text \<open>A dotted quad of octets is an IPv4 address and nothing else.\<close>

definition quad_bytes :: "nat list \<Rightarrow> bool" where
  "quad_bytes ns = (length ns = 4 \<and> list_all (\<lambda>n. n < 256) ns)"

lemma dot_not_digit: "\<not> is_digit CHR ''.''"
  by (simp add: is_digit_def)

lemma split_dotted: "ns \<noteq> [] \<Longrightarrow> split_on CHR ''.'' (dotted ns) = map string_of_nat ns"
  unfolding dotted_def using dot_not_digit string_of_nat_digits by (intro split_on_join) auto

lemma string_of_nat_zero: "string_of_nat 0 = ''0''"
  by code_simp

lemma string_of_nat_head: "string_of_nat n \<noteq> [] \<and> (0 < n \<longrightarrow> hd (string_of_nat n) \<noteq> CHR ''0'')"
proof (induction n rule: string_of_nat.induct)
  case (1 n)
  show ?case
  proof (cases "n < 10")
    case True
    then have "string_of_nat n = [digit_char n]" by (simp add: string_of_nat.simps [of n])
    moreover have "digit_char n = CHR ''0'' \<Longrightarrow> n = 0"
      using True of_char_digit_char [of n] by simp
    ultimately show ?thesis by auto
  next
    case False
    then have "string_of_nat n = string_of_nat (n div 10) @ [digit_char (n mod 10)]" by (simp add: string_of_nat.simps [of n])
    then show ?thesis using 1 False by (simp add: hd_append)
  qed
qed

lemma is_octet_string_of_nat: "n < 256 \<Longrightarrow> is_octet (string_of_nat n)"
proof (cases "n = 0")
  case True
  then show ?thesis unfolding string_of_nat_zero True by code_simp
next
  case False
  then show "n < 256 \<Longrightarrow> ?thesis" using string_of_nat_head [of n] by (simp add: is_octet_def)
qed

lemma isIP_dotted:
  assumes "quad_bytes ns"
  shows "isIP (dotted ns) = 4" "parseIpv4 (dotted ns) = Some ns" "parseIpv6 (dotted ns) = None"
proof -
  have "ns \<noteq> []" using assms by (auto simp: quad_bytes_def)
  note split = split_dotted [OF this]
  have "isIPv4 (dotted ns)" using assms is_octet_string_of_nat by (simp add: isIPv4_def split quad_bytes_def list_all_iff)
  then show "isIP (dotted ns) = 4" by (simp add: isIP_def)
  then show "parseIpv4 (dotted ns) = Some ns" "parseIpv6 (dotted ns) = None"
    by (simp_all add: parseIpv4_def parseIpv6_def split comp_def)
qed

lemma parseIpv4_bytes: "parseIpv4 s = Some ns \<Longrightarrow> quad_bytes ns"
  by (auto simp: parseIpv4_def isIP_def isIPv4_def quad_bytes_def is_octet_def Let_def list_all_iff split: if_splits)

lemma and_255_nat: "(n :: nat) AND 255 = n mod 256"
proof -
  have "n AND 255 = take_bit 8 n" by (simp add: take_bit_eq_mask mask_eq_exp_minus_1)
  then show ?thesis by (simp add: take_bit_eq_mod)
qed

lemma parseIpv6_bytes: "parseIpv6 s = Some bytes \<Longrightarrow> length bytes = 16 \<and> list_all (\<lambda>b. b < 256) bytes"
  using parseIpv4_bytes
  by (fastforce simp: and_255_nat parseIpv6_def Let_def list_all_iff word_bytes_def quad_bytes_def nullish_def split: if_splits option.splits)

lemma unwrap_dotted:
  assumes "unwrapMappedIpv4 a = Some m"
  shows "unwrapMappedIpv4 m = None"
proof -
  obtain bytes where bytes: "parseIpv6 a = Some bytes" "m = dotted (drop 12 bytes)"
    using assms by (auto simp: unwrapMappedIpv4_def split: option.splits if_splits)
  then have "quad_bytes (drop 12 bytes)"
    using parseIpv6_bytes [of a bytes] by (auto simp: quad_bytes_def list_all_iff dest: in_set_dropD)
  then show ?thesis by (simp add: unwrapMappedIpv4_def bytes isIP_dotted)
qed

function isPrivateAddress :: "string \<Rightarrow> bool" where
  "isPrivateAddress address =
     (case unwrapMappedIpv4 address of
        Some mapped \<Rightarrow> isPrivateAddress mapped
      | None \<Rightarrow>
          (case parseIpv4 address of
             Some v4 \<Rightarrow> isPrivateIpv4 v4
           | None \<Rightarrow> (case parseIpv6 address of None \<Rightarrow> True | Some v6 \<Rightarrow> isPrivateIpv6 v6)))"
  by pat_completeness auto
termination
  by (relation "measure (\<lambda>a. case unwrapMappedIpv4 a of None \<Rightarrow> 0 | Some _ \<Rightarrow> 1)") (auto dest: unwrap_dotted)

declare isPrivateAddress.simps [simp del]

definition isAllowedAddress :: "string \<Rightarrow> UrlPolicy \<Rightarrow> bool" where
  "isAllowedAddress address pol =
     (if isMetadataAddress address then False else allowPrivate pol \<or> \<not> isPrivateAddress address)"

definition assertAddressAllowed :: "string \<Rightarrow> UrlPolicy \<Rightarrow> UnsafeUrlRule + unit" where
  "assertAddressAllowed address pol =
     (if isMetadataAddress address then Inl (MetadataRule address)
      else if \<not> allowPrivate pol \<and> isPrivateAddress address then Inl (PrivateRule address) else Inr ())"

fun assert_all_allowed :: "string list \<Rightarrow> UrlPolicy \<Rightarrow> UnsafeUrlRule + unit" where
  "assert_all_allowed [] pol = Inr ()"
| "assert_all_allowed (a # as) pol = bindE (assertAddressAllowed a pol) (\<lambda>_. assert_all_allowed as pol)"

definition assertSafeUrl ::
  "(string \<Rightarrow> ParsedUrl option) \<Rightarrow> (string \<Rightarrow> string list option) \<Rightarrow> string \<Rightarrow> UrlPolicy \<Rightarrow> UnsafeUrlRule + ParsedUrl" where
  "assertSafeUrl new_url lookup url pol =
     bindE (parseUrl new_url url pol) (\<lambda>parsed.
       if isAllowedHost parsed pol then Inr parsed
       else bindE (resolveAddresses lookup parsed) (\<lambda>addresses.
         bindE (assert_all_allowed addresses pol) (\<lambda>_. Inr parsed)))"

definition resolveSafeAddresses ::
  "(string \<Rightarrow> ParsedUrl option) \<Rightarrow> (string \<Rightarrow> string list option) \<Rightarrow> string \<Rightarrow> UrlPolicy \<Rightarrow> UnsafeUrlRule + string list" where
  "resolveSafeAddresses new_url lookup url pol =
     bindE (parseUrl new_url url pol) (\<lambda>parsed.
       bindE (resolveAddresses lookup parsed) (\<lambda>addresses.
         if isAllowedHost parsed pol then Inr addresses
         else bindE (assert_all_allowed addresses pol) (\<lambda>_. Inr addresses)))"

section \<open>What passes\<close>

lemma assert_all_allowed_iff:
  "assert_all_allowed as pol = Inr () \<longleftrightarrow> list_all (\<lambda>a. isAllowedAddress a pol) as"
  by (induction as) (auto simp: assertAddressAllowed_def isAllowedAddress_def)


section \<open>Every spelling of an address\<close>

text \<open>
  The texts of an IPv6 address and the bytes they stand for: eight groups, or fewer with one double
  colon for at least one group of zeros, the last two groups possibly as a dotted quad.
\<close>

abbreviation colons :: "string list \<Rightarrow> string" where
  "colons \<equiv> join_with '':''"

definition hex_word :: "string \<Rightarrow> nat \<Rightarrow> bool" where
  "hex_word g w \<longleftrightarrow> is_hextet g \<and> w = foldl (\<lambda>n c. 16 * n + hex_digit c) 0 g"

definition bytes_of :: "nat list \<Rightarrow> nat list" where
  "bytes_of ws = concat (map (\<lambda>w. [w div 256, w mod 256]) ws)"

inductive ipv6_text :: "string \<Rightarrow> nat list \<Rightarrow> bool" where
  full: "list_all2 hex_word gs ws \<Longrightarrow> length ws = 8 \<Longrightarrow> ipv6_text (colons gs) (bytes_of ws)"
| full_quad: "list_all2 hex_word gs ws \<Longrightarrow> length ws = 6 \<Longrightarrow> quad_bytes q \<Longrightarrow>
    ipv6_text (colons gs @ '':'' @ dotted q) (bytes_of ws @ q)"
| short: "list_all2 hex_word gs ws \<Longrightarrow> list_all2 hex_word hs vs \<Longrightarrow> length ws + length vs \<le> 7 \<Longrightarrow>
    ipv6_text (colons gs @ ''::'' @ colons hs) (bytes_of (ws @ replicate (8 - length ws - length vs) 0 @ vs))"
| short_quad: "list_all2 hex_word gs ws \<Longrightarrow> list_all2 hex_word hs vs \<Longrightarrow> length ws + length vs \<le> 5 \<Longrightarrow> quad_bytes q \<Longrightarrow>
    ipv6_text (colons gs @ ''::'' @ (if hs = [] then [] else colons hs @ '':'') @ dotted q)
      (bytes_of (ws @ replicate (6 - length ws - length vs) 0 @ vs) @ q)"

lemma is_hex_less: "is_hex c \<Longrightarrow> hex_digit c < 16"
  by (auto simp: is_hex_def hex_digit_def is_digit_def digit_value_def)

lemma not_hex: "\<not> is_hex CHR '':''" "\<not> is_hex CHR ''.''" "\<not> is_hex CHR ''%''"
  by (simp_all add: is_hex_def is_digit_def)

lemma horner_bound: "list_all is_hex g \<Longrightarrow> foldl (\<lambda>n c. 16 * n + hex_digit c) n g < (n + 1) * 16 ^ length g"
proof (induction g arbitrary: n)
  case (Cons c g)
  then have "foldl (\<lambda>n c. 16 * n + hex_digit c) (16 * n + hex_digit c) g < (16 * n + hex_digit c + 1) * 16 ^ length g" by simp
  also have "\<dots> \<le> (16 * n + 16) * 16 ^ length g" using Cons.prems is_hex_less [of c] by (intro mult_right_mono) auto
  finally show ?case by (simp add: algebra_simps)
qed simp

lemma hex_wordD:
  assumes "hex_word g w"
  shows "g \<noteq> []" "is_hextet g" "CHR '':'' \<notin> set g" "CHR ''.'' \<notin> set g" "CHR ''%'' \<notin> set g" "parseInt16 g = w"
    "word_bytes w = [w div 256, w mod 256]"
proof -
  have g: "g \<noteq> []" "length g \<le> 4" "list_all is_hex g" and w: "w = foldl (\<lambda>n c. 16 * n + hex_digit c) 0 g"
    using assms by (auto simp: hex_word_def is_hextet_def)
  show "g \<noteq> []" "is_hextet g" using g by (simp_all add: is_hextet_def)
  show "CHR '':'' \<notin> set g" "CHR ''.'' \<notin> set g" "CHR ''%'' \<notin> set g" using g(3) not_hex by (auto simp: list_all_iff)
  have "takeWhile is_hex g = g" using g(3) by (simp add: list_all_iff takeWhile_eq_all_conv)
  then show "parseInt16 g = w" by (simp only: parseInt16_def w)
  have "w < 16 ^ length g" using horner_bound [OF g(3), of 0] by (simp add: w)
  also have "\<dots> \<le> 16 ^ 4" using g(2) by (intro power_increasing) auto
  finally have "w div 256 < 256" by simp
  then show "word_bytes w = [w div 256, w mod 256]"
    by (simp add: word_bytes_def drop_bit_nat_def and_255_nat)
qed

lemma hex_words:
  assumes "list_all2 hex_word gs ws"
  shows "list_all is_hextet gs" "map parseInt16 gs = ws" "concat (map word_bytes ws) = bytes_of ws" "[] \<notin> set gs"
    "\<forall>g \<in> set gs. g \<noteq> [] \<and> CHR '':'' \<notin> set g \<and> CHR ''.'' \<notin> set g \<and> CHR ''%'' \<notin> set g"
  using assms by (induction rule: list_all2_induct) (auto simp: hex_wordD bytes_of_def dest: hex_wordD(1))

fun has_double :: "string \<Rightarrow> bool" where
  "has_double (a # b # s) = (a = CHR '':'' \<and> b = CHR '':'' \<or> has_double (b # s))"
| "has_double _ = False"

lemma split_double_none: "\<not> has_double s \<Longrightarrow> split_double s = [s]"
  by (induction s rule: split_double.induct) auto

lemma split_double_at: "\<not> has_double (u @ '':'') \<Longrightarrow> split_double (u @ CHR '':'' # CHR '':'' # v) = u # split_double v"
  by (induction u rule: split_double.induct) auto

lemma has_double_group: "g \<noteq> [] \<Longrightarrow> CHR '':'' \<notin> set g \<Longrightarrow> has_double (g @ s) \<longleftrightarrow> has_double s"
proof (induction g)
  case (Cons c g)
  then show ?case by (cases g; cases s) auto
qed simp

lemma no_double_colons:
  "\<forall>g \<in> set gs. g \<noteq> [] \<and> CHR '':'' \<notin> set g \<Longrightarrow> \<not> has_double (colons gs @ '':'')"
proof (induction "'':''" gs rule: join_with.induct)
  case (2 w)
  then show ?case by (simp add: has_double_group)
next
  case (3 w v ws)
  obtain c r where "colons (v # ws) @ '':'' = c # r" "c \<noteq> CHR '':''"
    using 3(2) by (cases v; cases ws) auto
  then show ?case using 3 by (simp add: has_double_group)
qed simp

lemma set_split_on: "c \<in> set s \<Longrightarrow> c = sep \<or> (\<exists>w \<in> set (split_on sep s). c \<in> set w)"
  by (induction s) (auto split: list.splits)

lemma colon_not_v4: "CHR '':'' \<in> set s \<Longrightarrow> \<not> isIPv4 s"
proof
  assume "CHR '':'' \<in> set s" "isIPv4 s"
  then obtain w where "w \<in> set (split_on CHR ''.'' s)" "CHR '':'' \<in> set w" "is_octet w"
    using set_split_on [of "CHR '':''" s "CHR ''.''"] by (auto simp: isIPv4_def Let_def list_all_iff)
  moreover have "\<not> is_digit CHR '':''" by (simp add: is_digit_def)
  ultimately show False by (auto simp: is_octet_def all_digits_def list_all_iff)
qed

lemma dotted_chars: "c \<in> set (dotted ns) \<Longrightarrow> is_digit c \<or> c = CHR ''.''"
proof -
  have "c \<in> set (join_with ''.'' ws) \<Longrightarrow> (\<exists>w \<in> set ws. c \<in> set w) \<or> c = CHR ''.''" for ws
    by (induction "''.''" ws rule: join_with.induct) auto
  then show "c \<in> set (dotted ns) \<Longrightarrow> ?thesis" using string_of_nat_digits by (fastforce simp: dotted_def)
qed

lemma dotted_facts:
  assumes "quad_bytes q"
  shows "CHR '':'' \<notin> set (dotted q)" "CHR ''%'' \<notin> set (dotted q)" "CHR ''.'' \<in> set (dotted q)" "dotted q \<noteq> []"
    "\<not> is_hextet (dotted q)" "isIPv4 (dotted q)"
proof -
  show "CHR '':'' \<notin> set (dotted q)" "CHR ''%'' \<notin> set (dotted q)"
    using dotted_chars [of "CHR '':''" q] dotted_chars [of "CHR ''%''" q] by (auto simp: is_digit_def)
  obtain a b c d where "q = [a, b, c, d]" using assms by (auto simp: quad_bytes_def numeral_eq_Suc length_Suc_conv)
  then show dot: "CHR ''.'' \<in> set (dotted q)" by (simp add: dotted_def)
  then show "dotted q \<noteq> []" by auto
  show "\<not> is_hextet (dotted q)" using dot not_hex(2) by (auto simp: is_hextet_def list_all_iff)
  show "isIPv4 (dotted q)" using isIP_dotted(1) [OF assms] by (simp add: isIP_def split: if_splits)
qed

lemma colons_snoc: "gs \<noteq> [] \<Longrightarrow> colons (gs @ [w]) = colons gs @ '':'' @ w"
  by (induction "'':''" gs rule: join_with.induct) auto

lemma colons_eq_Nil: "[] \<notin> set gs \<Longrightarrow> colons gs = [] \<longleftrightarrow> gs = []"
  by (cases gs; cases "tl gs") auto

lemma set_colons: "c \<in> set (colons gs) \<Longrightarrow> c = CHR '':'' \<or> (\<exists>g \<in> set gs. c \<in> set g)"
  by (induction "'':''" gs rule: join_with.induct) auto

lemma part_groups_colons:
  assumes "[] \<notin> set gs" "\<forall>g \<in> set gs. CHR '':'' \<notin> set g"
  shows "part_groups (colons gs) = gs"
  using assms colons_eq_Nil [OF assms(1)] by (simp add: part_groups_def split_on_join)

lemma splitHextets_colons:
  assumes "list_all2 hex_word gs ws"
  shows "splitHextets (colons gs) = ws" "splitHextets (if gs = [] then [] else colons gs @ '':'') = ws"
proof -
  note facts = hex_words [OF assms]
  have clean: "filter (\<lambda>w. w \<noteq> []) gs = gs" by (rule filter_True) (use facts(4) in auto)
  show "splitHextets (colons gs) = ws"
  proof (cases "gs = []")
    case False
    then have "split_on CHR '':'' (colons gs) = gs" using facts(5) by (intro split_on_join) auto
    then show ?thesis using False colons_eq_Nil [OF facts(4)] by (simp add: splitHextets_def clean facts(2))
  qed (use facts(2) in \<open>simp add: splitHextets_def\<close>)
  show "splitHextets (if gs = [] then [] else colons gs @ '':'') = ws"
  proof (cases "gs = []")
    case False
    then have "split_on CHR '':'' (colons gs @ '':'') = gs @ [[]]"
      using colons_snoc [OF False, of "[]"] split_on_join [of "gs @ [[]]" "CHR '':''"] facts(5) by auto
    then show ?thesis using False by (simp add: splitHextets_def clean facts(2))
  qed (use facts(2) in \<open>simp add: splitHextets_def\<close>)
qed

lemma last_colon:
  assumes "CHR '':'' \<notin> set w"
  shows "after_last_colon (u @ CHR '':'' # w) = w" "up_to_last_colon (u @ CHR '':'' # w) = u @ '':''"
proof -
  have "takeWhile (\<lambda>c. c \<noteq> CHR '':'') (rev w @ CHR '':'' # rev u) = rev w"
    using assms by (subst takeWhile_append2) auto
  then show "after_last_colon (u @ CHR '':'' # w) = w" by (simp add: after_last_colon_def)
  then show "up_to_last_colon (u @ CHR '':'' # w) = u @ '':''" by (simp add: up_to_last_colon_def)
qed

lemma no_dot_no_quad: "CHR ''.'' \<notin> set s \<Longrightarrow> CHR ''.'' \<notin> set (after_last_colon s)"
  by (auto simp: after_last_colon_def dest: set_takeWhileD)

text \<open>A text without a quad, and one with a quad after its last colon.\<close>

lemma isIP_body:
  assumes "CHR '':'' \<in> set t" "CHR ''%'' \<notin> set t"
  shows "isIP t = (if case split_double t of
         [p] \<Rightarrow> group_count (part_groups p) = Some 8
       | [p, q] \<Rightarrow> list_all is_hextet (part_groups p) \<and>
           (case group_count (part_groups q) of None \<Rightarrow> False | Some n \<Rightarrow> length (part_groups p) + n \<le> 7)
       | _ \<Rightarrow> False then 6 else 0)"
proof -
  have body: "takeWhile (\<lambda>c. c \<noteq> CHR ''%'') t = t" "dropWhile (\<lambda>c. c \<noteq> CHR ''%'') t = []"
    using assms(2) by (auto simp: takeWhile_eq_all_conv dropWhile_eq_Nil_conv)
  show ?thesis unfolding isIP_def isIPv6_def body Let_def using colon_not_v4 [OF assms(1)] by simp
qed

lemma group_count_hex: "list_all is_hextet gs \<Longrightarrow> group_count gs = Some (length gs)"
  by (simp add: group_count_def)

lemma group_count_quad: "list_all is_hextet gs \<Longrightarrow> quad_bytes q \<Longrightarrow> group_count (gs @ [dotted q]) = Some (length gs + 2)"
  by (simp add: group_count_def dotted_facts)

lemma no_double_part:
  assumes "list_all2 hex_word gs ws"
  shows "\<not> has_double (colons gs @ '':'')" "\<not> has_double (colons gs)"
proof -
  show snoc: "\<not> has_double (colons gs @ '':'')" using hex_words(5) [OF assms] by (intro no_double_colons) auto
  have "has_double s \<Longrightarrow> has_double (s @ t)" for s t by (induction s rule: has_double.induct) auto
  then show "\<not> has_double (colons gs)" using snoc by blast
qed

text \<open>The code's reading of a text, when it is known how the text splits.\<close>

lemma parse_plain:
  assumes "isIP t = 6" "CHR ''.'' \<notin> set t" "split_double t = map colons parts" "parts \<in> {[gs], [gs, hs]}"
    "list_all2 hex_word gs ws" "list_all2 hex_word hs vs"
    "parts = [gs] \<Longrightarrow> length ws = 8 \<and> vs = []" "length ws + length vs \<le> 8"
  shows "parseIpv6 t = Some (bytes_of (ws @ replicate (8 - length ws - length vs) 0 @ vs))"
proof -
  have bytes: "concat (map word_bytes (ws @ replicate n 0 @ vs)) = bytes_of (ws @ replicate n 0 @ vs)" for n
    using hex_words(3) [OF assms(5)] hex_words(3) [OF assms(6)]
    by (induction n) (simp_all add: bytes_of_def word_bytes_def)
  have len: "length (bytes_of us) = 2 * length us" for us by (induction us) (simp_all add: bytes_of_def)
  have hex: "splitHextets (colons gs) = ws" "splitHextets (colons hs) = vs" by (rule splitHextets_colons assms)+
  have no_quad: "CHR ''.'' \<notin> set (after_last_colon t)" by (rule no_dot_no_quad [OF assms(2)])
  show ?thesis
  proof (cases "parts = [gs]")
    case True
    then show ?thesis using assms no_quad hex bytes [of 0] len [of ws] by (simp add: parseIpv6_def Let_def nullish_def)
  next
    case False
    then have two: "split_double t = [colons gs, colons hs]" using assms(3,4) by auto
    show ?thesis
      using assms(1,8) no_quad hex bytes [of "8 - length ws - length vs"]
        len [of "ws @ replicate (8 - length ws - length vs) 0 @ vs"]
      by (simp add: parseIpv6_def Let_def two nullish_def)
  qed
qed

lemma parse_quad:
  assumes "isIP (u @ CHR '':'' # dotted q) = 6" "quad_bytes q" "split_double (u @ '':'') = parts" "parts \<in> {[p], [p, r]}"
    "splitHextets p = ws" "splitHextets r = vs" "list_all2 hex_word gs ws" "list_all2 hex_word hs vs"
    "parts = [p] \<Longrightarrow> length ws = 6 \<and> vs = []" "length ws + length vs \<le> 6"
  shows "parseIpv6 (u @ CHR '':'' # dotted q) = Some (bytes_of (ws @ replicate (6 - length ws - length vs) 0 @ vs) @ q)"
proof -
  have bytes: "concat (map word_bytes (ws @ replicate n 0 @ vs)) = bytes_of (ws @ replicate n 0 @ vs)" for n
    using hex_words(3) [OF assms(7)] hex_words(3) [OF assms(8)]
    by (induction n) (simp_all add: bytes_of_def word_bytes_def)
  have len: "length (bytes_of us) = 2 * length us" for us by (induction us) (simp_all add: bytes_of_def)
  have four: "length q = 4" using assms(2) by (simp add: quad_bytes_def)
  note tail = last_colon [OF dotted_facts(1) [OF assms(2)], of u] dotted_facts(3) [OF assms(2)] isIP_dotted(2) [OF assms(2)]
  show ?thesis
  proof (cases "parts = [p]")
    case True
    then show ?thesis
      using assms(1,3,5,9) tail bytes [of 0] len [of ws] four by (simp add: parseIpv6_def Let_def nullish_def)
  next
    case False
    then have "split_double (u @ '':'') = [p, r]" using assms(3,4) by auto
    then show ?thesis
      using assms(1,5,6,10) tail bytes [of "6 - length ws - length vs"] four
        len [of "ws @ replicate (6 - length ws - length vs) 0 @ vs"]
      by (simp add: parseIpv6_def Let_def nullish_def)
  qed
qed

lemma clean_text:
  "list_all2 hex_word gs ws \<Longrightarrow> c \<in> set (colons gs) \<Longrightarrow> c \<noteq> CHR ''.'' \<and> c \<noteq> CHR ''%''"
  using hex_words(5) [of gs ws] set_colons [of c gs] by auto

lemma no_double_clean:
  assumes "\<forall>g \<in> set gs. g \<noteq> [] \<and> CHR '':'' \<notin> set g"
  shows "\<not> has_double (colons gs)"
proof -
  have "has_double s \<Longrightarrow> has_double (s @ t)" for s t by (induction s rule: has_double.induct) auto
  then show ?thesis using no_double_colons [OF assms] by blast
qed

lemma quad_part:
  assumes "list_all2 hex_word gs ws" "quad_bytes q"
  shows "(if gs = [] then [] else colons gs @ '':'') @ dotted q = colons (gs @ [dotted q])"
    "split_double (colons (gs @ [dotted q])) = [colons (gs @ [dotted q])]"
    "part_groups (colons (gs @ [dotted q])) = gs @ [dotted q]" "CHR ''%'' \<notin> set (colons (gs @ [dotted q]))"
proof -
  have clean: "\<forall>g \<in> set (gs @ [dotted q]). g \<noteq> [] \<and> CHR '':'' \<notin> set g \<and> CHR ''%'' \<notin> set g"
    using hex_words(5) [OF assms(1)] dotted_facts [OF assms(2)] by auto
  show "(if gs = [] then [] else colons gs @ '':'') @ dotted q = colons (gs @ [dotted q])" by (simp add: colons_snoc)
  show "split_double (colons (gs @ [dotted q])) = [colons (gs @ [dotted q])]"
    by (intro split_double_none no_double_clean) (use clean in auto)
  show "part_groups (colons (gs @ [dotted q])) = gs @ [dotted q]"
    by (rule part_groups_colons) (use clean in auto)
  show "CHR ''%'' \<notin> set (colons (gs @ [dotted q]))" using clean set_colons [of "CHR ''%''" "gs @ [dotted q]"] by auto
qed

lemma text_is_parsed:
  assumes "ipv6_text t bytes"
  shows "isIP t = 6 \<and> parseIpv6 t = Some bytes"
  using assms
proof cases
  case (full gs ws)
  have many: "2 \<le> length gs" using full(3,4) list_all2_lengthD by fastforce
  then have colon: "CHR '':'' \<in> set t" unfolding full(1) by (cases gs; cases "tl gs") auto
  have chars: "CHR ''.'' \<notin> set t" "CHR ''%'' \<notin> set t" using clean_text [OF full(3)] full(1) by auto
  have split: "split_double t = [colons gs]" unfolding full(1) by (rule split_double_none [OF no_double_part(2) [OF full(3)]])
  have "isIP t = 6"
    using isIP_body [OF colon chars(2)] split hex_words [OF full(3)] full(3,4) list_all2_lengthD [OF full(3)]
    by (simp add: part_groups_colons group_count_hex)
  then show ?thesis
    using parse_plain [OF _ chars(1), of "[gs]" gs "[]" ws "[]"] split full by simp
next
  case (full_quad gs ws q)
  have some: "gs \<noteq> []" using full_quad(3,4) by auto
  note quad = quad_part [OF full_quad(3,5)]
  have whole: "t = colons (gs @ [dotted q])" using quad(1) some full_quad(1) by simp
  have t: "t = colons gs @ CHR '':'' # dotted q" using full_quad(1) by simp
  have "isIP t = 6"
    using isIP_body [of t] quad t hex_words(1) [OF full_quad(3)] full_quad(4,5) list_all2_lengthD [OF full_quad(3)]
    by (simp add: whole group_count_quad)
  moreover have "split_double (colons gs @ '':'') = [colons gs @ '':'']"
    by (rule split_double_none [OF no_double_part(1) [OF full_quad(3)]])
  ultimately show ?thesis
    using parse_quad [of "colons gs" q "[colons gs @ '':'']" "colons gs @ '':''" "[]" ws "[]" gs "[]"] full_quad some t
      splitHextets_colons(2) [OF full_quad(3)] by (simp add: splitHextets_def)
next
  case (short gs ws hs vs)
  have chars: "CHR ''.'' \<notin> set t" "CHR ''%'' \<notin> set t" "CHR '':'' \<in> set t"
    using clean_text [OF short(3)] clean_text [OF short(4)] unfolding short(1) by auto
  have split: "split_double t = [colons gs, colons hs]"
    using split_double_at [OF no_double_part(1) [OF short(3)], of "colons hs"] split_double_none [OF no_double_part(2) [OF short(4)]]
    by (simp add: short(1))
  have "isIP t = 6"
    using isIP_body [OF chars(3,2)] split hex_words [OF short(3)] hex_words [OF short(4)] short(5)
      list_all2_lengthD [OF short(3)] list_all2_lengthD [OF short(4)]
    by (simp add: part_groups_colons group_count_hex)
  then show ?thesis
    using parse_plain [OF _ chars(1), of "[gs, hs]" gs hs ws vs] split short by simp
next
  case (short_quad gs ws hs vs q)
  let ?x = "if hs = [] then [] else colons hs @ '':''"
  note quad = quad_part [OF short_quad(4,6)]
  have t: "t = colons gs @ CHR '':'' # CHR '':'' # colons (hs @ [dotted q])" using short_quad(1) quad(1) by simp
  have chars: "CHR ''%'' \<notin> set t" "CHR '':'' \<in> set t" using clean_text [OF short_quad(3)] quad(4) unfolding t by auto
  have "split_double t = [colons gs, colons (hs @ [dotted q])]"
    using split_double_at [OF no_double_part(1) [OF short_quad(3)]] quad(2) by (simp add: t)
  then have six: "isIP t = 6"
    using isIP_body [OF chars(2,1)] quad(3) hex_words [OF short_quad(3)] hex_words(1) [OF short_quad(4)] short_quad(5,6)
      list_all2_lengthD [OF short_quad(3)] list_all2_lengthD [OF short_quad(4)]
    by (simp add: part_groups_colons group_count_quad)
  have "colons gs @ ''::'' @ ?x = (colons gs @ (if hs = [] then '':'' else ''::'' @ colons hs)) @ '':''" by simp
  then obtain u where u: "colons gs @ ''::'' @ ?x = u @ '':''" by blast
  have "t = (colons gs @ ''::'' @ ?x) @ dotted q" using short_quad(1) by simp
  then have t': "t = u @ CHR '':'' # dotted q" unfolding u by simp
  have "\<not> has_double ?x" using no_double_part(1) [OF short_quad(4)] by simp
  then have "split_double (u @ '':'') = [colons gs, ?x]"
    using split_double_at [OF no_double_part(1) [OF short_quad(3)], of ?x] split_double_none [of ?x] by (simp flip: u)
  then have "parseIpv6 (u @ CHR '':'' # dotted q) = Some (bytes_of (ws @ replicate (6 - length ws - length vs) 0 @ vs) @ q)"
    using parse_quad [of u q "[colons gs, ?x]" "colons gs" ?x ws vs gs hs] six [unfolded t'] short_quad(3-6)
      splitHextets_colons(1) [OF short_quad(3)] splitHextets_colons(2) [OF short_quad(4)] by simp
  then have "parseIpv6 t = Some bytes" unfolding t' short_quad(2) .
  then show ?thesis using six by simp
qed

section \<open>The verdict depends on the address alone\<close>

text \<open>The blocks that are not public, by their first address and prefix length.\<close>

definition quad_value :: "nat list \<Rightarrow> nat" where
  "quad_value q = foldl (\<lambda>n b. 256 * n + b) 0 q"

definition private_blocks :: "(nat list \<times> nat) list" where
  "private_blocks = [([0, 0, 0, 0], 8), ([10, 0, 0, 0], 8), ([127, 0, 0, 0], 8), ([100, 64, 0, 0], 10), ([169, 254, 0, 0], 16),
     ([172, 16, 0, 0], 12), ([192, 0, 0, 0], 24), ([192, 168, 0, 0], 16), ([198, 18, 0, 0], 15), ([224, 0, 0, 0], 3)]"

definition in_block :: "nat list \<Rightarrow> nat list \<times> nat \<Rightarrow> bool" where
  "in_block q blk = (quad_value q div 2 ^ (32 - snd blk) = quad_value (fst blk) div 2 ^ (32 - snd blk))"

definition public_bytes :: "nat list \<Rightarrow> bool" where
  "public_bytes bs =
     (if embedded_ipv4 bs then \<not> list_ex (in_block (drop 12 bs)) private_blocks
      else \<not> (list_all (\<lambda>b. b = 0) (take 15 bs) \<and> bs ! 15 \<le> 1) \<and> bs ! 0 div 2 \<noteq> 0xfc div 2 \<and>
        \<not> (bs ! 0 = 0xfe \<and> bs ! 1 div 64 = 0x80 div 64) \<and> bs ! 0 \<noteq> 0xff)"

definition metadata_bytes :: "nat list \<Rightarrow> bool" where
  "metadata_bytes bs = (if embedded_ipv4 bs then drop 12 bs = [169, 254, 169, 254]
     else bs = [0xfd, 0, 0x0e, 0xc2, 0, 0, 0, 0, 0, 0, 0, 0, 0, 0, 0x02, 0x54])"

text \<open>An IPv4 address is taken as its mapped form.\<close>

definition denotes_address :: "string \<Rightarrow> nat list \<Rightarrow> bool" where
  "denotes_address t bs \<longleftrightarrow> (\<exists>q. quad_bytes q \<and> t = dotted q \<and> bs = replicate 10 0 @ [255, 255] @ q) \<or> ipv6_text t bs"

lemma digits_eq:
  assumes "(y :: nat) < n" "y' < n"
  shows "n * x + y = n * x' + y' \<longleftrightarrow> x = x' \<and> y = y'"
proof -
  have "(n * x + y) div n = x" "(n * x' + y') div n = x'" using assms by simp_all
  then show ?thesis by (metis add_left_cancel)
qed

lemma byte_ranges:
  assumes "(b :: nat) < 256"
  shows "b div 64 = 1 \<longleftrightarrow> 64 \<le> b \<and> b \<le> 127" "b div 16 = 1 \<longleftrightarrow> 16 \<le> b \<and> b \<le> 31"
    "b div 2 = 9 \<longleftrightarrow> b = 18 \<or> b = 19" "b div 32 = 7 \<longleftrightarrow> 224 \<le> b" "b div 64 < 4" "b div 16 < 16" "b div 2 < 128"
  using assms by auto

lemma exponents:
  "(32 :: nat) - 8 = 24" "(32 :: nat) - 10 = 22" "(32 :: nat) - 16 = 16" "(32 :: nat) - 12 = 20" "(32 :: nat) - 24 = 8"
  "(32 :: nat) - 15 = 17" "(32 :: nat) - 3 = 29"
  by simp_all

lemma block_values:
  "quad_value [0, 0, 0, 0] div 2 ^ 24 = 0" "quad_value [10, 0, 0, 0] div 2 ^ 24 = 10" "quad_value [127, 0, 0, 0] div 2 ^ 24 = 127"
  "quad_value [100, 64, 0, 0] div 2 ^ 22 = 401" "quad_value [169, 254, 0, 0] div 2 ^ 16 = 43518"
  "quad_value [172, 16, 0, 0] div 2 ^ 20 = 2753" "quad_value [192, 0, 0, 0] div 2 ^ 8 = 12582912"
  "quad_value [192, 168, 0, 0] div 2 ^ 16 = 49320" "quad_value [198, 18, 0, 0] div 2 ^ 17 = 25353"
  "quad_value [224, 0, 0, 0] div 2 ^ 29 = 7"
  by (simp_all add: quad_value_def)

lemma private_ipv4_blocks:
  assumes "quad_bytes q"
  shows "isPrivateIpv4 q \<longleftrightarrow> list_ex (in_block q) private_blocks"
proof -
  obtain a b c d where q: "q = [a, b, c, d]" and less: "a < 256" "b < 256" "c < 256" "d < 256"
    using assms by (auto simp: quad_bytes_def numeral_eq_Suc length_Suc_conv)
  let ?x = "256 * (256 * (256 * a + b) + c) + d"
  have num: "quad_value q = ?x" by (simp add: q quad_value_def)
  have parts: "?x div 2 ^ 24 = a" "?x div 2 ^ 16 = 256 * a + b" "?x div 2 ^ 8 = 256 * (256 * a + b) + c"
    using less by simp_all
  have "2 ^ 22 = (2 ^ 16 * 64 :: nat)" "2 ^ 20 = (2 ^ 16 * 16 :: nat)" "2 ^ 17 = (2 ^ 16 * 2 :: nat)" "2 ^ 29 = (2 ^ 24 * 32 :: nat)"
    by simp_all
  then have finer: "?x div 2 ^ 22 = (256 * a + b) div 64" "?x div 2 ^ 20 = (256 * a + b) div 16"
    "?x div 2 ^ 17 = (256 * a + b) div 2" "?x div 2 ^ 29 = a div 32"
    unfolding div_mult2_eq using parts by simp_all
  have coarse: "(256 * a + b) div 64 = 4 * a + b div 64" "(256 * a + b) div 16 = 16 * a + b div 16" "(256 * a + b) div 2 = 128 * a + b div 2"
    using div_mult_self2 [of 64 b "4 * a"] div_mult_self2 [of 16 b "16 * a"] div_mult_self2 [of 2 b "128 * a"]
    by (simp_all add: add.commute)
  have blocks: "4 * a + b div 64 = 401 \<longleftrightarrow> a = 100 \<and> 64 \<le> b \<and> b \<le> 127"
    "16 * a + b div 16 = 2753 \<longleftrightarrow> a = 172 \<and> 16 \<le> b \<and> b \<le> 31"
    "128 * a + b div 2 = 25353 \<longleftrightarrow> a = 198 \<and> (b = 18 \<or> b = 19)"
    "256 * a + b = 43518 \<longleftrightarrow> a = 169 \<and> b = 254" "256 * a + b = 49320 \<longleftrightarrow> a = 192 \<and> b = 168"
    "256 * (256 * a + b) + c = 12582912 \<longleftrightarrow> a = 192 \<and> b = 0 \<and> c = 0"
    using digits_eq [of "b div 64" 4 1 a 100] byte_ranges(1,5) [OF less(2)] apply simp
    using digits_eq [of "b div 16" 16 1 a 172] byte_ranges(2,6) [OF less(2)] apply simp
    using digits_eq [of "b div 2" 128 9 a 198] byte_ranges(3,7) [OF less(2)] apply simp
    using digits_eq [of b 256 254 a 169] less(2) apply simp
    using digits_eq [of b 256 168 a 192] less(2) apply simp
    using digits_eq [of c 256 0 "256 * a + b" 49152] digits_eq [of b 256 0 a 192] less(2,3) by simp
  have "list_ex (in_block q) private_blocks \<longleftrightarrow>
      a = 0 \<or> a = 10 \<or> a = 127 \<or> 4 * a + b div 64 = 401 \<or> 256 * a + b = 43518 \<or> 16 * a + b div 16 = 2753 \<or>
      256 * (256 * a + b) + c = 12582912 \<or> 256 * a + b = 49320 \<or> 128 * a + b div 2 = 25353 \<or> a div 32 = 7"
    by (simp only: private_blocks_def list_ex_Nil_iff list_ex_Cons_iff in_block_def prod.sel num exponents parts finer coarse block_values simp_thms)
  then show ?thesis unfolding blocks byte_ranges(4) [OF less(1)] by (simp add: isPrivateIpv4_def Let_def q)
qed

lemma and_low: "(n :: nat) AND 127 = n mod 128" "(n :: nat) AND 3 = n mod 4"
  using take_bit_eq_mask [of 7 n] take_bit_eq_mask [of 2 n] by (simp_all add: mask_eq_exp_minus_1 take_bit_eq_mod)

lemma and_double: "(n :: nat) AND (2 * m) = 2 * (n div 2 AND m)"
  by (subst and_nat_unfold) auto

lemma byte_masks:
  assumes "x < 256"
  shows "(x :: nat) AND 0xfe = 0xfc \<longleftrightarrow> x div 2 = 0xfc div 2" "(x :: nat) AND 0xc0 = 0x80 \<longleftrightarrow> x div 64 = 0x80 div 64"
proof -
  have "x AND 0xfe = 2 * (x div 2)" using and_double [of x 127] and_low(1) [of "x div 2"] assms by simp
  then show "x AND 0xfe = 0xfc \<longleftrightarrow> x div 2 = 0xfc div 2" by simp
  have "x AND 0xc0 = 64 * (x div 64 AND 3)"
    using and_double [of x 96] and_double [of "x div 2" 48] and_double [of "x div 4" 24] and_double [of "x div 8" 12]
      and_double [of "x div 16" 6] and_double [of "x div 32" 3] by (simp add: div_mult2_eq [symmetric])
  then show "x AND 0xc0 = 0x80 \<longleftrightarrow> x div 64 = 0x80 div 64" using and_low(2) [of "x div 64"] assms by simp
qed

lemma dotted_inject: "quad_bytes p \<Longrightarrow> quad_bytes q \<Longrightarrow> dotted p = dotted q \<longleftrightarrow> p = q"
  by (metis isIP_dotted(2) option.inject)

lemma lower_digit: "is_digit c \<Longrightarrow> to_lower c = c"
  by (auto simp: is_digit_def to_lower_def)

lemma lower_marks: "c = CHR ''.'' \<Longrightarrow> to_lower c = c" "c = CHR '':'' \<Longrightarrow> to_lower c = c"
  by (simp_all add: to_lower_def)

lemma lower_dotted: "toLowerCase (dotted q) = dotted q"
proof (rule map_idI)
  fix c
  assume "c \<in> set (dotted q)"
  then show "to_lower c = c" using dotted_chars [of c q] lower_digit lower_marks by blast
qed

lemma lower_hex: "is_hex c \<Longrightarrow> is_hex (to_lower c) \<and> hex_digit (to_lower c) = hex_digit c"
  by (auto simp: is_hex_def hex_digit_def to_lower_def is_digit_def)

lemma lower_word: "hex_word g w \<Longrightarrow> hex_word (toLowerCase g) w"
proof -
  assume g: "hex_word g w"
  have "foldl (\<lambda>n c. 16 * n + hex_digit c) n (toLowerCase g) = foldl (\<lambda>n c. 16 * n + hex_digit c) n g" if "list_all is_hex g" for n g
    using that by (induction g arbitrary: n) (auto simp: lower_hex)
  then show "hex_word (toLowerCase g) w" using g by (auto simp: hex_word_def is_hextet_def list_all_iff lower_hex)
qed

lemma lower_words: "list_all2 hex_word gs ws \<Longrightarrow> list_all2 hex_word (map toLowerCase gs) ws"
  by (simp add: list_all2_map1 lower_word list_all2_mono)

lemma lower_colons: "toLowerCase (colons gs) = colons (map toLowerCase gs)"
  by (induction "'':''" gs rule: join_with.induct) (simp_all add: lower_marks)

lemma lower_text: "ipv6_text t bs \<Longrightarrow> ipv6_text (toLowerCase t) bs"
proof (induction rule: ipv6_text.induct)
  case (full_quad gs ws q)
  then show ?case using ipv6_text.full_quad [OF lower_words] by (simp add: lower_colons lower_dotted lower_marks)
next
  case (short gs ws hs vs)
  then show ?case using ipv6_text.short [OF lower_words lower_words, of gs ws hs vs] by (simp add: lower_colons lower_marks)
next
  case (short_quad gs ws hs vs q)
  then show ?case using ipv6_text.short_quad [OF lower_words lower_words, of gs ws hs vs q]
    by (cases "hs = []") (simp_all add: lower_colons lower_dotted lower_marks)
qed (simp add: lower_colons ipv6_text.full lower_words)

lemma metadata_texts:
  "dotted [169, 254, 169, 254] = metadata_ipv4" "CHR '':'' \<in> set metadata_ipv6"
  by code_simp+

lemma metadata_parsed:
  "quad_bytes [169, 254, 169, 254]" "parseIpv6 metadata_ipv6 = Some [0xfd, 0, 0x0e, 0xc2, 0, 0, 0, 0, 0, 0, 0, 0, 0, 0, 0x02, 0x54]"
proof -
  have "list_all2 hex_word [''fd00'', ''ec2''] [0xfd00, 0xec2]" "list_all2 hex_word [''254''] [0x254]"
    by (simp_all add: hex_word_def is_hextet_def is_hex_def hex_digit_def is_digit_def digit_value_def)
  moreover have zeros: "replicate 5 (0 :: nat) = [0, 0, 0, 0, 0]" by (simp add: numeral_eq_Suc)
  ultimately have "ipv6_text (colons [''fd00'', ''ec2''] @ ''::'' @ colons [''254''])
      (bytes_of ([0xfd00, 0xec2] @ replicate (8 - length [0xfd00 :: nat, 0xec2] - length [0x254 :: nat]) 0 @ [0x254]))"
    by (intro ipv6_text.short) simp_all
  then have "ipv6_text metadata_ipv6 [0xfd, 0, 0x0e, 0xc2, 0, 0, 0, 0, 0, 0, 0, 0, 0, 0, 0x02, 0x54]"
    using zeros by (simp add: metadata_ipv6_def bytes_of_def)
  then show "parseIpv6 metadata_ipv6 = Some [0xfd, 0, 0x0e, 0xc2, 0, 0, 0, 0, 0, 0, 0, 0, 0, 0, 0x02, 0x54]"
    using text_is_parsed by blast
qed (simp add: quad_bytes_def)

lemma text_has_colon: "ipv6_text t bs \<Longrightarrow> CHR '':'' \<in> set t"
proof (induction rule: ipv6_text.induct)
  case (full gs ws)
  then have "2 \<le> length gs" using list_all2_lengthD by fastforce
  then show ?case by (cases gs; cases "tl gs") auto
qed auto

lemma metadata_quad:
  assumes "quad_bytes q" "unwrapMappedIpv4 t = Some (dotted q) \<or> unwrapMappedIpv4 t = None \<and> t = dotted q"
  shows "isMetadataAddress t \<longleftrightarrow> q = [169, 254, 169, 254]"
proof -
  have "nullish (unwrapMappedIpv4 t) (toLowerCase t) = dotted q" using assms(2) by (auto simp: lower_dotted)
  moreover have "dotted q \<noteq> metadata_ipv6" using metadata_texts(2) dotted_facts(1) [OF assms(1)] by metis
  moreover have "dotted q = metadata_ipv4 \<longleftrightarrow> q = [169, 254, 169, 254]"
    using dotted_inject [OF assms(1) metadata_parsed(1)] metadata_texts(1) by metis
  ultimately show ?thesis by (simp add: isMetadataAddress_def isIP_dotted(3) [OF assms(1)])
qed

lemma embedded_mapped: "quad_bytes q \<Longrightarrow> embedded_ipv4 (replicate 10 0 @ [255, 255] @ q) \<and> drop 12 (replicate 10 0 @ [255, 255] @ q) = q"
  by (simp add: embedded_ipv4_def nth_append list_all_iff)

lemma plain_private: "unwrapMappedIpv4 t = None \<Longrightarrow> isPrivateAddress t \<longleftrightarrow>
    (case parseIpv4 t of Some v4 \<Rightarrow> isPrivateIpv4 v4 | None \<Rightarrow> (case parseIpv6 t of None \<Rightarrow> True | Some v6 \<Rightarrow> isPrivateIpv6 v6))"
  by (simp add: isPrivateAddress.simps [of t])

lemma quad_verdict:
  assumes "quad_bytes q"
  shows "isPrivateAddress (dotted q) \<longleftrightarrow> list_ex (in_block q) private_blocks"
  using plain_private [of "dotted q"] isIP_dotted [OF assms] private_ipv4_blocks [OF assms] by (simp add: unwrapMappedIpv4_def)

lemma private_ipv6_bytes:
  assumes "length bs = 16" "list_all (\<lambda>b. b < 256) bs" "\<not> embedded_ipv4 bs"
  shows "isPrivateIpv6 bs \<longleftrightarrow> \<not> public_bytes bs"
proof -
  have "bs ! 0 < 256" "bs ! 1 < 256" using assms(1,2) by (auto simp: list_all_length)
  then show ?thesis
    using assms(3) byte_masks(1) [of "bs ! 0"] byte_masks(2) [of "bs ! 1"]
    by (auto simp: isPrivateIpv6_def public_bytes_def Let_def le_Suc_eq)
qed

lemma metadata_text:
  assumes "ipv6_text t bs" "\<not> embedded_ipv4 bs"
  shows "isMetadataAddress t \<longleftrightarrow> metadata_bytes bs"
proof -
  have none: "unwrapMappedIpv4 t = None" using text_is_parsed [OF assms(1)] assms(2) by (simp add: unwrapMappedIpv4_def)
  note lower = lower_text [OF assms(1)]
  have "toLowerCase t \<noteq> metadata_ipv4"
    using text_has_colon [OF lower] dotted_facts(1) [OF metadata_parsed(1)] metadata_texts(1) by metis
  moreover have "parseIpv6 (toLowerCase t) = Some bs" using text_is_parsed [OF lower] by simp
  ultimately show ?thesis
    using assms(2) metadata_parsed(2) by (auto simp: isMetadataAddress_def none metadata_bytes_def Let_def)
qed


text \<open>The documentation networks and 6to4 forms of private addresses count as public.\<close>

lemma unroutable_but_public:
  "public_bytes (replicate 10 0 @ [255, 255, 192, 0, 2, 1])" "public_bytes (replicate 10 0 @ [255, 255, 203, 0, 113, 1])"
  "public_bytes ([0x20, 0x02, 127, 0, 0, 1] @ replicate 10 0)" "public_bytes ([0x20, 0x01, 0x0d, 0xb8] @ replicate 12 0)"
  by (simp_all add: public_bytes_def embedded_ipv4_def private_blocks_def in_block_def quad_value_def nth_append list_all_iff)

definition open_policy :: "bool \<Rightarrow> UrlPolicy" where
  "open_policy p = \<lparr>schemes = None, allowPrivate = p, rejectCredentials = True, allowHosts = []\<rparr>"


lemma percent_not_v4: "CHR ''%'' \<in> set s \<Longrightarrow> \<not> isIPv4 s"
proof
  assume "CHR ''%'' \<in> set s" "isIPv4 s"
  then obtain w where "w \<in> set (split_on CHR ''.'' s)" "CHR ''%'' \<in> set w" "is_octet w"
    using set_split_on [of "CHR ''%''" s "CHR ''.''"] by (auto simp: isIPv4_def Let_def list_all_iff)
  moreover have "\<not> is_digit CHR ''%''" by (simp add: is_digit_def)
  ultimately show False by (auto simp: is_octet_def all_digits_def list_all_iff)
qed

lemma isIP_zone:
  assumes "isIP b = 6" "CHR ''%'' \<notin> set b" "z \<noteq> []" "list_all is_zone_char z"
  shows "isIP (b @ CHR ''%'' # z) = 6"
proof -
  have body: "takeWhile (\<lambda>c. c \<noteq> CHR ''%'') b = b" "dropWhile (\<lambda>c. c \<noteq> CHR ''%'') b = []"
    "takeWhile (\<lambda>c. c \<noteq> CHR ''%'') (b @ CHR ''%'' # z) = b" "dropWhile (\<lambda>c. c \<noteq> CHR ''%'') (b @ CHR ''%'' # z) = CHR ''%'' # z"
    using assms(2) by (auto simp: takeWhile_eq_all_conv dropWhile_eq_Nil_conv takeWhile_append dropWhile_append)
  have "isIPv6 b" using assms(1) by (simp add: isIP_def split: if_splits)
  then have "isIPv6 (b @ CHR ''%'' # z)" using assms(3,4) unfolding isIPv6_def body Let_def by simp
  moreover have "\<not> isIPv4 (b @ CHR ''%'' # z)" by (rule percent_not_v4) simp
  ultimately show ?thesis by (simp add: isIP_def)
qed

lemma hex_reading: "list_all is_digit w \<Longrightarrow> \<not> is_hex c \<Longrightarrow> parseInt16 (w @ c # s) = foldl (\<lambda>n c. 16 * n + digit_value c) 0 w"
proof -
  assume w: "list_all is_digit w" and c: "\<not> is_hex c"
  then have "takeWhile is_hex (w @ c # s) = w" by (subst takeWhile_append2) (auto simp: list_all_iff is_hex_def)
  moreover have "foldl (\<lambda>n c. 16 * n + hex_digit c) n w = foldl (\<lambda>n c. 16 * n + digit_value c) n w" for n
    using w by (induction w arbitrary: n) (auto simp: hex_digit_def)
  ultimately show ?thesis by (simp add: parseInt16_def)
qed

lemma parse_two:
  assumes "isIP t = 6" "after_last_colon t = w" "parseIpv4 w = None" "split_double t = [p, r]" "splitHextets p = ws"
    "splitHextets r = vs" "length ws + length vs \<le> 8"
  shows "parseIpv6 t = Some (concat (map word_bytes (ws @ replicate (8 - length ws - length vs) 0 @ vs)))"
proof -
  have "length (concat (map word_bytes us)) = 2 * length us" for us by (induction us) (simp_all add: word_bytes_def)
  then show ?thesis using assms by (simp add: parseIpv6_def Let_def nullish_def del: map_append concat_append)
qed

lemma lower_text_marks: "to_lower CHR '':'' = CHR '':''" "to_lower CHR ''f'' = CHR ''f''" "to_lower CHR ''%'' = CHR ''%''" "to_lower CHR ''1'' = CHR ''1''"
  by (simp_all add: to_lower_def)

lemma zone_text:
  assumes "quad_bytes q"
  shows "\<exists>n. parseIpv6 (''::ffff:'' @ dotted q @ ''%1'') = Some (replicate 12 0 @ [255, 255] @ word_bytes n)"
proof -
  let ?t = "''::ffff:'' @ dotted q @ ''%1''"
  let ?w = "dotted q @ ''%1''"
  obtain a b c d where q: "q = [a, b, c, d]" using assms by (auto simp: quad_bytes_def numeral_eq_Suc length_Suc_conv)
  have colon: "CHR '':'' \<notin> set ?w" using dotted_facts(1) [OF assms] by simp
  have "hex_word ''ffff'' 0xffff" by (simp add: hex_word_def is_hextet_def is_hex_def hex_digit_def is_digit_def)
  then have mapped: "ipv6_text (colons [] @ ''::'' @ (if [''ffff''] = [] then [] else colons [''ffff''] @ '':'') @ dotted q)
      (bytes_of ([] @ replicate (6 - length ([] :: nat list) - length [0xffff :: nat]) 0 @ [0xffff]) @ q)"
    by (intro ipv6_text.short_quad assms) simp_all
  have "isIP (''::ffff:'' @ dotted q) = 6" using text_is_parsed [OF mapped] by simp
  then have six: "isIP ?t = 6"
    using isIP_zone [of "''::ffff:'' @ dotted q" "''1''"] dotted_facts(2) [OF assms] by (simp add: is_zone_char_def is_digit_def)
  have last: "after_last_colon ?t = ?w" using last_colon(1) [OF colon, of "''::ffff''"] by simp
  have quad: "parseIpv4 ?w = None" using percent_not_v4 [of ?w] by (simp add: parseIpv4_def isIP_def)
  have "\<not> has_double (''ffff:'' @ ?w)"
    using no_double_clean [of "[''ffff'', ?w]"] colon by simp
  then have split: "split_double ?t = [[], ''ffff:'' @ ?w]"
    using split_double_at [of "[]" "''ffff:'' @ ?w"] split_double_none by simp
  have "split_on CHR '':'' (''ffff:'' @ ?w) = [''ffff'', ?w]" using split_on_join [of "[''ffff'', ?w]" "CHR '':''"] colon by simp
  moreover have "parseInt16 ''ffff'' = 0xffff" using hex_wordD(6) [OF \<open>hex_word ''ffff'' 0xffff\<close>] .
  ultimately have words: "splitHextets (''ffff:'' @ ?w) = [0xffff, parseInt16 ?w]" by (simp add: splitHextets_def)
  have zeros: "replicate 6 (0 :: nat) = [0, 0, 0, 0, 0, 0]" "replicate 12 (0 :: nat) = [0, 0, 0, 0, 0, 0, 0, 0, 0, 0, 0, 0]"
    by (simp_all add: numeral_eq_Suc)
  have bytes: "word_bytes 0 = [0, 0]" "word_bytes 0xffff = [255, 255]" "length (word_bytes n) = 2" for n
    by (simp_all add: word_bytes_def drop_bit_nat_def and_255_nat)
  have "splitHextets [] = []" by (simp add: splitHextets_def)
  from parse_two [OF six last quad split this words] have "parseIpv6 ?t = Some (replicate 12 0 @ [255, 255] @ word_bytes (parseInt16 ?w))"
    by (simp add: bytes zeros)
  then show ?thesis by blast
qed

text \<open>
  A zone index defeats the unwrapping of mapped addresses: with \<open>%1\<close> after it the dotted quad is
  no IPv4 address to \<open>parseIpv4\<close>, its first digits are read as one more group of zeros and digits, and
  every IPv4 address so written, loopback and metadata included, is an allowed address under every
  policy, although it is a valid text of a mapped address.
\<close>

lemma zone_index_bypasses:
  assumes "quad_bytes q"
  shows "isIP (''::ffff:'' @ dotted q @ ''%1'') = 6 \<and> isAllowedAddress (''::ffff:'' @ dotted q @ ''%1'') pol"
proof -
  define t where "t = ''::ffff:'' @ dotted q @ ''%1''"
  obtain n where parse: "parseIpv6 t = Some (replicate 12 0 @ [255, 255] @ word_bytes n)" using zone_text [OF assms] unfolding t_def by blast
  have nth: "(replicate 12 0 @ [255, 255 :: nat] @ word_bytes n) ! i = (if i < 12 then 0 else 255)" if "i < 14" for i
    using that by (auto simp: nth_append nth_Cons')
  have not_embedded: "\<not> embedded_ipv4 (replicate 12 0 @ [255, 255] @ word_bytes n)"
    unfolding embedded_ipv4_def using nth [of 10] nth [of 1] by simp
  have none: "unwrapMappedIpv4 t = None" using parse not_embedded by (simp add: unwrapMappedIpv4_def)
  have lower: "toLowerCase t = t" by (simp add: t_def lower_dotted lower_text_marks)
  have "CHR ''%'' \<notin> set metadata_ipv4 \<and> CHR ''%'' \<notin> set metadata_ipv6" by code_simp
  then have "t \<noteq> metadata_ipv4 \<and> t \<noteq> metadata_ipv6" unfolding t_def by (metis Un_iff list.set_intros(1) set_append)
  moreover have "parseIpv6 metadata_ipv6 \<noteq> parseIpv6 t" unfolding parse metadata_parsed(2) by (simp add: numeral_eq_Suc)
  ultimately have "\<not> isMetadataAddress t" using parse by (simp add: isMetadataAddress_def none lower)
  moreover have "isIP t = 6" using parse by (simp add: parseIpv6_def split: if_splits)
  moreover have "\<not> isPrivateIpv6 (replicate 12 0 @ [255, 255] @ word_bytes n)"
    using nth [of 0] nth [of 1] by (simp add: isPrivateIpv6_def)
  ultimately have "isIP t = 6 \<and> isAllowedAddress t pol"
    using plain_private [OF none] parse by (simp add: isAllowedAddress_def parseIpv4_def)
  then show ?thesis unfolding t_def .
qed


end
