(* ===== verification/ServiceContainer.thy ===== *)
theory ServiceContainer
  imports JsPrelude
begin

text \<open>
  The service container of \<open>framework/core/src/container.ts\<close>: bindings with their lifetimes, resolution
  with its guard against cycles, scopes and extenders.

  A factory or an extender is a program over the container: it returns, throws, or resolves a token and
  goes on with the value or the error it got, so it may catch errors.  It does not register bindings.
\<close>

datatype container_error = BindingNotFound string | CircularDependency "string list" | FactoryThrew string

datatype 'v program = Return 'v | Throw container_error | Make string "container_error + 'v \<Rightarrow> 'v program"

datatype Lifetime = Transient | Singleton | Scoped

record 'v Binding =
  factory :: "'v program"
  lifetime :: Lifetime

record 'v Caches =
  instances :: "string \<rightharpoonup> 'v"
  scope :: "(string \<rightharpoonup> 'v) option"

record 'v Container =
  bindings :: "(string \<times> 'v Binding) list"
  extenders :: "string \<Rightarrow> ('v \<Rightarrow> 'v program) list"
  caches :: "'v Caches"

section \<open>Resolution\<close>

definition cached :: "string \<Rightarrow> 'v Caches \<Rightarrow> 'v option" where
  "cached t s =
     (case instances s t of Some v \<Rightarrow> Some v
      | None \<Rightarrow> (case scope s of None \<Rightarrow> None | Some store \<Rightarrow> store t))"

definition remember :: "Lifetime \<Rightarrow> string \<Rightarrow> 'v \<Rightarrow> 'v Caches \<Rightarrow> 'v Caches" where
  "remember life t v s =
     (case life of
        Transient \<Rightarrow> s
      | Singleton \<Rightarrow> s\<lparr>instances := (instances s)(t \<mapsto> v)\<rparr>
      | Scoped \<Rightarrow> (case scope s of None \<Rightarrow> s | Some store \<Rightarrow> s\<lparr>scope := Some (store(t \<mapsto> v))\<rparr>))"

text \<open>
  \<open>make\<close> with the tokens being resolved, and the two loops under it: a program, and the extenders of a
  value.  Each cycle of the recursion passes the guard, which a bound token does only once.
\<close>

inductive_set continues :: "('v program \<times> 'v program) set" where
  "(k r, Make t k) \<in> continues"

lemma wf_continues: "wf continues"
proof (rule wfUNIVI)
  fix P :: "'v program \<Rightarrow> bool" and p
  assume step: "\<forall>p. (\<forall>q. (q, p) \<in> continues \<longrightarrow> P q) \<longrightarrow> P p"
  show "P p"
    by (induction p) (rule step [rule_format], erule continues.cases, auto)+
qed

definition open_tokens :: "(string \<times> 'v Binding) list \<Rightarrow> string list \<Rightarrow> nat" where
  "open_tokens bs resolving = card (set (keys_of bs) - set resolving)"

lemma open_tokens_less:
  "map_of bs t = Some b \<Longrightarrow> t \<notin> set resolving \<Longrightarrow> open_tokens bs (resolving @ [t]) < open_tokens bs resolving"
  unfolding open_tokens_def by (rule psubset_card_mono) (auto dest!: map_of_SomeD simp: image_iff, force)

function (sequential)
  make_in :: "(string \<times> 'v Binding) list \<Rightarrow> (string \<Rightarrow> ('v \<Rightarrow> 'v program) list) \<Rightarrow> string list \<Rightarrow> string \<Rightarrow>
    'v Caches \<Rightarrow> (container_error + 'v) \<times> 'v Caches"
  and run_in :: "(string \<times> 'v Binding) list \<Rightarrow> (string \<Rightarrow> ('v \<Rightarrow> 'v program) list) \<Rightarrow> string list \<Rightarrow> 'v program \<Rightarrow>
    'v Caches \<Rightarrow> (container_error + 'v) \<times> 'v Caches"
  and extend_in :: "(string \<times> 'v Binding) list \<Rightarrow> (string \<Rightarrow> ('v \<Rightarrow> 'v program) list) \<Rightarrow> string list \<Rightarrow>
    ('v \<Rightarrow> 'v program) list \<Rightarrow> 'v \<Rightarrow> 'v Caches \<Rightarrow> (container_error + 'v) \<times> 'v Caches"
where
  "make_in bs xs resolving t s =
     (case cached t s of
        Some v \<Rightarrow> (Inr v, s)
      | None \<Rightarrow>
          (case map_of bs t of
             None \<Rightarrow> (Inl (BindingNotFound t), s)
           | Some b \<Rightarrow>
               if t \<in> set resolving then (Inl (CircularDependency (resolving @ [t])), s)
               else case run_in bs xs (resolving @ [t]) (factory b) s of
                   (Inl e, s) \<Rightarrow> (Inl e, s)
                 | (Inr v, s) \<Rightarrow>
                     (case extend_in bs xs (resolving @ [t]) (xs t) v s of
                        (Inl e, s) \<Rightarrow> (Inl e, s)
                      | (Inr v, s) \<Rightarrow> (Inr v, remember (lifetime b) t v s))))"
| "run_in bs xs resolving (Return v) s = (Inr v, s)"
| "run_in bs xs resolving (Throw e) s = (Inl e, s)"
| "run_in bs xs resolving (Make t k) s =
     (case make_in bs xs resolving t s of (r, s) \<Rightarrow> run_in bs xs resolving (k r) s)"
| "extend_in bs xs resolving [] v s = (Inr v, s)"
| "extend_in bs xs resolving (x # ys) v s =
     (case run_in bs xs resolving (x v) s of
        (Inl e, s) \<Rightarrow> (Inl e, s)
      | (Inr v, s) \<Rightarrow> extend_in bs xs resolving ys v s)"
  by pat_completeness auto

termination
proof (relation "inv_image (less_than <*lex*> less_than <*lex*> continues)
    (\<lambda>c. case c of
       Inl (bs, xs, resolving, t, s) \<Rightarrow> (open_tokens bs resolving, 0, Throw (BindingNotFound t))
     | Inr (Inl (bs, xs, resolving, p, s)) \<Rightarrow> (open_tokens bs resolving, 1, p)
     | Inr (Inr (bs, xs, resolving, ys, v, s)) \<Rightarrow> (open_tokens bs resolving, 2 + length ys, Throw (BindingNotFound [])))", goal_cases)
  case 1
  show ?case by (intro wf_inv_image wf_lex_prod wf_less_than wf_continues)
qed (auto dest: open_tokens_less intro: continues.intros)

declare make_in.simps [simp del]

definition make_token :: "string \<Rightarrow> 'v Container \<Rightarrow> (container_error + 'v) \<times> 'v Container" where
  "make_token t c = (case make_in (bindings c) (extenders c) [] t (caches c) of (r, s) \<Rightarrow> (r, c\<lparr>caches := s\<rparr>))"

section \<open>Registration\<close>

definition drop_instance :: "string \<Rightarrow> 'v Container \<Rightarrow> 'v Container" where
  "drop_instance t c = c\<lparr>caches := (caches c)\<lparr>instances := (instances (caches c))(t := None)\<rparr>\<rparr>"

definition drop_scoped :: "string \<Rightarrow> 'v Container \<Rightarrow> 'v Container" where
  "drop_scoped t c = c\<lparr>caches := (caches c)\<lparr>scope := map_option (\<lambda>store. store(t := None)) (scope (caches c))\<rparr>\<rparr>"

definition rebind :: "string \<Rightarrow> 'v Binding \<Rightarrow> 'v Container \<Rightarrow> 'v Container" where
  "rebind t b c = drop_instance t (c\<lparr>bindings := map_put t b (bindings c), extenders := (extenders c)(t := [])\<rparr>)"

definition bind_transient :: "string \<Rightarrow> 'v program \<Rightarrow> 'v Container \<Rightarrow> 'v Container" where
  "bind_transient t f = rebind t \<lparr>factory = f, lifetime = Transient\<rparr>"

definition bind_singleton :: "string \<Rightarrow> 'v program \<Rightarrow> 'v Container \<Rightarrow> 'v Container" where
  "bind_singleton t f = rebind t \<lparr>factory = f, lifetime = Singleton\<rparr>"

definition bind_scoped :: "string \<Rightarrow> 'v program \<Rightarrow> 'v Container \<Rightarrow> 'v Container" where
  "bind_scoped t f = rebind t \<lparr>factory = f, lifetime = Scoped\<rparr>"

definition bind_instance :: "string \<Rightarrow> 'v \<Rightarrow> 'v Container \<Rightarrow> 'v Container" where
  "bind_instance t v c =
     c\<lparr>bindings := map_put t \<lparr>factory = Return v, lifetime = Singleton\<rparr> (bindings c), extenders := (extenders c)(t := []),
       caches := (caches c)\<lparr>instances := (instances (caches c))(t \<mapsto> v)\<rparr>\<rparr>"

definition runScoped :: "('v Container \<Rightarrow> 'r \<times> 'v Container) \<Rightarrow> 'v Container \<Rightarrow> 'r \<times> 'v Container" where
  "runScoped fn c =
     (case fn (c\<lparr>caches := (caches c)\<lparr>scope := Some Map.empty\<rparr>\<rparr>) of
        (r, c') \<Rightarrow> (r, c'\<lparr>caches := (caches c')\<lparr>scope := scope (caches c)\<rparr>\<rparr>))"

definition hasScope :: "'v Container \<Rightarrow> bool" where
  "hasScope c = (scope (caches c) \<noteq> None)"

definition has_token :: "string \<Rightarrow> 'v Container \<Rightarrow> bool" where
  "has_token t c = (map_of (bindings c) t \<noteq> None \<or> instances (caches c) t \<noteq> None)"

definition isResolved :: "string \<Rightarrow> 'v Container \<Rightarrow> bool" where
  "isResolved t c = (instances (caches c) t \<noteq> None \<or> (case scope (caches c) of None \<Rightarrow> False | Some store \<Rightarrow> store t \<noteq> None))"

text \<open>An extender of a token that has an instance runs at once; when it throws, it stays registered.\<close>

definition extend_token :: "string \<Rightarrow> ('v \<Rightarrow> 'v program) \<Rightarrow> 'v Container \<Rightarrow> (container_error + unit) \<times> 'v Container" where
  "extend_token t x c =
     (let c = c\<lparr>extenders := (extenders c)(t := extenders c t @ [x])\<rparr> in
      case instances (caches c) t of
        None \<Rightarrow> (Inr (), c)
      | Some v \<Rightarrow>
          (case run_in (bindings c) (extenders c) [] (x v) (caches c) of
             (Inl e, s) \<Rightarrow> (Inl e, c\<lparr>caches := s\<rparr>)
           | (Inr v, s) \<Rightarrow> (Inr (), c\<lparr>caches := s\<lparr>instances := (instances s)(t \<mapsto> v)\<rparr>\<rparr>)))"

definition forget_token :: "string \<Rightarrow> 'v Container \<Rightarrow> 'v Container" where
  "forget_token t c =
     drop_scoped t (drop_instance t (c\<lparr>bindings := map_del t (bindings c), extenders := (extenders c)(t := [])\<rparr>))"

definition forgetInstance :: "string \<Rightarrow> 'v Container \<Rightarrow> 'v Container" where
  "forgetInstance t c = drop_scoped t (drop_instance t c)"

definition flush :: "'v Container \<Rightarrow> 'v Container" where
  "flush c = \<lparr>bindings = [], extenders = (\<lambda>_. []),
     caches = \<lparr>instances = Map.empty, scope = map_option (\<lambda>_. Map.empty) (scope (caches c))\<rparr>\<rparr>"

section \<open>What is cached stays\<close>

text \<open>Resolving keeps every cached value, and leaves the tokens that are being resolved alone.\<close>

definition grows :: "string list \<Rightarrow> 'v Caches \<Rightarrow> 'v Caches \<Rightarrow> bool" where
  "grows resolving s s' \<longleftrightarrow> (\<forall>t v. cached t s = Some v \<longrightarrow> cached t s' = Some v) \<and> (scope s' = None \<longleftrightarrow> scope s = None) \<and>
     (\<forall>t \<in> set resolving. cached t s = None \<longrightarrow> cached t s' = None)"

lemma grows_refl: "grows res s s"
  by (simp add: grows_def)

lemma grows_trans: "grows res s s' \<Longrightarrow> grows res s' s'' \<Longrightarrow> grows res s s''"
  unfolding grows_def by meson

lemma grows_fewer: "grows (res @ [t]) s s' \<Longrightarrow> grows res s s'"
  by (simp add: grows_def)

lemma cached_remember:
  "t' \<noteq> t \<Longrightarrow> cached t' (remember life t v s) = cached t' s"
  "cached t s = None \<Longrightarrow> cached t (remember life t v s) =
    (if life = Singleton \<or> life = Scoped \<and> scope s \<noteq> None then Some v else None)"
  by (auto simp: cached_def remember_def split: Lifetime.splits option.splits)

lemma grows_remember:
  assumes "cached t s = None" "t \<notin> set res"
  shows "grows res s (remember life t v s)"
  unfolding grows_def
proof (intro conjI allI ballI impI)
  show "cached t' (remember life t v s) = Some w" if "cached t' s = Some w" for t' w
    using that assms(1) by (cases "t' = t") (auto simp: cached_remember)
  show "cached t' (remember life t v s) = None" if "t' \<in> set res" "cached t' s = None" for t'
    using that assms(2) by (cases "t' = t") (auto simp: cached_remember)
  show "(scope (remember life t v s) = None) = (scope s = None)"
    by (simp add: remember_def split: Lifetime.splits option.splits)
qed

lemma resolution_grows:
  "make_in bs xs res t s = (r, s') \<Longrightarrow> grows res s s'"
  "run_in bs xs res p s = (r, s') \<Longrightarrow> grows res s s'"
  "extend_in bs xs res ys v s = (r, s') \<Longrightarrow> grows res s s'"
proof (induction bs xs res t s and bs xs res p s and bs xs res ys v s arbitrary: r s' and r s' and r s'
    rule: make_in_run_in_extend_in.induct)
  case (1 bs xs res t s)
  show ?case
  proof (cases "cached t s = None \<and> (\<exists>b. map_of bs t = Some b) \<and> t \<notin> set res")
    case False
    then show ?thesis using "1.prems" by (auto simp: make_in.simps grows_refl split: option.splits if_splits)
  next
    case True
    then obtain b where t: "cached t s = None" "map_of bs t = Some b" "t \<notin> set res" by blast
    obtain r1 s1 where run: "run_in bs xs (res @ [t]) (factory b) s = (r1, s1)" by (cases "run_in bs xs (res @ [t]) (factory b) s")
    have first: "grows (res @ [t]) s s1" using "1.IH"(1) [OF t run] .
    show ?thesis
    proof (cases r1)
      case (Inl e)
      then show ?thesis using "1.prems" t run first by (auto simp: make_in.simps dest: grows_fewer)
    next
      case (Inr v1)
      obtain r2 s2 where extend: "extend_in bs xs (res @ [t]) (xs t) v1 s1 = (r2, s2)" by (cases "extend_in bs xs (res @ [t]) (xs t) v1 s1")
      have both: "grows (res @ [t]) s s2"
        using grows_trans [OF first "1.IH"(2) [OF t run [symmetric] Inr extend]] .
      then have "cached t s2 = None" using t(1) by (simp add: grows_def)
      then show ?thesis
        using "1.prems" t run extend Inr grows_fewer [OF both] grows_trans [OF grows_fewer [OF both] grows_remember]
        by (auto simp: make_in.simps split: sum.splits)
    qed
  qed
next
  case (4 bs xs res t k s)
  obtain r1 s1 where make: "make_in bs xs res t s = (r1, s1)" by (cases "make_in bs xs res t s")
  then have "run_in bs xs res (k r1) s1 = (r, s')" using "4.prems" by simp
  then show ?case using grows_trans "4.IH"(1) [OF make] "4.IH"(2) [OF make [symmetric]] by blast
next
  case (6 bs xs res x ys v s)
  obtain r1 s1 where run: "run_in bs xs res (x v) s = (r1, s1)" by (cases "run_in bs xs res (x v) s")
  note first = "6.IH"(1) [OF run]
  show ?case
  proof (cases r1)
    case (Inr v1)
    then have "extend_in bs xs res ys v1 s1 = (r, s')" using "6.prems" run by simp
    then show ?thesis using grows_trans [OF first "6.IH"(2) [OF run [symmetric] Inr]] by blast
  qed (use "6.prems" run first in auto)
qed (simp_all add: grows_refl)

lemma make_in_cached: "cached t s = Some v \<Longrightarrow> make_in bs xs res t s = (Inr v, s)"
  by (simp add: make_in.simps)

lemma made_is_cached:
  assumes "make_in bs xs [] t s = (Inr v, s')" "map_of bs t = Some b"
    "lifetime b = Singleton \<or> lifetime b = Scoped \<and> scope s \<noteq> None"
  shows "cached t s' = Some v"
proof (cases "cached t s")
  case None
  obtain v1 s1 v2 s2 where steps: "run_in bs xs [t] (factory b) s = (Inr v1, s1)" "extend_in bs xs [t] (xs t) v1 s1 = (Inr v2, s2)"
    "v = v2" "s' = remember (lifetime b) t v2 s2"
    using assms(1,2) None by (auto simp: make_in.simps split: prod.splits sum.splits)
  have "grows [t] s s2" using grows_trans resolution_grows(2) [OF steps(1)] resolution_grows(3) [OF steps(2)] by blast
  then have "cached t s2 = None" "scope s2 = None \<longleftrightarrow> scope s = None" using None by (simp_all add: grows_def)
  then show ?thesis using cached_remember(2) [of t s2 "lifetime b" v2] assms(3) steps(3,4) by auto
next
  case (Some w)
  then show ?thesis using assms(1) make_in_cached [OF Some, of bs xs "[]"] by simp
qed

fun resolve_all :: "string list \<Rightarrow> 'v Container \<Rightarrow> 'v Container" where
  "resolve_all [] c = c"
| "resolve_all (t # ts) c = resolve_all ts (snd (make_token t c))"

lemma resolve_all_cached: "cached t (caches c) = Some v \<Longrightarrow> cached t (caches (resolve_all ts c)) = Some v"
proof (induction ts arbitrary: c)
  case (Cons u ts)
  obtain r s where make: "make_in (bindings c) (extenders c) [] u (caches c) = (r, s)"
    by (cases "make_in (bindings c) (extenders c) [] u (caches c)")
  then have "cached t s = Some v" using resolution_grows(1) [OF make] Cons.prems by (simp add: grows_def)
  then show ?case using Cons.IH by (simp add: make_token_def make)
qed simp

text \<open>
  C29. A singleton is built once, and a scoped binding once per scope: after it has been resolved,
  whatever else is resolved, successfully or not, it resolves to the same value and changes nothing.
  Resolution always returns.
\<close>

theorem resolved_once:
  assumes "make_token t c = (Inr v, c')" "map_of (bindings c) t = Some b"
    "lifetime b = Singleton \<or> lifetime b = Scoped \<and> hasScope c"
  shows "make_token t (resolve_all ts c') = (Inr v, resolve_all ts c')"
proof -
  obtain s where make: "make_in (bindings c) (extenders c) [] t (caches c) = (Inr v, s)" and c': "c' = c\<lparr>caches := s\<rparr>"
    using assms(1) by (auto simp: make_token_def split: prod.splits)
  have "cached t s = Some v" using made_is_cached [OF make assms(2)] assms(3) by (simp add: hasScope_def)
  then have "cached t (caches (resolve_all ts c')) = Some v" by (intro resolve_all_cached) (simp add: c')
  from make_in_cached [OF this] show ?thesis by (simp add: make_token_def)
qed

section \<open>Cycles\<close>

text \<open>A factory that resolves one token first and passes its errors on.\<close>

definition first_needs :: "string \<Rightarrow> 'v program \<Rightarrow> bool" where
  "first_needs t p \<longleftrightarrow> (\<exists>k. p = Make t k \<and> (\<forall>e. k (Inl e) = Throw e))"

fun needs_in_turn :: "(string \<times> 'v Binding) list \<Rightarrow> string list \<Rightarrow> string \<Rightarrow> bool" where
  "needs_in_turn bs [] repeated = True"
| "needs_in_turn bs [t] repeated = (\<exists>b. map_of bs t = Some b \<and> first_needs repeated (factory b))"
| "needs_in_turn bs (t # u # ts) repeated = ((\<exists>b. map_of bs t = Some b \<and> first_needs u (factory b)) \<and> needs_in_turn bs (u # ts) repeated)"

lemma chain_is_circular:
  "needs_in_turn bs chain repeated \<Longrightarrow> chain \<noteq> [] \<Longrightarrow> distinct (res @ chain) \<Longrightarrow> repeated \<in> set (res @ chain) \<Longrightarrow> map_of bs repeated \<noteq> None \<Longrightarrow>
   list_all (\<lambda>t. cached t s = None) (repeated # chain) \<Longrightarrow>
   make_in bs xs res (hd chain) s = (Inl (CircularDependency (res @ chain @ [repeated])), s)"
proof (induction bs chain repeated arbitrary: res rule: needs_in_turn.induct)
  case (2 bs t repeated)
  have "make_in bs xs (res @ [t]) repeated s = (Inl (CircularDependency ((res @ [t]) @ [repeated])), s)"
    using "2.prems" by (auto simp: make_in.simps [of bs xs "res @ [t]" repeated])
  then show ?case using "2.prems" by (auto simp: make_in.simps [of bs xs res t] first_needs_def)
next
  case (3 bs t u ts repeated)
  have "make_in bs xs (res @ [t]) u s = (Inl (CircularDependency ((res @ [t]) @ (u # ts) @ [repeated])), s)"
    using "3.IH" [of "res @ [t]"] "3.prems" by simp
  then show ?case using "3.prems" by (auto simp: make_in.simps [of bs xs res t] first_needs_def)
qed simp

text \<open>
  C30. A cycle is reported and named: when a chain of unresolved tokens each resolve the next first, and
  the last resolves any of them again, resolving the first returns the error that lists the chain up to
  the repeated token, and nothing is cached.
\<close>

theorem cycle_is_named:
  assumes "needs_in_turn (bindings c) (t # ts) repeated" "distinct (t # ts)" "repeated \<in> set (t # ts)"
    "list_all (\<lambda>u. cached u (caches c) = None) (t # ts)"
  shows "make_token t c = (Inl (CircularDependency ((t # ts) @ [repeated])), c)"
proof -
  have bound: "map_of bs u \<noteq> None" if "needs_in_turn bs us b" "u \<in> set us" for bs us b and u
    using that by (induction bs us b rule: needs_in_turn.induct) auto
  have "make_in (bindings c) (extenders c) [] (hd (t # ts)) (caches c) =
      (Inl (CircularDependency ([] @ (t # ts) @ [repeated])), caches c)"
    using assms bound [OF assms(1,3)] by (intro chain_is_circular) (auto simp: list_all_iff)
  then show ?thesis by (simp add: make_token_def)
qed

text \<open>
  Replacing a binding is documented to give a clean slate, but the cache of an open scope is not
  cleared: a token already resolved in the scope keeps resolving to the value of the old factory,
  whatever lifetime the new one has, until the scope ends; outside the scope the new one is used.
\<close>

lemma rebind_keeps_scoped_value:
  assumes "scope (caches c) = Some store" "store t = Some v"
  shows "fst (make_token t (bind_singleton t f c)) = Inr v \<and> fst (make_token t (bind_transient t f c)) = Inr v \<and>
    fst (make_token t (bind_scoped t f c)) = Inr v \<and> fst (make_token t (forgetInstance t (bind_transient t (Return w) c))) = Inr w"
  using assms
  by (simp add: make_token_def make_in.simps cached_def bind_singleton_def bind_transient_def bind_scoped_def rebind_def
      drop_instance_def forgetInstance_def drop_scoped_def remember_def)

section \<open>Witnesses\<close>

definition empty_container :: "nat Container" where
  "empty_container = \<lparr>bindings = [], extenders = (\<lambda>_. []), caches = \<lparr>instances = Map.empty, scope = None\<rparr>\<rparr>"

definition needing :: "string \<Rightarrow> nat program" where
  "needing t = Make t (\<lambda>r. case r of Inl e \<Rightarrow> Throw e | Inr v \<Rightarrow> Return (v + 1))"

lemmas container_simps = make_token_def make_in.simps cached_def bind_singleton_def bind_transient_def bind_scoped_def
  rebind_def drop_instance_def empty_container_def needing_def remember_def hasScope_def

theorem resolved_once_witness:
  "fst (make_token ''a'' (resolve_all [''b'', ''c''] (snd (make_token ''a'' (bind_singleton ''b'' (needing ''a'') (bind_singleton ''a'' (Return 7) empty_container)))))) = Inr 7"
proof -
  define c where "c = bind_singleton ''b'' (needing ''a'') (bind_singleton ''a'' (Return 7) empty_container)"
  have "make_token ''a'' c = (Inr 7, snd (make_token ''a'' c))" by (simp add: c_def container_simps)
  moreover have "map_of (bindings c) ''a'' = Some \<lparr>factory = Return 7, lifetime = Singleton\<rparr>" by (simp add: c_def container_simps)
  ultimately have "make_token ''a'' (resolve_all [''b'', ''c''] (snd (make_token ''a'' c))) =
      (Inr 7, resolve_all [''b'', ''c''] (snd (make_token ''a'' c)))"
    by (rule resolved_once) simp
  then show ?thesis unfolding c_def by simp
qed

theorem cycle_is_named_witness:
  "fst (make_token ''a'' (bind_singleton ''b'' (needing ''a'') (bind_transient ''a'' (needing ''b'') empty_container))) =
    Inl (CircularDependency [''a'', ''b'', ''a''])"
proof -
  let ?c = "bind_singleton ''b'' (needing ''a'') (bind_transient ''a'' (needing ''b'') empty_container)"
  have "make_token ''a'' ?c = (Inl (CircularDependency ([''a'', ''b''] @ [''a''])), ?c)"
    by (rule cycle_is_named) (simp_all add: container_simps first_needs_def)
  then show ?thesis by simp
qed


end
