(* ===== verification/Gate.thy ===== *)
theory Gate
  imports JsPrelude
begin

text \<open>
  The gate of \<open>framework/authorization/src/gate.ts\<close>, the responses of \<open>response.ts\<close> and the wrappers of
  \<open>guards.ts\<close>.

  Hooks, abilities, policy methods and policy constructors are the application's: functions that may
  read and change its state, a world of any type, and may throw.  They do not change the gate.  Model
  and policy classes are compared by identity and stand for names.
\<close>

section \<open>Responses\<close>

record AuthorizationResponse =
  allowed :: bool
  message :: "string option"
  status :: "int option"

definition allow_response :: "string option \<Rightarrow> AuthorizationResponse" where
  "allow_response msg = \<lparr>allowed = True, message = msg, status = None\<rparr>"

definition deny_response :: "string option \<Rightarrow> int option \<Rightarrow> AuthorizationResponse" where
  "deny_response msg st = \<lparr>allowed = False, message = msg, status = st\<rparr>"

definition denyAsNotFound :: "string option \<Rightarrow> AuthorizationResponse" where
  "denyAsNotFound msg = \<lparr>allowed = False, message = Some (nullish msg ''Not Found''), status = Some 404\<rparr>"

text \<open>What a callback may return at run time: a boolean, a response, or anything else that is not nullish.\<close>

datatype PolicyResult = Plain bool | Rich AuthorizationResponse | Stray

fun normalize :: "PolicyResult \<Rightarrow> AuthorizationResponse" where
  "normalize (Rich r) = r"
| "normalize (Plain True) = allow_response None"
| "normalize (Plain False) = deny_response None None"
| "normalize Stray = deny_response None None"

datatype gate_error = HttpError int string | Thrown string

definition throwIfDenied :: "AuthorizationResponse \<Rightarrow> gate_error + unit" where
  "throwIfDenied r =
     (if allowed r then Inr ()
      else if status r = Some 404 then Inl (HttpError 404 (nullish (message r) ''Not Found''))
      else case status r of
          Some st \<Rightarrow> if st \<noteq> 403 then Inl (HttpError st (nullish (message r) ''Forbidden''))
                      else Inl (HttpError 403 (nullish (message r) ''Forbidden''))
        | None \<Rightarrow> Inl (HttpError 403 (nullish (message r) ''Forbidden'')))"

section \<open>The registry\<close>

datatype 'v argument = ModelClass string | Value 'v

text \<open>A callback that gives nothing returns \<open>null\<close> or \<open>undefined\<close>, here None.\<close>

type_synonym ('v, 'w) Ability = "'v option \<Rightarrow> 'v argument list \<Rightarrow> 'w \<Rightarrow> (gate_error + PolicyResult option) \<times> 'w"
type_synonym ('v, 'w) BeforeCallback = "'v option \<Rightarrow> string \<Rightarrow> 'v argument list \<Rightarrow> 'w \<Rightarrow> (gate_error + PolicyResult option) \<times> 'w"
type_synonym ('v, 'w) AfterCallback = "'v option \<Rightarrow> string \<Rightarrow> bool \<Rightarrow> 'v argument list \<Rightarrow> 'w \<Rightarrow> (gate_error + PolicyResult option) \<times> 'w"

text \<open>A policy object: the own properties of each object of its prototype chain, nearest first, without
  \<open>Object.prototype\<close>.  The methods found there are all a call can reach.\<close>

datatype ('v, 'w) property_value = Method "('v, 'w) Ability" | NotFunction

type_synonym ('v, 'w) policy_object = "(string \<times> ('v, 'w) property_value) list list"

record ('v, 'w) GateRegistry =
  abilities :: "string \<rightharpoonup> ('v, 'w) Ability"
  policies :: "string \<rightharpoonup> string"
  policyInstances :: "string \<rightharpoonup> ('v, 'w) policy_object"
  beforeCallbacks :: "('v, 'w) BeforeCallback list"
  afterCallbacks :: "('v, 'w) AfterCallback list"

type_synonym ('v, 'w) construct = "string \<Rightarrow> 'w \<Rightarrow> (gate_error + ('v, 'w) policy_object) \<times> 'w"

definition new_gate :: "('v, 'w) GateRegistry" where
  "new_gate = \<lparr>abilities = Map.empty, policies = Map.empty, policyInstances = Map.empty, beforeCallbacks = [], afterCallbacks = []\<rparr>"

definition define_ability :: "string \<Rightarrow> ('v, 'w) Ability \<Rightarrow> ('v, 'w) GateRegistry \<Rightarrow> ('v, 'w) GateRegistry" where
  "define_ability a f g = g\<lparr>abilities := (abilities g)(a \<mapsto> f)\<rparr>"

definition register_policy :: "string \<Rightarrow> string \<Rightarrow> ('v, 'w) GateRegistry \<Rightarrow> ('v, 'w) GateRegistry" where
  "register_policy model cls g = g\<lparr>policies := (policies g)(model \<mapsto> cls)\<rparr>"

definition before_hook :: "('v, 'w) BeforeCallback \<Rightarrow> ('v, 'w) GateRegistry \<Rightarrow> ('v, 'w) GateRegistry" where
  "before_hook f g = g\<lparr>beforeCallbacks := beforeCallbacks g @ [f]\<rparr>"

definition after_hook :: "('v, 'w) AfterCallback \<Rightarrow> ('v, 'w) GateRegistry \<Rightarrow> ('v, 'w) GateRegistry" where
  "after_hook f g = g\<lparr>afterCallbacks := afterCallbacks g @ [f]\<rparr>"

definition has_ability :: "string \<Rightarrow> ('v, 'w) GateRegistry \<Rightarrow> bool" where
  "has_ability a g = (abilities g a \<noteq> None)"

definition hasPolicy :: "string \<Rightarrow> ('v, 'w) GateRegistry \<Rightarrow> bool" where
  "hasPolicy model g = (policies g model \<noteq> None)"

section \<open>Resolution\<close>

definition reserved_ability_names :: "string list" where
  "reserved_ability_names = [''constructor'', ''__proto__'', ''prototype'', ''toString'', ''valueOf'', ''hasOwnProperty'',
     ''isPrototypeOf'', ''propertyIsEnumerable'', ''toLocaleString'']"

fun lookup_chain :: "('v, 'w) policy_object \<Rightarrow> string \<Rightarrow> ('v, 'w) Ability option" where
  "lookup_chain [] a = None"
| "lookup_chain (target # chain) a =
     (case map_of target a of
        Some (Method f) \<Rightarrow> Some f
      | Some NotFunction \<Rightarrow> None
      | None \<Rightarrow> lookup_chain chain a)"

definition policyMethod :: "('v, 'w) policy_object \<Rightarrow> string \<Rightarrow> ('v, 'w) Ability option" where
  "policyMethod p a = (if a \<in> set reserved_ability_names then None else lookup_chain p a)"

definition policyFor ::
  "('v, 'w) construct \<Rightarrow> string \<Rightarrow> ('v, 'w) GateRegistry \<Rightarrow> 'w \<Rightarrow> (gate_error + ('v, 'w) policy_object) \<times> ('v, 'w) GateRegistry \<times> 'w" where
  "policyFor construct cls g w =
     (case policyInstances g cls of
        Some p \<Rightarrow> (Inr p, g, w)
      | None \<Rightarrow>
          (case construct cls w of
             (Inl e, w) \<Rightarrow> (Inl e, g, w)
           | (Inr p, w) \<Rightarrow> (Inr p, g\<lparr>policyInstances := (policyInstances g)(cls \<mapsto> p)\<rparr>, w)))"

text \<open>What a policy method or an ability gives is normalized even when it is nullish: it denies.\<close>

fun resolved :: "PolicyResult option \<Rightarrow> AuthorizationResponse" where
  "resolved None = deny_response None None"
| "resolved (Some r) = normalize r"

definition call_ability :: "('v, 'w) Ability option \<Rightarrow> 'v option \<Rightarrow> 'v argument list \<Rightarrow> 'w \<Rightarrow> (gate_error + PolicyResult option) \<times> 'w" where
  "call_ability f u as w = (case f of None \<Rightarrow> (Inr (Some (Plain False)), w) | Some f \<Rightarrow> f u as w)"

definition policy_of :: "('v, 'w) GateRegistry \<Rightarrow> 'v argument list \<Rightarrow> string option" where
  "policy_of g as = (case as of ModelClass m # _ \<Rightarrow> policies g m | _ \<Rightarrow> None)"

definition resolve ::
  "('v, 'w) construct \<Rightarrow> 'v option \<Rightarrow> string \<Rightarrow> 'v argument list \<Rightarrow> ('v, 'w) GateRegistry \<Rightarrow> 'w \<Rightarrow>
    (gate_error + PolicyResult option) \<times> ('v, 'w) GateRegistry \<times> 'w" where
  "resolve construct u a as g w =
     (case policy_of g as of
        Some cls \<Rightarrow>
          (case policyFor construct cls g w of
             (Inl e, g, w) \<Rightarrow> (Inl e, g, w)
           | (Inr p, g, w) \<Rightarrow> (case call_ability (policyMethod p a) u (tl as) w of (r, w) \<Rightarrow> (r, g, w)))
      | None \<Rightarrow> (case call_ability (abilities g a) u as w of (r, w) \<Rightarrow> (r, g, w)))"

fun run_before ::
  "('v, 'w) BeforeCallback list \<Rightarrow> 'v option \<Rightarrow> string \<Rightarrow> 'v argument list \<Rightarrow> 'w \<Rightarrow> (gate_error + AuthorizationResponse option) \<times> 'w" where
  "run_before [] u a as w = (Inr None, w)"
| "run_before (f # fs) u a as w =
     (case f u a as w of
        (Inl e, w) \<Rightarrow> (Inl e, w)
      | (Inr (Some r), w) \<Rightarrow> (Inr (Some (normalize r)), w)
      | (Inr None, w) \<Rightarrow> run_before fs u a as w)"

fun run_after ::
  "('v, 'w) AfterCallback list \<Rightarrow> 'v option \<Rightarrow> string \<Rightarrow> 'v argument list \<Rightarrow> AuthorizationResponse \<Rightarrow> 'w \<Rightarrow>
    (gate_error + AuthorizationResponse) \<times> 'w" where
  "run_after [] u a as response w = (Inr response, w)"
| "run_after (f # fs) u a as response w =
     (case f u a (allowed response) as w of
        (Inl e, w) \<Rightarrow> (Inl e, w)
      | (Inr (Some r), w) \<Rightarrow> run_after fs u a as (normalize r) w
      | (Inr None, w) \<Rightarrow> run_after fs u a as response w)"

definition inspect ::
  "('v, 'w) construct \<Rightarrow> 'v option \<Rightarrow> string \<Rightarrow> 'v argument list \<Rightarrow> ('v, 'w) GateRegistry \<Rightarrow> 'w \<Rightarrow>
    (gate_error + AuthorizationResponse) \<times> ('v, 'w) GateRegistry \<times> 'w" where
  "inspect construct u a as g w =
     (case run_before (beforeCallbacks g) u a as w of
        (Inl e, w) \<Rightarrow> (Inl e, g, w)
      | (Inr (Some response), w) \<Rightarrow> (Inr response, g, w)
      | (Inr None, w) \<Rightarrow>
          (case resolve construct u a as g w of
             (Inl e, g, w) \<Rightarrow> (Inl e, g, w)
           | (Inr r, g, w) \<Rightarrow> (case run_after (afterCallbacks g) u a as (resolved r) w of (r, w) \<Rightarrow> (r, g, w))))"

section \<open>Entry points\<close>

definition check_ability ::
  "('v, 'w) construct \<Rightarrow> 'v option \<Rightarrow> string \<Rightarrow> 'v argument list \<Rightarrow> ('v, 'w) GateRegistry \<Rightarrow> 'w \<Rightarrow>
    (gate_error + bool) \<times> ('v, 'w) GateRegistry \<times> 'w" where
  "check_ability construct u a as g w =
     (case inspect construct u a as g w of (r, g, w) \<Rightarrow> (bindE r (\<lambda>r. Inr (allowed r)), g, w))"

text \<open>
  The current user: None when no authentication is bound, otherwise what its \<open>userOrNull\<close> gives, which
  may throw.  The operations of \<open>UserGate\<close> take the user it was made with.
\<close>

definition currentUser :: "(gate_error + 'v option) option \<Rightarrow> gate_error + 'v option" where
  "currentUser auth = (case auth of None \<Rightarrow> Inr None | Some r \<Rightarrow> r)"

definition user_allows where
  "user_allows construct u a as g w = check_ability construct u a as g w"

definition user_denies where
  "user_denies construct u a as g w =
     (case user_allows construct u a as g w of (r, g, w) \<Rightarrow> (bindE r (\<lambda>b. Inr (\<not> b)), g, w))"

definition user_authorize where
  "user_authorize construct u a as g w =
     (case inspect construct u a as g w of (r, g, w) \<Rightarrow> (bindE r throwIfDenied, g, w))"

definition allows where
  "allows construct auth a as g w =
     (case currentUser auth of Inl e \<Rightarrow> (Inl e, g, w) | Inr u \<Rightarrow> check_ability construct u a as g w)"

definition denies where
  "denies construct auth a as g w =
     (case allows construct auth a as g w of (r, g, w) \<Rightarrow> (bindE r (\<lambda>b. Inr (\<not> b)), g, w))"

definition authorize where
  "authorize construct auth a as g w =
     (case currentUser auth of
        Inl e \<Rightarrow> (Inl e, g, w)
      | Inr u \<Rightarrow> (case inspect construct u a as g w of (r, g, w) \<Rightarrow> (bindE r throwIfDenied, g, w)))"

text \<open>
  The checks of \<open>abilitiesFor\<close> start together; here they run one after the other, which is what the code
  does when no callback waits, and the first error ends them.  The record has the last value of a name.
\<close>

fun check_each where
  "check_each construct u [] as g w = (Inr [], g, w)"
| "check_each construct u (a # names) as g w =
     (case check_ability construct u a as g w of
        (Inl e, g, w) \<Rightarrow> (Inl e, g, w)
      | (Inr b, g, w) \<Rightarrow>
          (case check_each construct u names as g w of
             (Inl e, g, w) \<Rightarrow> (Inl e, g, w)
           | (Inr entries, g, w) \<Rightarrow> (Inr ((a, b) # entries), g, w)))"

definition abilitiesFor where
  "abilitiesFor construct auth names model row g w =
     (case currentUser auth of
        Inl e \<Rightarrow> (Inl e, g, w)
      | Inr u \<Rightarrow>
          (case check_each construct u names (ModelClass model # (case row of None \<Rightarrow> [] | Some v \<Rightarrow> [Value v])) g w of
             (r, g, w) \<Rightarrow> (bindE r (\<lambda>entries. Inr (foldl (\<lambda>m (a, b). m(a \<mapsto> b)) Map.empty entries)), g, w)))"

text \<open>The wrappers of policy methods.\<close>

definition requireAuth :: "('v \<Rightarrow> 'v argument list \<Rightarrow> 'w \<Rightarrow> (gate_error + PolicyResult option) \<times> 'w) \<Rightarrow> ('v, 'w) Ability" where
  "requireAuth f u as w = (case u of None \<Rightarrow> (Inr (Some (Plain False)), w) | Some u \<Rightarrow> f u as w)"

definition requireGuest :: "('v argument list \<Rightarrow> 'w \<Rightarrow> (gate_error + PolicyResult option) \<times> 'w) \<Rightarrow> ('v, 'w) Ability" where
  "requireGuest f u as w = (case u of None \<Rightarrow> f as w | Some _ \<Rightarrow> (Inr (Some (Plain False)), w))"

section \<open>What a grant rests on\<close>

definition grants :: "(gate_error + PolicyResult option) \<times> 'w \<Rightarrow> bool" where
  "grants res \<longleftrightarrow> (\<exists>x. fst res = Inr (Some x) \<and> (x = Plain True \<or> (\<exists>r. x = Rich r \<and> allowed r)))"

lemma normalize_allowed: "allowed (normalize x) \<longleftrightarrow> x = Plain True \<or> (\<exists>r. x = Rich r \<and> allowed r)"
  by (cases x rule: normalize.cases) (simp_all add: allow_response_def deny_response_def)

lemma grantsI: "f = (Inr (Some x), w) \<Longrightarrow> allowed (normalize x) \<Longrightarrow> grants f"
  by (simp add: grants_def normalize_allowed)

lemma before_grant:
  "run_before fs u a as w = (Inr (Some r), w') \<Longrightarrow> allowed r \<Longrightarrow> \<exists>f \<in> set fs. \<exists>v. grants (f u a as v)"
  by (induction fs u a as w rule: run_before.induct) (auto split: prod.splits sum.splits option.splits dest: grantsI)

lemma after_grant:
  "run_after fs u a as response w = (Inr r, w') \<Longrightarrow> allowed r \<Longrightarrow> allowed response \<or> (\<exists>f \<in> set fs. \<exists>b v. grants (f u a b as v))"
  by (induction fs u a as response w rule: run_after.induct) (fastforce split: prod.splits sum.splits option.splits dest: grantsI)+

lemma call_grant:
  "call_ability f u as w = (Inr x, w') \<Longrightarrow> allowed (resolved x) \<Longrightarrow> \<exists>f' v. f = Some f' \<and> grants (f' u as v)"
  by (cases x) (auto simp: call_ability_def deny_response_def split: option.splits dest: grantsI)

lemma policyFor_gives:
  "policyFor construct cls g w = (Inr p, g', w') \<Longrightarrow> policyInstances g cls = Some p \<or> (\<exists>v. fst (construct cls v) = Inr p)"
  by (auto simp: policyFor_def split: option.splits prod.splits sum.splits) (metis fst_conv)

definition resolves_to :: "('v, 'w) construct \<Rightarrow> ('v, 'w) GateRegistry \<Rightarrow> string \<Rightarrow> ('v, 'w) policy_object \<Rightarrow> bool" where
  "resolves_to construct g cls p \<longleftrightarrow> policyInstances g cls = Some p \<or> (\<exists>v. fst (construct cls v) = Inr p)"

lemma resolve_grant:
  assumes "resolve construct u a as g w = (Inr x, g', w')" "allowed (resolved x)"
  shows "case policy_of g as of
      Some cls \<Rightarrow> \<exists>p f v. resolves_to construct g cls p \<and> policyMethod p a = Some f \<and> grants (f u (tl as) v)
    | None \<Rightarrow> \<exists>f v. abilities g a = Some f \<and> grants (f u as v)"
proof (cases "policy_of g as")
  case None
  then show ?thesis using assms by (auto simp: resolve_def split: prod.splits dest!: call_grant)
next
  case (Some cls)
  obtain p g1 w1 where p: "policyFor construct cls g w = (Inr p, g1, w1)" and "call_ability (policyMethod p a) u (tl as) w1 = (Inr x, w')"
    using assms(1) Some by (auto simp: resolve_def split: prod.splits sum.splits)
  from call_grant [OF this(2) assms(2)] policyFor_gives [OF p] show ?thesis
    using Some by (auto simp: resolves_to_def)
qed

lemma resolve_hooks:
  "resolve construct u a as g w = (r, g', w') \<Longrightarrow> afterCallbacks g' = afterCallbacks g"
  by (auto simp: resolve_def policyFor_def split: prod.splits sum.splits option.splits)


section \<open>Order and denial\<close>

lemma run_before_silent:
  "list_all (\<lambda>f. \<forall>v. f u a as v = (Inr None, v)) fs \<Longrightarrow> run_before (fs @ gs) u a as w = run_before gs u a as w"
  by (induction fs) auto

lemma first_decision_wins:
  "beforeCallbacks g = fs @ f # gs \<Longrightarrow> list_all (\<lambda>f. \<forall>v. f u a as v = (Inr None, v)) fs \<Longrightarrow> f u a as w = (Inr (Some r), w') \<Longrightarrow>
   inspect construct u a as g w = (Inr (normalize r), g, w')"
  by (simp add: inspect_def run_before_silent)

lemma unknown_ability_denied:
  assumes "beforeCallbacks g = []" "afterCallbacks g = []"
    "case policy_of g as of Some cls \<Rightarrow> \<exists>p. policyInstances g cls = Some p \<and> policyMethod p a = None | None \<Rightarrow> abilities g a = None"
  shows "user_authorize construct u a as g w = (Inl (HttpError 403 ''Forbidden''), g, w)"
  using assms by (auto simp: user_authorize_def inspect_def resolve_def policyFor_def call_ability_def deny_response_def throwIfDenied_def
      split: option.splits)

lemma run_after_append:
  "run_after (fs @ gs) u a as response w =
     (case run_after fs u a as response w of (Inl e, w) \<Rightarrow> (Inl e, w) | (Inr r, w) \<Rightarrow> run_after gs u a as r w)"
  by (induction fs u a as response w rule: run_after.induct) (auto split: prod.splits sum.splits option.splits)

lemma resolve_after_hook:
  "resolve construct u a as (after_hook f g) w =
     (case resolve construct u a as g w of (r, g', w') \<Rightarrow> (r, after_hook f g', w'))"
  by (auto simp: resolve_def policyFor_def policy_of_def after_hook_def split: option.splits prod.splits sum.splits list.splits argument.splits)

text \<open>An after hook that repeats the result it is given.\<close>

definition echo_hook :: "('v, 'w) AfterCallback" where
  "echo_hook u a b as w = (Inr (Some (Plain b)), w)"

text \<open>
  An after hook that returns the result it was given, changing no decision, still replaces the
  response: every denial that reaches it becomes a plain 403, so a \<open>denyAsNotFound\<close> that hid a row's
  existence behind a 404 no longer does, and custom messages and statuses are lost.
\<close>

lemma echoing_hook_drops_response:
  assumes "run_before (beforeCallbacks g) u a as w = (Inr None, w1)" "inspect construct u a as g w = (Inr r, g', w')"
  shows "user_authorize construct u a as (after_hook echo_hook g) w =
    (if allowed r then Inr () else Inl (HttpError 403 ''Forbidden''), after_hook echo_hook g', w')"
proof -
  obtain x g1 v1 where x: "resolve construct u a as g w1 = (Inr x, g1, v1)"
      and after: "run_after (afterCallbacks g1) u a as (resolved x) v1 = (Inr r, w')" and g': "g' = g1"
    using assms by (auto simp: inspect_def split: prod.splits sum.splits)
  have "inspect construct u a as (after_hook echo_hook g) w = (Inr (normalize (Plain (allowed r))), after_hook echo_hook g', w')"
  proof -
    have "resolve construct u a as (after_hook echo_hook g) w1 = (Inr x, after_hook echo_hook g1, v1)"
      using x by (simp add: resolve_after_hook)
    moreover have "run_before (beforeCallbacks (after_hook echo_hook g)) u a as w = (Inr None, w1)"
      using assms(1) by (simp add: after_hook_def)
    moreover have "run_after (afterCallbacks (after_hook echo_hook g1)) u a as (resolved x) v1 = (Inr (normalize (Plain (allowed r))), w')"
      using after by (simp add: after_hook_def run_after_append echo_hook_def)
    ultimately show ?thesis by (simp add: inspect_def g')
  qed
  then show ?thesis
    by (cases "allowed r") (simp_all add: user_authorize_def throwIfDenied_def allow_response_def deny_response_def)
qed

section \<open>Witnesses\<close>

text \<open>A policy of posts: authors may update, anyone else is told the post does not exist.\<close>

definition posts_policy :: "(nat, nat) policy_object" where
  "posts_policy = [[(''update'', Method (\<lambda>u as w. (Inr (Some (if u = Some 1 then Plain True else Rich (denyAsNotFound None))), w)))]]"

definition posts_gate :: "(nat, nat) GateRegistry" where
  "posts_gate = register_policy ''Post'' ''PostPolicy'' new_gate"

definition build_posts :: "(nat, nat) construct" where
  "build_posts cls w = (Inr posts_policy, w + 1)"

lemmas posts_simps = check_ability_def inspect_def resolve_def policyFor_def call_ability_def policy_of_def posts_gate_def
  register_policy_def new_gate_def build_posts_def posts_policy_def policyMethod_def reserved_ability_names_def denyAsNotFound_def
  allow_response_def deny_response_def



end
