(* ===== verification/JobMiddleware.thy ===== *)
theory JobMiddleware
  imports QueueWorker RateLimiting
begin

text \<open>
  The pipeline of \<open>framework/pipeline/src/pipeline.ts\<close> and the job middleware of
  \<open>framework/queue/src/middleware\<close>: the overlap lock over the cache lock, the two limiters over the rate
  limiter, and the run of a job through its middleware.

  A stage starts at a time on the cache's store and gives a result, the time it ended and the store, or
  never returns (None).  A call of the rate limiter started at a time takes as long as \<open>lat\<close> says.  The
  store does not fail, but a counter that holds no number makes a hit throw.
\<close>

section \<open>The pipeline\<close>

datatype ('p, 'r) Pipe = PipeFn "'p \<Rightarrow> ('p \<Rightarrow> 'r) \<Rightarrow> 'r" | PipeObject "'p \<Rightarrow> ('p \<Rightarrow> 'r) \<Rightarrow> 'r"

record ('p, 'r) Pipeline =
  passable :: "'p option"
  pipes :: "('p, 'r) Pipe list"

definition new_pipeline :: "('p, 'r) Pipeline" where
  "new_pipeline = \<lparr>passable = None, pipes = []\<rparr>"

definition send :: "'p \<Rightarrow> ('p, 'r) Pipeline \<Rightarrow> ('p, 'r) Pipeline" where
  "send p pl = pl\<lparr>passable := Some p\<rparr>"

definition through :: "('p, 'r) Pipe list \<Rightarrow> ('p, 'r) Pipeline \<Rightarrow> ('p, 'r) Pipeline" where
  "through ps pl = pl\<lparr>pipes := ps\<rparr>"

definition add_pipe :: "('p, 'r) Pipe \<Rightarrow> ('p, 'r) Pipeline \<Rightarrow> ('p, 'r) Pipeline" where
  "add_pipe q pl = pl\<lparr>pipes := pipes pl @ [q]\<rparr>"

fun pipe_fn :: "('p, 'r) Pipe \<Rightarrow> 'p \<Rightarrow> ('p \<Rightarrow> 'r) \<Rightarrow> 'r" where
  "pipe_fn (PipeFn f) = f"
| "pipe_fn (PipeObject handle) = handle"

definition run_pipeline :: "('p \<Rightarrow> 'r) \<Rightarrow> ('p, 'r) Pipeline \<Rightarrow> string + 'r" where
  "run_pipeline destination pl =
     (case passable pl of
        None \<Rightarrow> Inl ''Pipeline.send() must be called before run().''
      | Some p \<Rightarrow> Inr (foldr (\<lambda>pipe next p. pipe_fn pipe p next) (pipes pl) destination p))"

definition thenReturn :: "('p, 'p) Pipeline \<Rightarrow> string + 'p" where
  "thenReturn pl = run_pipeline (\<lambda>p. p) pl"

text \<open>The hub: pipelines registered by name; each call gets a fresh pipeline.\<close>

type_synonym ('p, 'r) Hub = "string \<rightharpoonup> (('p, 'r) Pipeline \<Rightarrow> 'p \<Rightarrow> 'r)"

definition hub_pipeline :: "string \<Rightarrow> (('p, 'r) Pipeline \<Rightarrow> 'p \<Rightarrow> 'r) \<Rightarrow> ('p, 'r) Hub \<Rightarrow> ('p, 'r) Hub" where
  "hub_pipeline name callback hub = hub(name \<mapsto> callback)"

definition hub_defaults :: "(('p, 'r) Pipeline \<Rightarrow> 'p \<Rightarrow> 'r) \<Rightarrow> ('p, 'r) Hub \<Rightarrow> ('p, 'r) Hub" where
  "hub_defaults = hub_pipeline ''default''"

definition hub_pipe :: "'p \<Rightarrow> string option \<Rightarrow> ('p, 'r) Hub \<Rightarrow> string + 'r" where
  "hub_pipe p name hub =
     (case hub (nullish name ''default'') of
        None \<Rightarrow> Inl (''Pipeline ['' @ nullish name ''default'' @ ''] is not registered on this Hub.'')
      | Some callback \<Rightarrow> Inr (callback new_pipeline p))"

definition hub_has :: "string \<Rightarrow> ('p, 'r) Hub \<Rightarrow> bool" where
  "hub_has name hub = (hub name \<noteq> None)"

section \<open>Jobs that must not overlap\<close>

type_synonym 's stage = "int \<Rightarrow> 's \<Rightarrow> (run_result \<times> int \<times> 's) option"

datatype release_after = After int | DropJob

record WithoutOverlapping =
  wo_key :: string
  releaseAfterSeconds :: "release_after option"
  expireAfterSeconds :: "rat option"
  wo_shared :: bool

definition overlapping_on :: "string \<Rightarrow> WithoutOverlapping" where
  "overlapping_on k = \<lparr>wo_key = k, releaseAfterSeconds = None, expireAfterSeconds = None, wo_shared = False\<rparr>"

definition dontRelease :: "WithoutOverlapping \<Rightarrow> WithoutOverlapping" where
  "dontRelease wo = wo\<lparr>releaseAfterSeconds := Some DropJob\<rparr>"

definition releaseAfter :: "int \<Rightarrow> WithoutOverlapping \<Rightarrow> WithoutOverlapping" where
  "releaseAfter seconds wo = wo\<lparr>releaseAfterSeconds := Some (After seconds)\<rparr>"

definition expireAfter :: "rat \<Rightarrow> WithoutOverlapping \<Rightarrow> WithoutOverlapping" where
  "expireAfter seconds wo = wo\<lparr>expireAfterSeconds := Some seconds\<rparr>"

definition share_lock :: "WithoutOverlapping \<Rightarrow> WithoutOverlapping" where
  "share_lock wo = wo\<lparr>wo_shared := True\<rparr>"

text \<open>The registry's name for the job when it has one, else the constructor's name when there is one.\<close>

definition jobName :: "string option \<Rightarrow> string option \<Rightarrow> string" where
  "jobName registryName constructorName = nullish registryName (nullish constructorName ''job'')"

definition overlap_key :: "WithoutOverlapping \<Rightarrow> string \<Rightarrow> string" where
  "overlap_key wo name = (if wo_shared wo then ''overlap:'' @ wo_key wo else ''overlap:'' @ name @ '':'' @ wo_key wo)"

definition overlap_lock :: "string \<Rightarrow> WithoutOverlapping \<Rightarrow> string \<Rightarrow> Lock" where
  "overlap_lock uuid wo name =
     new_lock uuid \<lparr>lo_key = overlap_key wo name, automaticReleaseAfterSeconds = nullish (expireAfterSeconds wo) 60,
       maximumWaitForSeconds = Some 0, lo_retryEvery = None\<rparr>"

definition without_overlapping ::
  "'s CacheOps \<Rightarrow> 's Env \<Rightarrow> bool \<Rightarrow> string \<Rightarrow> WithoutOverlapping \<Rightarrow> string \<Rightarrow> 's stage \<Rightarrow> 's stage" where
  "without_overlapping ops env atomic uuid wo name next now s =
     (case acquire ops env (overlap_lock uuid wo name) now s of
        None \<Rightarrow> None
      | Some (Inl _, now, s) \<Rightarrow>
          Some (case nullish (releaseAfterSeconds wo) (After 5) of DropJob \<Rightarrow> Ran | After d \<Rightarrow> AskedRelease d, now, s)
      | Some (Inr lk, now, s) \<Rightarrow>
          (case next now s of
             None \<Rightarrow> None
           | Some (r, now, s) \<Rightarrow> Some (r, now, snd (CacheLock.release ops atomic now now lk s))))"

section \<open>Rate limits and the circuit breaker\<close>

definition hit_times :: "(int \<Rightarrow> nat) \<Rightarrow> int \<Rightarrow> times4" where
  "hit_times lat t1 =
     (let t2 = t1 + int (lat t1); t3 = t2 + int (lat t2) in (t1, t2, t3, t3 + int (lat t3)))"

definition hit_end :: "(int \<Rightarrow> nat) \<Rightarrow> int \<Rightarrow> int" where
  "hit_end lat t = (case hit_times lat t of (t1, t2, t3, t4) \<Rightarrow> t4 + int (lat t4))"

text \<open>A hit: the time it ends, its error, the store.\<close>

definition hit_at :: "'s CacheOps \<Rightarrow> (int \<Rightarrow> nat) \<Rightarrow> string \<Rightarrow> int \<Rightarrow> int \<Rightarrow> 's \<Rightarrow> cache_error option \<times> int \<times> 's" where
  "hit_at ops lat k decay now s =
     (case hit ops k decay (hit_times lat now) s of
        (CountFailed err, s) \<Rightarrow> (Some err, hit_end lat now, s)
      | (_, s) \<Rightarrow> (None, hit_end lat now, s))"

record 'j RateLimited =
  rl_limiters :: "'j limiters"
  limiterName :: string
  rl_releaseAfter :: int

definition keyFor :: "string \<Rightarrow> Limit \<Rightarrow> string" where
  "keyFor name l = name @ '':'' @ (if key l = [] then fallbackKey l else key l)"

fun check_limits ::
  "'s CacheOps \<Rightarrow> (int \<Rightarrow> nat) \<Rightarrow> string \<Rightarrow> int \<Rightarrow> Limit list \<Rightarrow> int \<Rightarrow> 's \<Rightarrow> int option \<times> int \<times> 's" where
  "check_limits ops lat name least [] now s = (None, now, s)"
| "check_limits ops lat name least (l # ls) now s =
     (if kind l = KUnlimited then check_limits ops lat name least ls now s
      else case tooManyAttempts ops (keyFor name l) (int (maxAttempts l)) now s of
          (True, s) \<Rightarrow>
            (let now = now + int (lat now); (avail, s) = availableIn ops (keyFor name l) now s in
             (Some (max avail least), now + int (lat now), s))
        | (False, s) \<Rightarrow> check_limits ops lat name least ls (now + int (lat now)) s)"

fun hit_limits ::
  "'s CacheOps \<Rightarrow> (int \<Rightarrow> nat) \<Rightarrow> string \<Rightarrow> Limit list \<Rightarrow> int \<Rightarrow> 's \<Rightarrow> cache_error option \<times> int \<times> 's" where
  "hit_limits ops lat name [] now s = (None, now, s)"
| "hit_limits ops lat name (l # ls) now s =
     (if kind l = KUnlimited then hit_limits ops lat name ls now s
      else case hit_at ops lat (keyFor name l) (int (decaySeconds l)) now s of
          (Some err, now, s) \<Rightarrow> (Some err, now, s)
        | (None, now, s) \<Rightarrow> hit_limits ops lat name ls now s)"

definition rate_limited ::
  "'s CacheOps \<Rightarrow> (int \<Rightarrow> nat) \<Rightarrow> (cache_error \<Rightarrow> string) \<Rightarrow> 'j RateLimited \<Rightarrow> 'j \<Rightarrow> 's stage \<Rightarrow> 's stage" where
  "rate_limited ops lat describe rl job next now s =
     (case limiter (limiterName rl) (rl_limiters rl) of
        None \<Rightarrow> next now s
      | Some resolve \<Rightarrow>
          (case check_limits ops lat (limiterName rl) (rl_releaseAfter rl) (resolve job) now s of
             (Some d, now, s) \<Rightarrow> Some (AskedRelease d, now, s)
           | (None, now, s) \<Rightarrow>
               (case hit_limits ops lat (limiterName rl) (resolve job) now s of
                  (Some err, now, s) \<Rightarrow> Some (Threw (describe err), now, s)
                | (None, now, s) \<Rightarrow> next now s)))"

record ThrottlesExceptions =
  te_key :: string
  maxExceptions :: "int option"
  decayMinutes :: "int option"
  retryAfterSeconds :: "int option"

definition counterKey :: "ThrottlesExceptions \<Rightarrow> string" where
  "counterKey te = ''throttle-exceptions:'' @ te_key te"

definition throttles_exceptions ::
  "'s CacheOps \<Rightarrow> (int \<Rightarrow> nat) \<Rightarrow> (cache_error \<Rightarrow> string) \<Rightarrow> ThrottlesExceptions \<Rightarrow> 's stage \<Rightarrow> 's stage" where
  "throttles_exceptions ops lat describe te next now s =
     (case tooManyAttempts ops (counterKey te) (nullish (maxExceptions te) 10) now s of
        (True, s) \<Rightarrow>
          (let now = now + int (lat now); (avail, s) = availableIn ops (counterKey te) now s in
           Some (AskedRelease (max avail (nullish (retryAfterSeconds te) 0)), now + int (lat now), s))
      | (False, s) \<Rightarrow>
          (case next (now + int (lat now)) s of
             None \<Rightarrow> None
           | Some (Ran, now, s) \<Rightarrow> Some (Ran, now, s)
           | Some (error, now, s) \<Rightarrow>
               (case hit_at ops lat (counterKey te) (nullish (decayMinutes te) 1 * 60) now s of
                  (Some err, now, s) \<Rightarrow> Some (Threw (describe err), now, s)
                | (None, now, s) \<Rightarrow> Some (error, now, s))))"

section \<open>A job through its middleware\<close>

text \<open>Each middleware gets the job and what runs the rest on the job it passes on.\<close>

definition runJobThroughMiddleware ::
  "('j \<Rightarrow> ('j \<Rightarrow> 's stage) \<Rightarrow> 's stage) list \<Rightarrow> ('j \<Rightarrow> 's stage) \<Rightarrow> 'j \<Rightarrow> 's stage" where
  "runJobThroughMiddleware middleware handle job now s =
     (if middleware = [] then handle job now s
      else case run_pipeline handle (through (map PipeFn middleware) (send job new_pipeline)) of
          Inl e \<Rightarrow> Some (Threw e, now, s)
        | Inr stage \<Rightarrow> stage now s)"

section \<open>Pipelines compose\<close>

lemma run_pipeline_send:
  "run_pipeline destination (send p (through ps pl)) = Inr (foldr (\<lambda>pipe next p. pipe_fn pipe p next) ps destination p)"
  by (simp add: run_pipeline_def send_def through_def)

text \<open>The stack built at once is the stack of its tail as the destination of its head.\<close>

lemma pipelines_compose:
  "run_pipeline destination (send p (through (ps @ qs) pl)) =
   run_pipeline (\<lambda>p. projr (run_pipeline destination (send p (through qs pl)))) (send p (through ps pl))"
  by (simp add: run_pipeline_send)

lemma middleware_nests:
  "runJobThroughMiddleware (m # ms) handle job now s = m job (\<lambda>job. runJobThroughMiddleware ms handle job) now s"
proof -
  have "foldr (\<lambda>pipe next p. pipe_fn pipe p next) (map PipeFn ms) handle = runJobThroughMiddleware ms handle"
    by (intro ext) (simp add: runJobThroughMiddleware_def run_pipeline_def through_def send_def new_pipeline_def)
  then show ?thesis
    by (simp add: runJobThroughMiddleware_def [of "m # ms"] run_pipeline_def through_def send_def new_pipeline_def)
qed

section \<open>Counting runs\<close>

lemma live_later:
  "now \<le> t \<Longrightarrow> live t m k = (case live now m k of None \<Rightarrow> None | Some e \<Rightarrow> if expired t e then None else Some e)"
  using live_later_None [of now m k t] live_later_Some [of now m k _ t] by (cases "live now m k") auto

lemma live_same_later: "live now m k = live now m' k \<Longrightarrow> now \<le> t \<Longrightarrow> live t m k = live t m' k"
  by (simp add: live_later [of now t])

text \<open>The window of a key: nothing yet, or a counter and a timer that last until D.\<close>

definition window :: "('s \<Rightarrow> (string \<rightharpoonup> Entry)) \<Rightarrow> string \<Rightarrow> int \<Rightarrow> int \<Rightarrow> int \<Rightarrow> 's \<Rightarrow> bool" where
  "window peek k n D t s \<longleftrightarrow>
     (if n = 0 then live t (peek s) k = None \<and> live t (peek s) (timer_key k) = None
      else 0 < n \<and> counter_at peek k n D t s \<and>
        (\<exists>v x. live t (peek s) (timer_key k) = Some \<lparr>evalue = VNum v, expiresAt = Some x\<rparr> \<and> D \<le> x))"

lemma window_later:
  assumes "window peek k n D t s" "t \<le> t'" "t' \<le> D"
  shows "window peek k n D t' s"
  using assms by (auto simp: window_def counter_at_def live_later [of t t'] expired_def split: if_splits)

lemma window_same:
  assumes "window peek k n D t s" "live t (peek s') k = live t (peek s) k" "live t (peek s') (timer_key k) = live t (peek s) (timer_key k)"
  shows "window peek k n D t s'"
  using assms by (auto simp: window_def counter_at_def)

lemma window_value: "window peek k n D t s \<Longrightarrow> 0 \<le> n \<and> as_number (value_of (live t (peek s) k)) = n"
  by (auto simp: window_def counter_at_def as_number_def split: if_splits)

lemma window_timer: "window peek k n D t s \<Longrightarrow> n \<noteq> 0 \<Longrightarrow> value_of (live t (peek s) (timer_key k)) \<noteq> VUndef"
  by (auto simp: window_def)

context cache_store
begin

lemma increment_step_frame:
  assumes "increment_step ops k decay amount now p s = (p', s')" "p \<noteq> SeedTimer" "k' \<noteq> k" "now \<le> t"
  shows "p' \<noteq> SeedTimer \<and> live t (peek s') k' = live t (peek s) k'"
proof (cases p)
  case SeedCounter
  then show ?thesis using assms add_live [OF assms(4), of k "VNum 0" "Some decay" s] by auto
next
  case Count
  obtain r s1 where inc: "op_increment ops now k amount s = (r, s1)" by force
  have same: "live now (peek s1) k' = live now (peek s) k'"
    using increment_failed_live [of now k amount s] increment_live(1) [of now k amount s] inc assms(3)
    by (cases r) auto
  show ?thesis
    using live_same_later [OF same assms(4)] assms Count inc by (auto split: sum.splits if_splits)
next
  case (Pin hits)
  then show ?thesis using assms put_live [OF assms(4), of k "VNum hits" "Some decay" s] by auto
qed (use assms in auto)

lemma increment_timer:
  assumes "increment ops k decay amount (t1, t2, t3, t4) s = (p, s')" "t1 \<le> t2" "t2 \<le> t3" "t3 \<le> t4"
  shows "live t4 (peek s') (timer_key k) =
    live t4 (peek (snd (op_add ops t1 (timer_key k) (VNum (availableAt t1 decay)) (Some decay) s))) (timer_key k)"
proof -
  let ?s1 = "snd (op_add ops t1 (timer_key k) (VNum (availableAt t1 decay)) (Some decay) s)"
  obtain p2 s2 where 2: "increment_step ops k decay amount t2 SeedCounter ?s1 = (p2, s2)" by force
  obtain p3 s3 where 3: "increment_step ops k decay amount t3 p2 s2 = (p3, s3)" by force
  have 4: "increment_step ops k decay amount t4 p3 s3 = (p, s')" using assms(1) 2 3 by simp
  note step = increment_step_frame [where k' = "timer_key k" and t = t4]
  have f2: "p2 \<noteq> SeedTimer \<and> live t4 (peek s2) (timer_key k) = live t4 (peek ?s1) (timer_key k)" by (rule step [OF 2]) (use assms in auto)
  then have f3: "p3 \<noteq> SeedTimer \<and> live t4 (peek s3) (timer_key k) = live t4 (peek s2) (timer_key k)" by (intro step [OF 3]) (use assms in auto)
  then have "live t4 (peek s') (timer_key k) = live t4 (peek s3) (timer_key k)" using step [OF 4] assms by auto
  then show ?thesis using f2 f3 by simp
qed

lemma window_counts:
  assumes w: "window peek k n D t0 s" and times: "t0 \<le> t1" "t1 \<le> t2" "t2 \<le> t3" "t3 \<le> t4" "t4 \<le> D"
    and D: "D \<le> t1 + decay * 1000"
  shows "\<exists>s'. hit ops k decay (t1, t2, t3, t4) s = (Counted (n + 1), s') \<and> window peek k (n + 1) D t4 s'"
proof -
  have w1: "window peek k n D t1 s" using window_later [OF w times(1)] times by simp
  have n: "0 \<le> n" using window_value [OF w] by simp
  obtain s' where s': "increment ops k decay 1 (t1, t2, t3, t4) s = (Counted (n + 1), s')" and cnt: "counter_at peek k (n + 1) D t4 s'"
  proof (cases "n = 0")
    case True
    then show thesis using that hit_first [of t1 s k t2 t3 t4 D decay] w1 times D by (auto simp: window_def)
  next
    case False
    then show thesis using that hit_next [of k n D t1 s t1 t2 t3 t4 decay] w1 n times by (auto simp: window_def)
  qed
  note timer = increment_timer [OF s' times(2,3,4)]
  have "\<exists>v x. live t4 (peek s') (timer_key k) = Some \<lparr>evalue = VNum v, expiresAt = Some x\<rparr> \<and> D \<le> x"
  proof (cases "n = 0")
    case True
    then have "live t1 (peek s) (timer_key k) = None" using w1 by (simp add: window_def)
    then have "live t4 (peek s') (timer_key k) = Some (mk_entry t1 (VNum (availableAt t1 decay)) (Some decay))"
      using timer add_live [of t1 t4 "timer_key k" "VNum (availableAt t1 decay)" "Some decay" s] times D by (simp add: expired_mk_entry)
    then show ?thesis using D by (simp add: mk_entry_def)
  next
    case False
    then obtain v x where x: "live t1 (peek s) (timer_key k) = Some \<lparr>evalue = VNum v, expiresAt = Some x\<rparr>" "D \<le> x"
      using w1 by (auto simp: window_def)
    then have "live t4 (peek s') (timer_key k) = live t4 (peek s) (timer_key k)"
      using timer add_live [of t1 t4 "timer_key k" "VNum (availableAt t1 decay)" "Some decay" s] times by simp
    then show ?thesis using x times by (simp add: live_later [of t1 t4] expired_def)
  qed
  then have "window peek k (n + 1) D t4 s'" using cnt n by (simp add: window_def)
  then show ?thesis using s' by (simp add: hit_def)
qed

lemma hit_at_counts:
  assumes "window peek k n D t0 s" "t0 \<le> t" "hit_end lat t \<le> D" "D \<le> t + decay * 1000"
  shows "\<exists>s'. hit_at ops lat k decay t s = (None, hit_end lat t, s') \<and> window peek k (n + 1) D (hit_end lat t) s'"
proof -
  obtain t2 t3 t4 where ts: "hit_times lat t = (t, t2, t3, t4)" and order: "t \<le> t2" "t2 \<le> t3" "t3 \<le> t4" "t4 \<le> hit_end lat t"
    by (auto simp: hit_times_def hit_end_def Let_def)
  obtain s' where "hit ops k decay (t, t2, t3, t4) s = (Counted (n + 1), s')" "window peek k (n + 1) D t4 s'"
    using window_counts [OF assms(1,2) order(1-3) _ assms(4)] order assms(3) by auto
  then show ?thesis using window_later [of peek k "n + 1" D t4 s' "hit_end lat t"] order assms(3) by (auto simp: hit_at_def ts)
qed

lemma tooMany_window:
  assumes w: "window peek k n D t s" and "0 < m" "tooManyAttempts ops k m t s = (b, s')"
  shows "b \<longleftrightarrow> m \<le> n" "window peek k n D t s'"
proof -
  note spec = tooManyAttempts_live [OF assms(3)]
  have n: "as_number (value_of (live t (peek s) k)) = n" "0 \<le> n" using window_value [OF w] by auto
  show b: "b \<longleftrightarrow> m \<le> n" using spec(1) n window_timer [OF w] assms(2) by auto
  have "live t (peek s') = live t (peek s)" using spec(2) n b by (simp split: if_splits)
  then show "window peek k n D t s'" using window_same [OF w] by simp
qed

lemma availableIn_live: "availableIn ops k now s = (d, s') \<Longrightarrow> now \<le> t \<Longrightarrow> live t (peek s') = live t (peek s)"
  using get_live [of now t "timer_key k" s] by (auto simp: availableIn_def split_beta)

end

section \<open>Runs one after the other\<close>

text \<open>Runs of one middleware, each after a pause and around a job of its own: the results, the time, the store.\<close>

fun runs_in_turn ::
  "('s stage \<Rightarrow> 's stage) \<Rightarrow> (nat \<times> 's stage) list \<Rightarrow> int \<Rightarrow> 's \<Rightarrow> (run_result list \<times> int \<times> 's) option" where
  "runs_in_turn mw [] now s = Some ([], now, s)"
| "runs_in_turn mw ((pause, next) # rest) now s =
     (case mw next (now + int pause) s of
        None \<Rightarrow> None
      | Some (r, now, s) \<Rightarrow> (case runs_in_turn mw rest now s of None \<Rightarrow> None | Some (rs, now, s) \<Rightarrow> Some (r # rs, now, s)))"

text \<open>A job that ends in a given way after some time and leaves the keys of a counter alone.\<close>

definition job_gives :: "('s \<Rightarrow> (string \<rightharpoonup> Entry)) \<Rightarrow> string \<Rightarrow> run_result \<Rightarrow> 's stage \<Rightarrow> bool" where
  "job_gives peek k r next \<longleftrightarrow>
     (\<forall>now s. \<exists>t s'. next now s = Some (r, t, s') \<and> now \<le> t \<and>
        live t (peek s') k = live t (peek s) k \<and> live t (peek s') (timer_key k) = live t (peek s) (timer_key k))"

lemma job_givesD:
  assumes "job_gives peek k r next"
  obtains t s' where "next now s = Some (r, t, s')" "now \<le> t" "live t (peek s') k = live t (peek s) k"
    "live t (peek s') (timer_key k) = live t (peek s) (timer_key k)"
  using assms unfolding job_gives_def by blast

lemma job_gives_window:
  assumes "job_gives peek k r next" "window peek k n D now s" "next now s = Some (r', t, s')" "t \<le> D"
  shows "r' = r \<and> now \<le> t \<and> window peek k n D t s'"
proof -
  have facts: "r' = r" "now \<le> t" "live t (peek s') k = live t (peek s) k" "live t (peek s') (timer_key k) = live t (peek s) (timer_key k)"
    using job_givesD [OF assms(1), of now s] assms(3) by auto
  then show ?thesis using window_same [OF window_later [OF assms(2) facts(2) assms(4)]] by simp
qed

lemma hit_end_later: "t \<le> hit_end lat t"
  by (simp add: hit_end_def hit_times_def Let_def)

lemma job_gives_later: "job_gives peek k r next \<Longrightarrow> next now s = Some (r', t, s') \<Longrightarrow> now \<le> t"
  by (elim job_givesD [where now = now and s = s]) simp

lemma hit_at_time: "hit_at ops lat k decay now s = (e, t, s') \<Longrightarrow> t = hit_end lat now"
  by (auto simp: hit_at_def split: prod.splits phase.splits)

lemma throttles_later:
  assumes "job_gives peek k r next" "throttles_exceptions ops lat describe te next now s = Some (r', t, s')"
  shows "now \<le> t"
  using assms(2) job_gives_later [OF assms(1)]
  by (fastforce simp: throttles_exceptions_def Let_def split: prod.splits bool.splits option.splits run_result.splits
      dest!: hit_at_time intro: order_trans [OF _ hit_end_later] order_trans [OF _ order_trans [OF _ hit_end_later]])

lemma runs_later:
  "runs_in_turn mw turns now s = Some (rs, t, s') \<Longrightarrow>
   (\<And>pause next now s r t s'. (pause, next) \<in> set turns \<Longrightarrow> mw next now s = Some (r, t, s') \<Longrightarrow> now \<le> t) \<Longrightarrow> now \<le> t"
proof (induction mw turns now s arbitrary: rs rule: runs_in_turn.induct)
  case (2 mw pause "next" rest now s)
  obtain r t1 s1 rs1 where first: "mw next (now + int pause) s = Some (r, t1, s1)" and rest: "runs_in_turn mw rest t1 s1 = Some (rs1, t, s')"
    using "2.prems"(1) by (auto split: option.splits)
  have "now + int pause \<le> t1" using "2.prems"(2) [OF list.set_intros(1) first] .
  moreover have "t1 \<le> t" by (rule "2.IH" [OF first refl refl rest]) (rule "2.prems"(2) [OF list.set_intros(2)])
  ultimately show ?case by simp
qed simp

context cache_store
begin

lemma breaker_closed:
  assumes "window peek (counterKey te) n D now s" "n < nullish (maxExceptions te) 10"
    "job_gives peek (counterKey te) r next" "r \<noteq> Ran"
    "throttles_exceptions ops lat describe te next now s = Some (r', t, s')" "t \<le> D" "D \<le> now + nullish (decayMinutes te) 1 * 60 * 1000"
  shows "r' = r \<and> now \<le> t \<and> window peek (counterKey te) (n + 1) D t s'"
proof -
  let ?k = "counterKey te" and ?m = "nullish (maxExceptions te) 10"
  obtain b s1 where check: "tooManyAttempts ops ?k ?m now s = (b, s1)" by force
  have n: "0 \<le> n" using window_value [OF assms(1)] by simp
  have b: "\<not> b" and w1: "window peek ?k n D now s1"
    using tooMany_window [OF assms(1) _ check] assms(2) n by auto
  obtain r2 t2 s2 where run: "next (now + int (lat now)) s1 = Some (r2, t2, s2)" and r2: "r2 = r"
    using job_givesD [OF assms(3), of "now + int (lat now)" s1] by blast
  have later: "now + int (lat now) \<le> t2"
    using job_gives_later [OF assms(3) run] .
  obtain e t' s3 where hit: "hit_at ops lat ?k (nullish (decayMinutes te) 1 * 60) t2 s2 = (e, t', s3)" by (metis prod_cases3)
  have "t' = hit_end lat t2" using hit by (auto simp: hit_at_def split: prod.splits phase.splits)
  moreover have "t' = t"
    using assms(4,5) check b run r2 hit by (auto simp: throttles_exceptions_def split: run_result.splits option.splits)
  ultimately have t: "hit_end lat t2 = t" by simp
  have D: "t2 \<le> D" using assms(6) hit_end_later [of t2 lat] t by simp
  have "window peek ?k n D (now + int (lat now)) s1"
    using window_later [OF w1, of "now + int (lat now)"] later D by simp
  then have "window peek ?k n D t2 s2" using job_gives_window [OF assms(3) _ run D] by simp
  then obtain s4 where "hit_at ops lat ?k (nullish (decayMinutes te) 1 * 60) t2 s2 = (None, t, s4)" "window peek ?k (n + 1) D t s4"
    using hit_at_counts [of ?k n D t2 s2 t2 lat "nullish (decayMinutes te) 1 * 60"] assms(6,7) t later by fastforce
  then show ?thesis
    using assms(4,5) check b run r2 later hit_end_later [of t2 lat] t
    by (auto simp: throttles_exceptions_def split: run_result.splits)
qed

lemma breaker_open:
  assumes "window peek (counterKey te) (nullish (maxExceptions te) 10) D now s" "0 < nullish (maxExceptions te) 10"
  shows "\<exists>d t s'. \<forall>next. throttles_exceptions ops lat describe te next now s = Some (AskedRelease d, t, s')"
proof -
  obtain b s1 where check: "tooManyAttempts ops (counterKey te) (nullish (maxExceptions te) 10) now s = (b, s1)" by force
  then have b using tooMany_window [OF assms(1,2) check] by simp
  then show ?thesis using check by (auto simp: throttles_exceptions_def split_beta Let_def)
qed

lemma breaker_counts:
  assumes "window peek (counterKey te) n D now s" "n + int (length turns) \<le> nullish (maxExceptions te) 10"
    "list_all2 (\<lambda>(pause, next) r. job_gives peek (counterKey te) r next \<and> r \<noteq> Ran) turns rs"
    "runs_in_turn (throttles_exceptions ops lat describe te) turns now s = Some (rs', t, s')" "t \<le> D"
    "D \<le> now + nullish (decayMinutes te) 1 * 60 * 1000"
  shows "rs' = rs \<and> now \<le> t \<and> window peek (counterKey te) (n + int (length turns)) D t s'"
  using assms
proof (induction turns arbitrary: n now s rs rs')
  case Nil
  then show ?case by simp
next
  case (Cons job turns)
  obtain pause "next" where job: "job = (pause, next)" by force
  obtain r rs1 where rs: "rs = r # rs1" "job_gives peek (counterKey te) r next" "r \<noteq> Ran"
      "list_all2 (\<lambda>(pause, next) r. job_gives peek (counterKey te) r next \<and> r \<noteq> Ran) turns rs1"
    using Cons.prems(3) by (auto simp: job list_all2_Cons1)
  obtain r1 t1 s1 rs2 where first: "throttles_exceptions ops lat describe te next (now + int pause) s = Some (r1, t1, s1)"
      and rest: "runs_in_turn (throttles_exceptions ops lat describe te) turns t1 s1 = Some (rs2, t, s')" and rs': "rs' = r1 # rs2"
    using Cons.prems(4) by (auto simp: job split: option.splits)
  have "t1 \<le> t"
    using rs(4) by (intro runs_later [OF rest]) (auto simp: list_all2_conv_all_nth in_set_conv_nth dest!: spec throttles_later)
  then have D: "t1 \<le> D" using Cons.prems(5) by simp
  have "window peek (counterKey te) n D (now + int pause) s"
    using window_later [OF Cons.prems(1), of "now + int pause"] D throttles_later [OF rs(2) first] by simp
  from breaker_closed [OF this _ rs(2,3) first D]
  have step: "r1 = r \<and> now + int pause \<le> t1 \<and> window peek (counterKey te) (n + 1) D t1 s1"
    using Cons.prems(2,6) by simp
  then have "rs2 = rs1 \<and> t1 \<le> t \<and> window peek (counterKey te) (n + 1 + int (length turns)) D t s'"
    using Cons.prems(2,6) by (intro Cons.IH [OF _ _ rs(4) rest Cons.prems(5)]) auto
  then show ?case using step by (simp add: rs(1) rs' algebra_simps)
qed

end

context cache_store
begin

lemma single_limit:
  assumes "limiter (limiterName rl) (rl_limiters rl) = Some resolve" "resolve job = [l]" "kind l \<noteq> KUnlimited"
  shows "rate_limited ops lat describe rl job next now s =
    (case tooManyAttempts ops (keyFor (limiterName rl) l) (int (maxAttempts l)) now s of
       (True, s) \<Rightarrow>
         (let now = now + int (lat now); (avail, s) = availableIn ops (keyFor (limiterName rl) l) now s in
          Some (AskedRelease (max avail (rl_releaseAfter rl)), now + int (lat now), s))
     | (False, s) \<Rightarrow>
         (case hit_at ops lat (keyFor (limiterName rl) l) (int (decaySeconds l)) (now + int (lat now)) s of
            (Some err, now, s) \<Rightarrow> Some (Threw (describe err), now, s)
          | (None, now, s) \<Rightarrow> next now s))"
  using assms by (auto simp: rate_limited_def Let_def split: prod.splits bool.splits option.splits)

lemma limit_admits:
  assumes "limiter (limiterName rl) (rl_limiters rl) = Some resolve" "resolve job = [l]" "kind l \<noteq> KUnlimited"
    "window peek (keyFor (limiterName rl) l) n D now s" "n < int (maxAttempts l)"
    "job_gives peek (keyFor (limiterName rl) l) r next"
    "rate_limited ops lat describe rl job next now s = Some (r', t, s')" "t \<le> D" "D \<le> now + int (decaySeconds l) * 1000"
  shows "r' = r \<and> now \<le> t \<and> window peek (keyFor (limiterName rl) l) (n + 1) D t s'"
proof -
  let ?k = "keyFor (limiterName rl) l"
  let ?t1 = "now + int (lat now)"
  obtain b s1 where check: "tooManyAttempts ops ?k (int (maxAttempts l)) now s = (b, s1)" by force
  have n: "0 \<le> n" using window_value [OF assms(4)] by simp
  have b: "\<not> b" and w1: "window peek ?k n D now s1"
    using tooMany_window [OF assms(4) _ check] assms(5) n by auto
  obtain e t2 s2 where hit: "hit_at ops lat ?k (int (decaySeconds l)) ?t1 s1 = (e, t2, s2)" by (metis prod_cases3)
  note t2 = hit_at_time [OF hit]
  have "t2 \<le> t"
    using assms(7) check b hit job_gives_later [OF assms(6)] by (auto simp: single_limit [OF assms(1-3)] split: option.splits)
  then have D: "hit_end lat ?t1 \<le> D" using t2 assms(8) by simp
  then obtain s3 where s3: "hit_at ops lat ?k (int (decaySeconds l)) ?t1 s1 = (None, t2, s3)" and w2: "window peek ?k (n + 1) D t2 s3"
    using hit_at_counts [OF w1, of ?t1 lat "int (decaySeconds l)"] t2 assms(9) by auto
  then have run: "next t2 s3 = Some (r', t, s')"
    using assms(7) check b by (simp add: single_limit [OF assms(1-3)])
  have "now \<le> t2" using hit_end_later [of ?t1 lat] t2 by simp
  then show ?thesis using job_gives_window [OF assms(6) w2 run assms(8)] by simp
qed

lemma limit_refuses:
  assumes "limiter (limiterName rl) (rl_limiters rl) = Some resolve" "resolve job = [l]" "kind l \<noteq> KUnlimited"
    "window peek (keyFor (limiterName rl) l) (int (maxAttempts l)) D now s" "0 < maxAttempts l"
    "rate_limited ops lat describe rl job next now s = Some (r', t, s')" "t \<le> D"
  shows "(\<exists>d. r' = AskedRelease d) \<and> now \<le> t \<and> window peek (keyFor (limiterName rl) l) (int (maxAttempts l)) D t s'"
proof -
  let ?k = "keyFor (limiterName rl) l"
  let ?t1 = "now + int (lat now)"
  obtain b s1 where check: "tooManyAttempts ops ?k (int (maxAttempts l)) now s = (b, s1)" by force
  have b: b and w1: "window peek ?k (int (maxAttempts l)) D now s1"
    using tooMany_window [OF assms(4) _ check] assms(5) by auto
  obtain avail s2 where avail: "availableIn ops ?k ?t1 s1 = (avail, s2)" by force
  have res: "r' = AskedRelease (max avail (rl_releaseAfter rl))" "t = ?t1 + int (lat ?t1)" "s' = s2"
    using assms(6) check b avail by (simp_all add: single_limit [OF assms(1-3)] Let_def)
  then have "live t (peek s') = live t (peek s1)" using availableIn_live [OF avail, of t] by simp
  then show ?thesis using res window_same [OF window_later [OF w1, of t], of s'] assms(7) by simp
qed

lemma limited_later:
  assumes "limiter (limiterName rl) (rl_limiters rl) = Some resolve" "resolve job = [l]" "kind l \<noteq> KUnlimited"
    "job_gives peek (keyFor (limiterName rl) l) r next" "rate_limited ops lat describe rl job next now s = Some (r', t, s')"
  shows "now \<le> t"
proof -
  let ?k = "keyFor (limiterName rl) l"
  let ?t1 = "now + int (lat now)"
  obtain b s1 where check: "tooManyAttempts ops ?k (int (maxAttempts l)) now s = (b, s1)" by force
  obtain e t2 s2 where hit: "hit_at ops lat ?k (int (decaySeconds l)) ?t1 s1 = (e, t2, s2)" by (metis prod_cases3)
  have "now \<le> t2" using hit_at_time [OF hit] hit_end_later [of ?t1 lat] by simp
  then show ?thesis
    using assms(5) check hit job_gives_later [OF assms(4), of t2 s2]
    by (cases b; cases e) (auto simp: single_limit [OF assms(1-3)] Let_def split_beta)
qed

lemma limit_counts:
  assumes rl: "limiter (limiterName rl) (rl_limiters rl) = Some resolve" "resolve job = [l]" "kind l \<noteq> KUnlimited" "0 < maxAttempts l"
    and "window peek (keyFor (limiterName rl) l) (int n) D now s" "n \<le> maxAttempts l"
    "list_all2 (\<lambda>(pause, next) r. job_gives peek (keyFor (limiterName rl) l) r next) turns rs"
    "runs_in_turn (rate_limited ops lat describe rl job) turns now s = Some (rs', t, s')" "t \<le> D"
    "D \<le> now + int (decaySeconds l) * 1000"
  shows "now \<le> t \<and> take (maxAttempts l - n) rs' = take (maxAttempts l - n) rs \<and>
    list_all (\<lambda>r. \<exists>d. r = AskedRelease d) (drop (maxAttempts l - n) rs')"
  using assms(5-)
proof (induction turns arbitrary: n now s rs rs')
  case Nil
  then show ?case by simp
next
  case (Cons turn turns)
  let ?k = "keyFor (limiterName rl) l" and ?mw = "rate_limited ops lat describe rl job"
  obtain pause "next" where turn: "turn = (pause, next)" by force
  obtain r rs1 where rs: "rs = r # rs1" "job_gives peek ?k r next"
      "list_all2 (\<lambda>(pause, next) r. job_gives peek ?k r next) turns rs1"
    using Cons.prems(3) by (auto simp: turn list_all2_Cons1)
  obtain r1 t1 s1 rs2 where first: "?mw next (now + int pause) s = Some (r1, t1, s1)"
      and rest: "runs_in_turn ?mw turns t1 s1 = Some (rs2, t, s')" and rs': "rs' = r1 # rs2"
    using Cons.prems(4) by (auto simp: turn split: option.splits)
  have "t1 \<le> t"
    using rs(3) by (intro runs_later [OF rest]) (auto simp: list_all2_conv_all_nth in_set_conv_nth dest!: spec limited_later [OF rl(1-3)])
  then have D: "t1 \<le> D" using Cons.prems(5) by simp
  have w: "window peek ?k (int n) D (now + int pause) s"
    using window_later [OF Cons.prems(1), of "now + int pause"] D limited_later [OF rl(1-3) rs(2) first] by simp
  show ?case
  proof (cases "n < maxAttempts l")
    case True
    then have step: "r1 = r \<and> now + int pause \<le> t1 \<and> window peek ?k (int (Suc n)) D t1 s1"
      using limit_admits [OF rl(1-3) w _ rs(2) first D] Cons.prems(6) by (simp add: add.commute)
    then have "t1 \<le> t \<and> take (maxAttempts l - Suc n) rs2 = take (maxAttempts l - Suc n) rs1 \<and>
        list_all (\<lambda>r. \<exists>d. r = AskedRelease d) (drop (maxAttempts l - Suc n) rs2)"
      using True Cons.prems(6) by (intro Cons.IH [OF _ _ rs(3) rest Cons.prems(5)]) auto
    then show ?thesis using step Suc_diff_Suc [OF True, symmetric] by (simp add: rs(1) rs')
  next
    case False
    then have n: "n = maxAttempts l" using Cons.prems(2) by simp
    then have step: "(\<exists>d. r1 = AskedRelease d) \<and> now + int pause \<le> t1 \<and> window peek ?k (int n) D t1 s1"
      using limit_refuses [OF rl(1-3) _ rl(4) first D] w by simp
    then have "t1 \<le> t \<and> take (maxAttempts l - n) rs2 = take (maxAttempts l - n) rs1 \<and>
        list_all (\<lambda>r. \<exists>d. r = AskedRelease d) (drop (maxAttempts l - n) rs2)"
      using Cons.prems(2,6) by (intro Cons.IH [OF _ _ rs(3) rest Cons.prems(5)]) auto
    then show ?thesis using step n by (auto simp: rs')
  qed
qed

end

section \<open>Properties\<close>

lemma overlap_lock_fields:
  "lockKey (overlap_lock uuid wo name) = overlap_key wo name @ ''_lock''" "owner (overlap_lock uuid wo name) = uuid"
  "lock_name (overlap_lock uuid wo name) = overlap_key wo name" "maximumWaitForMs (overlap_lock uuid wo name) = Some 0"
  by (simp_all add: overlap_lock_def new_lock_def)

lemma acquire_overlap:
  "acquire ops env (overlap_lock uuid wo name) now s =
    (let (ok, s') = CacheLock.attempt ops now (overlap_lock uuid wo name) s in
     Some (if ok then Inr ((overlap_lock uuid wo name)\<lparr>held := True\<rparr>) else Inl (LockTimeout (overlap_key wo name)), now + int (latency env 0), s'))"
  by (subst acquire_once) (simp_all add: overlap_lock_fields Let_def split: prod.split)

text \<open>When a run that had the lock ends, however it ends, the lock is no longer its own.\<close>

lemma overlap_lock_given_back:
  assumes "CacheLock.attempt array_ops now (overlap_lock uuid wo name) s = (True, s1)"
    "without_overlapping array_ops env atomic uuid wo name next now s = Some (r, t, s')"
  shows "value_of (live t (map_of s') (overlap_key wo name @ ''_lock'')) \<noteq> VStr uuid"
proof -
  let ?lk = "(overlap_lock uuid wo name)\<lparr>held := True\<rparr>"
  obtain s2 where "s' = snd (CacheLock.release array_ops atomic t t ?lk s2)"
    using assms by (auto simp: without_overlapping_def acquire_overlap split: option.splits)
  then show ?thesis using release_value_not_owner [of ?lk t atomic s2] by (simp add: overlap_lock_fields)
qed

text \<open>
  C32. Jobs with one overlap key never run together while the lock lives: from the moment one has taken the
  lock until its expiry time, as long as the entry is in place, any other is not started, whatever it
  would do; it is released for the configured delay, or dropped.
\<close>

theorem overlapping_job_waits:
  assumes "CacheLock.attempt array_ops now (overlap_lock uuid wo name) s = (True, s1)"
    "overlap_key wo' name' = overlap_key wo name" "now \<le> now'" "now' \<le> now + lock_ttl (overlap_lock uuid wo name) * 1000"
    "live now' (map_of s') (overlap_key wo name @ ''_lock'') = live now' (map_of s1) (overlap_key wo name @ ''_lock'')"
  shows "\<exists>t s''. \<forall>next. without_overlapping array_ops env atomic uuid' wo' name' next now' s' =
    Some (case nullish (releaseAfterSeconds wo') (After 5) of DropJob \<Rightarrow> Ran | After d \<Rightarrow> AskedRelease d, t, s'')"
proof -
  let ?k = "overlap_key wo name @ ''_lock''"
  have "live now (map_of s1) ?k = Some (mk_entry now (VStr uuid) (Some (lock_ttl (overlap_lock uuid wo name))))"
    using array.attempt_True(2) [OF assms(1)] by (simp add: overlap_lock_fields)
  then have "live now' (map_of s1) ?k \<noteq> None"
    using assms(4) by (simp add: live_later [OF assms(3), of "map_of s1"] expired_mk_entry)
  then have "live now' (map_of s') ?k \<noteq> None" using assms(5) by simp
  then have "\<not> fst (CacheLock.attempt array_ops now' (overlap_lock uuid' wo' name') s')"
    using array.attempt_True(1) [of now' "overlap_lock uuid' wo' name'" s'] by (metis assms(2) overlap_lock_fields(1) prod.collapse)
  then show ?thesis
    by (auto simp: without_overlapping_def acquire_overlap split: prod.splits)
qed

text \<open>
  The circuit breaker opens after \<open>maxExceptions\<close> runs in a window that end with any error, the error
  by which another middleware asks to release the job included: each error is passed on, and then no
  job is run any more.  So a job that is only kept waiting by a lock or a limit opens the circuit.
\<close>

lemma breaker_counts_any_error:
  assumes "live now (map_of s) (counterKey te) = None" "live now (map_of s) (timer_key (counterKey te)) = None"
    "list_all2 (\<lambda>(pause, next) r. job_gives map_of (counterKey te) r next \<and> r \<noteq> Ran) turns rs"
    "int (length turns) = nullish (maxExceptions te) 10" "0 < length turns"
    "runs_in_turn (throttles_exceptions array_ops lat describe te) turns now s = Some (rs', t, s')"
    "t \<le> now + nullish (decayMinutes te) 1 * 60 * 1000"
  shows "rs' = rs \<and> (\<exists>d t' s''. \<forall>next. throttles_exceptions array_ops lat describe te next t s' = Some (AskedRelease d, t', s''))"
proof -
  let ?D = "now + nullish (decayMinutes te) 1 * 60 * 1000"
  have "window map_of (counterKey te) 0 ?D now s" using assms(1,2) by (simp add: window_def)
  from array.breaker_counts [OF this _ assms(3,6,7)] assms(4)
  have "rs' = rs" "window map_of (counterKey te) (nullish (maxExceptions te) 10) ?D t s'" by simp_all
  then show ?thesis using array.breaker_open [of te ?D t s' lat describe] assms(4,5) by simp
qed

text \<open>
  C33. Under a limiter of one limit, jobs that run one after the other within a window are run up to the
  limit, with their own results, and every later one is released without being run.
\<close>

theorem limited_jobs:
  assumes "limiter (limiterName rl) (rl_limiters rl) = Some resolve" "resolve job = [l]" "kind l \<noteq> KUnlimited" "0 < maxAttempts l"
    "live now (map_of s) (keyFor (limiterName rl) l) = None" "live now (map_of s) (timer_key (keyFor (limiterName rl) l)) = None"
    "list_all2 (\<lambda>(pause, next) r. job_gives map_of (keyFor (limiterName rl) l) r next) turns rs"
    "runs_in_turn (rate_limited array_ops lat describe rl job) turns now s = Some (rs', t, s')"
    "t \<le> now + int (decaySeconds l) * 1000"
  shows "take (maxAttempts l) rs' = take (maxAttempts l) rs \<and> list_all (\<lambda>r. \<exists>d. r = AskedRelease d) (drop (maxAttempts l) rs')"
proof -
  have "window map_of (keyFor (limiterName rl) l) (int 0) (now + int (decaySeconds l) * 1000) now s"
    using assms(5,6) by (simp add: window_def)
  from array.limit_counts [OF assms(1-4) this _ assms(7,8,9) order_refl] show ?thesis by simp
qed

section \<open>Witnesses\<close>

definition at_once :: "run_result \<Rightarrow> 's stage" where
  "at_once r now s = Some (r, now, s)"

lemma at_once_gives: "job_gives peek k r (at_once r)"
  by (simp add: job_gives_def at_once_def)

definition demo_breaker :: ThrottlesExceptions where
  "demo_breaker = \<lparr>te_key = ''a'', maxExceptions = Some 1, decayMinutes = None, retryAfterSeconds = None\<rparr>"

definition demo_limiter :: "unit RateLimited" where
  "demo_limiter = \<lparr>rl_limiters = [''a'' \<mapsto> (\<lambda>_. [Limit_new ''b'' 1 60])], limiterName = ''a'', rl_releaseAfter = 0\<rparr>"

lemmas middleware_eval = advance_eval at_once_def throttles_exceptions_def tooManyAttempts_def attempts_def as_number_def
  array_get_def array_has_def hit_at_def hit_def hit_times_def hit_end_def counterKey_def demo_breaker_def Let_def

theorem overlapping_job_waits_witness:
  "\<exists>t s''. \<forall>next. without_overlapping array_ops demo_env True ''u2'' (overlapping_on ''k'') ''job'' next 100
     (snd (CacheLock.attempt array_ops 0 (overlap_lock ''u1'' (overlapping_on ''k'') ''job'') [])) = Some (AskedRelease 5, t, s'')"
proof -
  let ?lk = "overlap_lock ''u1'' (overlapping_on ''k'') ''job''"
  have taken: "CacheLock.attempt array_ops 0 ?lk [] = (True, snd (CacheLock.attempt array_ops 0 ?lk []))"
    by (simp add: CacheLock.attempt_def array_ops_def array_add_def liveEntry_def)
  have "100 \<le> 0 + lock_ttl ?lk * 1000" using lock_ttl_pos [of ?lk] by simp
  from overlapping_job_waits [OF taken refl _ this refl, of demo_env True "''u2''"]
  show ?thesis by (simp add: overlapping_on_def)
qed


theorem limited_jobs_witness:
  "case runs_in_turn (rate_limited array_ops (\<lambda>_. 0) (\<lambda>_. []) demo_limiter ()) [(0, at_once Ran), (1, at_once Ran)] 0 [] of
     None \<Rightarrow> False
   | Some (rs, t, s) \<Rightarrow> take 1 rs = [Ran] \<and> list_all (\<lambda>r. \<exists>d. r = AskedRelease d) (drop 1 rs)"
proof -
  let ?mw = "rate_limited array_ops (\<lambda>_. 0) (\<lambda>_. []) demo_limiter ()"
  let ?turns = "[(0, at_once Ran), (1, at_once Ran)] :: (nat \<times> array_store stage) list"
  have lim: "limiter (limiterName demo_limiter) (rl_limiters demo_limiter) = Some (\<lambda>_. [Limit_new ''b'' 1 60])"
    by (auto simp: limiter_def demo_limiter_def resolve_limits_def duplicateKeys_def)
  have l: "kind (Limit_new ''b'' 1 60) \<noteq> KUnlimited" "maxAttempts (Limit_new ''b'' 1 60) = 1" "decaySeconds (Limit_new ''b'' 1 60) = 60"
    by (simp_all add: Limit_new_def)
  have k: "limiterName demo_limiter = ''a''" "rl_releaseAfter demo_limiter = 0" "keyFor ''a'' (Limit_new ''b'' 1 60) = ''a:b''"
    by (simp_all add: demo_limiter_def keyFor_def Limit_new_def)
  have "\<exists>rs s. runs_in_turn ?mw ?turns 0 [] = Some (rs, 1, s)"
    by (simp only: runs_in_turn.simps array.single_limit [OF lim refl l(1)])
      (simp add: middleware_eval l [unfolded One_nat_def] k [unfolded One_nat_def] availableIn_def)
  then obtain rs s where run: "runs_in_turn ?mw ?turns 0 [] = Some (rs, 1, s)" by blast
  have "take 1 rs = take 1 [Ran, Ran] \<and> list_all (\<lambda>r. \<exists>d. r = AskedRelease d) (drop 1 rs)"
    using limited_jobs [OF lim refl l(1) _ _ _ _ run, of "[Ran, Ran]"]
    by (simp add: l [unfolded One_nat_def] live_def at_once_gives)
  then show ?thesis unfolding run by simp
qed

end
