(* ===== verification/Civil.thy ===== *)
theory Civil
  imports JsPrelude
begin

text \<open>
  Civil time, \<open>framework/datetime/src/internal/civil.ts\<close>: wall-clock readings encoded as milliseconds on a
  time line without zones.

  The calendar of the language's \<open>Date\<close> is the proleptic Gregorian one: \<open>make_day\<close> is its day number of
  a year, month and day, where the last two may lie outside their ranges, and \<open>year_of_day\<close> and
  \<open>month_of\<close> read a day number.  Readings are within the range of \<open>Date\<close>.
\<close>

section \<open>The calendar\<close>

definition isLeapYear :: "int \<Rightarrow> bool" where
  "isLeapYear year = (year mod 4 = 0 \<and> year mod 100 \<noteq> 0 \<or> year mod 400 = 0)"

text \<open>The day number, from 1970-01-01, of the first of January.\<close>

definition day_from_year :: "int \<Rightarrow> int" where
  "day_from_year y = 365 * (y - 1970) + (y - 1969) div 4 - (y - 1901) div 100 + (y - 1601) div 400"

definition year_length :: "int \<Rightarrow> int" where
  "year_length y = (if isLeapYear y then 366 else 365)"

text \<open>The days of a year before the month, which counts from zero.\<close>

definition month_start :: "bool \<Rightarrow> int \<Rightarrow> int" where
  "month_start leap m =
     (let l = (if leap then 1 else 0) in
      if m \<le> 0 then 0 else if m = 1 then 31 else if m = 2 then 59 + l else if m = 3 then 90 + l
      else if m = 4 then 120 + l else if m = 5 then 151 + l else if m = 6 then 181 + l else if m = 7 then 212 + l
      else if m = 8 then 243 + l else if m = 9 then 273 + l else if m = 10 then 304 + l else if m = 11 then 334 + l
      else 365 + l)"

definition make_day :: "int \<Rightarrow> int \<Rightarrow> int \<Rightarrow> int" where
  "make_day year month0 d =
     (let y = year + month0 div 12 in day_from_year y + month_start (isLeapYear y) (month0 mod 12) + d - 1)"

definition year_of_day :: "int \<Rightarrow> int" where
  "year_of_day d =
     (let n = d + 719162; a = n div 146097; r = n mod 146097;
          c = min 3 (r div 36524); r2 = r - 36524 * c;
          q = r2 div 1461; r3 = r2 mod 1461;
          s = min 3 (r3 div 365)
      in 400 * a + 100 * c + 4 * q + s + 1)"

text \<open>The month, from zero, of a day of the year, from zero.\<close>

definition month_of :: "bool \<Rightarrow> int \<Rightarrow> int" where
  "month_of leap doy =
     (if doy < month_start leap 1 then 0 else if doy < month_start leap 2 then 1 else if doy < month_start leap 3 then 2
      else if doy < month_start leap 4 then 3 else if doy < month_start leap 5 then 4 else if doy < month_start leap 6 then 5
      else if doy < month_start leap 7 then 6 else if doy < month_start leap 8 then 7 else if doy < month_start leap 9 then 8
      else if doy < month_start leap 10 then 9 else if doy < month_start leap 11 then 10 else 11)"

lemma div_succ: "0 < k \<Longrightarrow> (n + 1) div k = n div k + (if (n + 1) mod k = 0 then 1 else (0::int))"
proof -
  assume k: "0 < k"
  have n: "n = k * (n div k) + n mod k" by simp
  have r: "0 \<le> n mod k" "n mod k < k" using k by simp_all
  show ?thesis
  proof (cases "n mod k + 1 = k")
    case True
    moreover have "k * (n div k + 1) = k * (n div k) + k" by (simp add: distrib_left)
    ultimately have "n + 1 = k * (n div k + 1) + 0" using n by linarith
    then show ?thesis using k int_div_pos_eq [of "n + 1" k "n div k + 1" 0] int_mod_pos_eq [of "n + 1" k "n div k + 1" 0] by simp
  next
    case False
    then have "n + 1 = k * (n div k) + (n mod k + 1)" "n mod k + 1 < k" using n r by linarith+
    then show ?thesis
      using int_div_pos_eq [of "n + 1" k "n div k" "n mod k + 1"] int_mod_pos_eq [of "n + 1" k "n div k" "n mod k + 1"] r by simp
  qed
qed

lemma div_pred: "0 < k \<Longrightarrow> y div k = (y - 1) div k + (if y mod k = 0 then 1 else (0::int))"
  using div_succ [of k "y - 1"] by (simp only: diff_add_cancel)

lemma day_from_year_zero: "day_from_year y = 365 * (y - 1) + (y - 1) div 4 - (y - 1) div 100 + (y - 1) div 400 - 719162"
proof -
  have "(y - 1969) div 4 = (y - 1) div 4 - 492" "(y - 1901) div 100 = (y - 1) div 100 - 19" "(y - 1601) div 400 = (y - 1) div 400 - 4"
    using div_mult_self3 [of 4 "-492" "y - 1"] div_mult_self3 [of 100 "-19" "y - 1"] div_mult_self3 [of 400 "-4" "y - 1"] by simp_all
  then show ?thesis by (simp add: day_from_year_def)
qed

lemma year_step:
  "a' = a + x \<Longrightarrow> b' = b + y \<Longrightarrow> c' = c + z \<Longrightarrow>
   (365 * n + a' - b' + c' - k) - (365 * (n - 1) + a - b + c - k) = 365 + x - y + (z :: int)"
  by simp

lemma day_from_year_succ: "day_from_year (y + 1) = day_from_year y + year_length y"
proof -
  have divs: "y div 4 = (y - 1) div 4 + (if y mod 4 = 0 then 1 else 0)"
    "y div 100 = (y - 1) div 100 + (if y mod 100 = 0 then 1 else 0)"
    "y div 400 = (y - 1) div 400 + (if y mod 400 = 0 then 1 else 0)"
    by (rule div_pred [OF zero_less_numeral])+
  have step: "day_from_year (y + 1) - day_from_year y =
      365 + (if y mod 4 = 0 then 1 else 0) - (if y mod 100 = 0 then 1 else 0) + (if y mod 400 = 0 then 1 else 0)"
    unfolding day_from_year_zero add_diff_cancel_right' by (rule year_step [OF divs])
  have "400 dvd y \<Longrightarrow> 100 dvd y" "100 dvd y \<Longrightarrow> 4 dvd y"
    by (rule dvd_trans [of 100 400], simp, assumption, rule dvd_trans [of 4 100], simp, assumption)
  then have sub: "y mod 400 = 0 \<longrightarrow> y mod 100 = 0" "y mod 100 = 0 \<longrightarrow> y mod 4 = 0"
    unfolding dvd_eq_mod_eq_0 by blast+
  define a b c where abc: "a \<longleftrightarrow> y mod 4 = 0" "b \<longleftrightarrow> y mod 100 = 0" "c \<longleftrightarrow> y mod 400 = 0"
  show ?thesis
    using step sub unfolding year_length_def isLeapYear_def abc [symmetric] by (cases a; cases b; cases c) simp_all
qed

lemma year_length_pos: "0 < year_length y"
  by (simp add: year_length_def)

lemma day_from_year_less: "x < y \<Longrightarrow> day_from_year x + year_length x \<le> day_from_year y"
proof (induction "nat (y - x)" arbitrary: y)
  case (Suc n)
  show ?case
  proof (cases "y = x + 1")
    case False
    then have "day_from_year x + year_length x \<le> day_from_year (y - 1)" using Suc by (intro Suc.hyps(1)) auto
    then show ?thesis using day_from_year_succ [of "y - 1"] year_length_pos [of "y - 1"] by simp
  qed (simp add: day_from_year_succ)
qed simp

lemma year_unique:
  assumes "day_from_year y \<le> d" "d < day_from_year y + year_length y" "day_from_year y' \<le> d" "d < day_from_year y' + year_length y'"
  shows "y' = y"
  using assms day_from_year_less [of y y'] day_from_year_less [of y' y] by (cases y y' rule: linorder_cases) auto

lemma year_of_day_bounds: "day_from_year (year_of_day d) \<le> d \<and> d < day_from_year (year_of_day d) + year_length (year_of_day d)"
proof -
  define n a r where n: "n = d + 719162" and a: "a = n div 146097" and r: "r = n mod 146097"
  define c r2 where c: "c = min 3 (r div 36524)" and r2: "r2 = r - 36524 * c"
  define q r3 where q: "q = r2 div 1461" and r3: "r3 = r2 mod 1461"
  define s t where s: "s = min 3 (r3 div 365)" and t: "t = r3 - 365 * s"
  have year: "year_of_day d = 400 * a + 100 * c + 4 * q + s + 1"
    by (simp add: year_of_day_def Let_def n a r c r2 q r3 s)
  have nd: "n = 146097 * a + r" unfolding a r by simp
  have rb: "0 \<le> r" "r < 146097" unfolding r by simp_all
  have "36524 * (r div 36524) \<le> r" "r < 36524 * (r div 36524) + 36524" "0 \<le> r div 36524" using rb by linarith+
  then have cb: "0 \<le> c" "c \<le> 3" "36524 * c \<le> r" "c < 3 \<longrightarrow> r < 36524 * c + 36524" unfolding c by (auto simp: min_def)
  then have r2b: "0 \<le> r2" "r2 \<le> 36524" "c < 3 \<longrightarrow> r2 < 36524" using rb unfolding r2 by linarith+
  have qd: "r2 = 1461 * q + r3" unfolding q r3 by simp
  have r3b: "0 \<le> r3" "r3 < 1461" unfolding r3 by simp_all
  have qb: "0 \<le> q" "q \<le> 24" using r2b qd r3b by linarith+
  have "365 * (r3 div 365) \<le> r3" "r3 < 365 * (r3 div 365) + 365" "0 \<le> r3 div 365" using r3b by linarith+
  then have sb: "0 \<le> s" "s \<le> 3" "365 * s \<le> r3" "s < 3 \<longrightarrow> r3 < 365 * s + 365" unfolding s by (auto simp: min_def)
  then have tb: "0 \<le> t" "t \<le> 365" "s < 3 \<longrightarrow> t < 365" using r3b unfolding t by linarith+
  have Y: "(year_of_day d - 1) div 4 = 100 * a + 25 * c + q" "(year_of_day d - 1) div 100 = 4 * a + c" "(year_of_day d - 1) div 400 = a"
    unfolding year using cb qb sb by linarith+
  have "day_from_year (year_of_day d) = 146097 * a + 36524 * c + 1461 * q + 365 * s - 719162"
    unfolding day_from_year_zero Y by (simp add: year)
  then have start: "day_from_year (year_of_day d) + t = d" using nd qd unfolding n r2 t by linarith
  have "t = 365 \<longrightarrow> isLeapYear (year_of_day d)"
  proof
    assume t365: "t = 365"
    then have s3: "s = 3" using tb sb by linarith
    then have r3v: "r3 = 1460" using t365 unfolding t by simp
    then have "q = 24 \<longrightarrow> c = 3" using qd r2b cb by linarith
    moreover have "q < 24 \<or> q = 24" using qb by linarith
    ultimately consider "q < 24" | "q = 24" "c = 3" by blast
    then show "isLeapYear (year_of_day d)"
    proof cases
      case 1
      have "year_of_day d = 100 * (4 * a + c) + 4 * (q + 1)" unfolding year s3 by simp
      then have "year_of_day d mod 100 = 4 * (q + 1)" by (rule int_mod_pos_eq) (use 1 qb in auto)
      moreover have "year_of_day d = 4 * (25 * (4 * a + c) + q + 1) + 0" unfolding year s3 by simp
      then have "year_of_day d mod 4 = 0" by (rule int_mod_pos_eq) simp_all
      ultimately have "year_of_day d mod 100 = 4 * (q + 1)" "year_of_day d mod 4 = 0" by simp_all
      then show ?thesis using qb by (simp add: isLeapYear_def)
    next
      case 2
      have "year_of_day d = 400 * (a + 1)" unfolding year s3 2 by simp
      then show ?thesis by (simp add: isLeapYear_def)
    qed
  qed
  then have "t < year_length (year_of_day d)" using tb unfolding year_length_def by auto
  then show ?thesis using start tb by linarith
qed

lemma year_of_day_eq: "day_from_year y \<le> d \<Longrightarrow> d < day_from_year y + year_length y \<Longrightarrow> year_of_day d = y"
  using year_of_day_bounds year_unique by blast

lemma month_start_simps [simp]:
  "month_start leap 0 = 0" "month_start leap 1 = 31" "month_start leap 2 = 59 + (if leap then 1 else 0)"
  "month_start leap 3 = 90 + (if leap then 1 else 0)" "month_start leap 4 = 120 + (if leap then 1 else 0)"
  "month_start leap 5 = 151 + (if leap then 1 else 0)" "month_start leap 6 = 181 + (if leap then 1 else 0)"
  "month_start leap 7 = 212 + (if leap then 1 else 0)" "month_start leap 8 = 243 + (if leap then 1 else 0)"
  "month_start leap 9 = 273 + (if leap then 1 else 0)" "month_start leap 10 = 304 + (if leap then 1 else 0)"
  "month_start leap 11 = 334 + (if leap then 1 else 0)" "month_start leap 12 = 365 + (if leap then 1 else 0)"
  by (simp_all add: month_start_def)

lemma month_cases:
  fixes m :: int
  assumes "0 \<le> m" "m < 12"
  obtains "m = 0" | "m = 1" | "m = 2" | "m = 3" | "m = 4" | "m = 5" | "m = 6" | "m = 7" | "m = 8" | "m = 9" | "m = 10" | "m = 11"
proof -
  have "m = 0 \<or> m = 1 \<or> m = 2 \<or> m = 3 \<or> m = 4 \<or> m = 5 \<or> m = 6 \<or> m = 7 \<or> m = 8 \<or> m = 9 \<or> m = 10 \<or> m = 11"
    using assms by presburger
  then show thesis using that by blast
qed

lemma month_of_eq:
  assumes "0 \<le> m" "m < 12" "month_start leap m \<le> doy" "doy < month_start leap (m + 1)"
  shows "month_of leap doy = m"
  using assms(1,2)
  by (cases m rule: month_cases) (use assms in \<open>auto simp: month_of_def split: if_splits\<close>)

lemma month_of_bounds:
  assumes "0 \<le> doy" "doy < (if leap then 366 else 365)"
  shows "0 \<le> month_of leap doy \<and> month_of leap doy < 12 \<and> month_start leap (month_of leap doy) \<le> doy \<and>
    doy < month_start leap (month_of leap doy + 1)"
  using assms by (simp add: month_of_def split: if_splits)

section \<open>Readings\<close>

record DateTimeComponents =
  c_year :: int
  c_month :: int
  c_day :: int
  c_hour :: int
  c_minute :: int
  c_second :: int
  c_millisecond :: int

definition MS_PER_SECOND :: int where "MS_PER_SECOND = 1000"
definition MS_PER_MINUTE :: int where "MS_PER_MINUTE = 60000"
definition MS_PER_HOUR :: int where "MS_PER_HOUR = 3600000"
definition MS_PER_DAY :: int where "MS_PER_DAY = 86400000"
definition MS_PER_WEEK :: int where "MS_PER_WEEK = 604800000"

lemmas ms_defs = MS_PER_SECOND_def MS_PER_MINUTE_def MS_PER_HOUR_def MS_PER_DAY_def MS_PER_WEEK_def

definition encodeCivil :: "DateTimeComponents \<Rightarrow> int" where
  "encodeCivil c =
     make_day (c_year c) (c_month c - 1) (c_day c) * MS_PER_DAY +
     c_hour c * MS_PER_HOUR + c_minute c * MS_PER_MINUTE + c_second c * MS_PER_SECOND + c_millisecond c"

definition decodeCivil :: "int \<Rightarrow> DateTimeComponents" where
  "decodeCivil civilMs =
     (let d = civilMs div MS_PER_DAY; t = civilMs mod MS_PER_DAY; y = year_of_day d;
          doy = d - day_from_year y; m = month_of (isLeapYear y) doy in
      \<lparr>c_year = y, c_month = m + 1, c_day = doy - month_start (isLeapYear y) m + 1,
       c_hour = t div MS_PER_HOUR, c_minute = t mod MS_PER_HOUR div MS_PER_MINUTE,
       c_second = t mod MS_PER_MINUTE div MS_PER_SECOND, c_millisecond = t mod MS_PER_SECOND\<rparr>)"

text \<open>1970-01-01 was a Thursday.\<close>

definition civilWeekday :: "int \<Rightarrow> int" where
  "civilWeekday civilMs = (civilMs div MS_PER_DAY + 4) mod 7"

definition civilDayOfYear :: "int \<Rightarrow> int" where
  "civilDayOfYear civilMs =
     (civilMs - encodeCivil \<lparr>c_year = c_year (decodeCivil civilMs), c_month = 1, c_day = 1, c_hour = 0, c_minute = 0,
        c_second = 0, c_millisecond = 0\<rparr>) div MS_PER_DAY + 1"

text \<open>Day 0 of the next month is the last of this one.\<close>

definition daysInCivilMonth :: "int \<Rightarrow> int \<Rightarrow> int" where
  "daysInCivilMonth year m = c_day (decodeCivil (make_day year m 0 * MS_PER_DAY))"

definition componentsAreInRange :: "DateTimeComponents \<Rightarrow> bool" where
  "componentsAreInRange c =
     (if c_month c < 1 \<or> 12 < c_month c then False
      else if c_day c < 1 \<or> daysInCivilMonth (c_year c) (c_month c) < c_day c then False
      else if c_hour c < 0 \<or> 23 < c_hour c then False
      else if c_minute c < 0 \<or> 59 < c_minute c then False
      else if c_second c < 0 \<or> 59 < c_second c then False
      else if c_millisecond c < 0 \<or> 999 < c_millisecond c then False
      else True)"

definition month_length :: "bool \<Rightarrow> int \<Rightarrow> int" where
  "month_length leap m = month_start leap m - month_start leap (m - 1)"

lemma month_start_mono: "0 \<le> m \<Longrightarrow> m < 12 \<Longrightarrow> 0 \<le> month_start leap m \<and> month_start leap m < month_start leap (m + 1) \<and>
    month_start leap (m + 1) \<le> (if leap then 366 else 365)"
  by (cases m rule: month_cases) auto

text \<open>The day of a reading, and the reading of a day, for months in range.\<close>

lemma decode_day:
  assumes "0 \<le> m" "m < 12" "1 \<le> d" "d \<le> month_length (isLeapYear y) (m + 1)" "0 \<le> t" "t < MS_PER_DAY"
  shows "decodeCivil (make_day y m d * MS_PER_DAY + t) =
    \<lparr>c_year = y, c_month = m + 1, c_day = d, c_hour = t div MS_PER_HOUR, c_minute = t mod MS_PER_HOUR div MS_PER_MINUTE,
     c_second = t mod MS_PER_MINUTE div MS_PER_SECOND, c_millisecond = t mod MS_PER_SECOND\<rparr>"
proof -
  let ?l = "isLeapYear y" and ?D = "make_day y m d"
  have split: "(?D * MS_PER_DAY + t) div MS_PER_DAY = ?D" "(?D * MS_PER_DAY + t) mod MS_PER_DAY = t"
    using int_div_pos_eq [of "?D * MS_PER_DAY + t" MS_PER_DAY ?D t] int_mod_pos_eq [of "?D * MS_PER_DAY + t" MS_PER_DAY ?D t] assms(5,6)
    by (simp_all add: mult.commute)
  have t: "t mod MS_PER_DAY = t" using assms(5,6) by simp
  have D: "?D = day_from_year y + (month_start ?l m + d - 1)" using assms(1,2) by (simp add: make_day_def)
  have doy: "month_start ?l m \<le> month_start ?l m + d - 1" "month_start ?l m + d - 1 < month_start ?l (m + 1)"
    using assms(3,4) by (simp_all add: month_length_def)
  note range = month_start_mono [OF assms(1,2), of ?l]
  have year: "year_of_day ?D = y"
    by (rule year_of_day_eq) (use doy range in \<open>simp_all add: D year_length_def split: if_splits\<close>)
  have month: "month_of ?l (month_start ?l m + d - 1) = m" by (rule month_of_eq [OF assms(1,2) doy])
  have "?D - day_from_year y = month_start ?l m + d - 1" by (simp add: D)
  then show ?thesis by (simp add: decodeCivil_def Let_def split t year month)
qed

lemma time_of_day:
  assumes "0 \<le> mi" "mi < 60" "0 \<le> sec" "sec < 60" "0 \<le> ms" "ms < (1000::int)" "0 \<le> h" "h < 24"
  defines "t \<equiv> h * MS_PER_HOUR + mi * MS_PER_MINUTE + sec * MS_PER_SECOND + ms"
  shows "t div MS_PER_HOUR = h" "t mod MS_PER_HOUR div MS_PER_MINUTE = mi" "t mod MS_PER_MINUTE div MS_PER_SECOND = sec"
    "t mod MS_PER_SECOND = ms" "0 \<le> t" "t < MS_PER_DAY"
proof -
  let ?m = "mi * MS_PER_MINUTE + sec * MS_PER_SECOND + ms" and ?s = "sec * MS_PER_SECOND + ms"
  have s: "0 \<le> ?s" "?s < MS_PER_MINUTE" using assms by (simp_all add: ms_defs)
  have m: "0 \<le> ?m" "?m < MS_PER_HOUR" using assms by (simp_all add: ms_defs)
  have t1: "t = MS_PER_HOUR * h + ?m" by (simp add: t_def)
  show "t div MS_PER_HOUR = h" by (rule int_div_pos_eq [OF t1 m])
  have "t mod MS_PER_HOUR = ?m" by (rule int_mod_pos_eq [OF t1 m])
  moreover have "?m div MS_PER_MINUTE = mi" by (rule int_div_pos_eq [OF _ s]) simp
  ultimately show "t mod MS_PER_HOUR div MS_PER_MINUTE = mi" by simp
  have "t = MS_PER_MINUTE * (60 * h + mi) + ?s" by (simp add: t_def ms_defs)
  then have "t mod MS_PER_MINUTE = ?s" by (rule int_mod_pos_eq [OF _ s])
  moreover have "?s div MS_PER_SECOND = sec" by (rule int_div_pos_eq [of _ _ _ ms]) (use assms in \<open>simp_all add: ms_defs\<close>)
  ultimately show "t mod MS_PER_MINUTE div MS_PER_SECOND = sec" by simp
  have "t = MS_PER_SECOND * (3600 * h + 60 * mi + sec) + ms" by (simp add: t_def ms_defs)
  then show "t mod MS_PER_SECOND = ms" by (rule int_mod_pos_eq) (use assms in \<open>simp_all add: ms_defs\<close>)
  show "0 \<le> t" "t < MS_PER_DAY" using assms m by (simp_all add: t1) (simp_all add: ms_defs)
qed

lemma last_day: "1 \<le> m \<Longrightarrow> m \<le> 12 \<Longrightarrow> make_day y m 0 = make_day y (m - 1) (month_length (isLeapYear y) m)"
  by (cases "m - 1" rule: month_cases) (auto simp: make_day_def month_length_def day_from_year_succ year_length_def)

lemma month_length_pos: "1 \<le> m \<Longrightarrow> m \<le> 12 \<Longrightarrow> 1 \<le> month_length leap m"
  using month_start_mono [of "m - 1" leap] by (simp add: month_length_def)

lemma daysInCivilMonth_eq: "1 \<le> m \<Longrightarrow> m \<le> 12 \<Longrightarrow> daysInCivilMonth y m = month_length (isLeapYear y) m"
  using decode_day [of "m - 1" "month_length (isLeapYear y) m" y 0] month_length_pos [of m "isLeapYear y"]
  by (simp add: daysInCivilMonth_def last_day MS_PER_DAY_def)

lemma decode_encode:
  assumes "componentsAreInRange c"
  shows "decodeCivil (encodeCivil c) = c"
proof -
  have r: "1 \<le> c_month c" "c_month c \<le> 12" "1 \<le> c_day c" "c_day c \<le> daysInCivilMonth (c_year c) (c_month c)"
    "0 \<le> c_hour c" "c_hour c < 24" "0 \<le> c_minute c" "c_minute c < 60" "0 \<le> c_second c" "c_second c < 60"
    "0 \<le> c_millisecond c" "c_millisecond c < 1000"
    using assms by (auto simp: componentsAreInRange_def split: if_splits)
  note t = time_of_day [OF r(7-12) r(5,6)]
  have "encodeCivil c = make_day (c_year c) (c_month c - 1) (c_day c) * MS_PER_DAY +
      (c_hour c * MS_PER_HOUR + c_minute c * MS_PER_MINUTE + c_second c * MS_PER_SECOND + c_millisecond c)"
    by (simp add: encodeCivil_def)
  then show ?thesis
    using decode_day [of "c_month c - 1" "c_day c" "c_year c", OF _ _ _ _ t(5,6)] r t(1-4)
    by (simp add: daysInCivilMonth_eq)
qed

lemma decode_in_range: "componentsAreInRange (decodeCivil ms)"
  and encode_decode: "encodeCivil (decodeCivil ms) = ms"
proof -
  define d t where dt: "d = ms div MS_PER_DAY" "t = ms mod MS_PER_DAY"
  define y where y: "y = year_of_day d"
  define doy where doy: "doy = d - day_from_year y"
  define m where m: "m = month_of (isLeapYear y) doy"
  have D: "0 \<le> doy" "doy < (if isLeapYear y then 366 else 365)"
    using year_of_day_bounds [of d] by (simp_all add: doy y year_length_def)
  note M = month_of_bounds [OF D, folded m]
  have c: "decodeCivil ms = \<lparr>c_year = y, c_month = m + 1, c_day = doy - month_start (isLeapYear y) m + 1,
      c_hour = t div MS_PER_HOUR, c_minute = t mod MS_PER_HOUR div MS_PER_MINUTE,
      c_second = t mod MS_PER_MINUTE div MS_PER_SECOND, c_millisecond = t mod MS_PER_SECOND\<rparr>"
    by (simp add: decodeCivil_def Let_def dt y doy m)
  have t: "0 \<le> t" "t < MS_PER_DAY" by (simp_all add: dt MS_PER_DAY_def)
  have h: "0 \<le> t div MS_PER_HOUR" "t div MS_PER_HOUR < 24"
    using t by (simp_all add: ms_defs)
  have bounds: "0 \<le> t mod MS_PER_HOUR div MS_PER_MINUTE" "t mod MS_PER_HOUR div MS_PER_MINUTE < 60"
    "0 \<le> t mod MS_PER_MINUTE div MS_PER_SECOND" "t mod MS_PER_MINUTE div MS_PER_SECOND < 60"
    "0 \<le> t mod MS_PER_SECOND" "t mod MS_PER_SECOND < 1000"
    by (simp_all add: ms_defs)
  show "componentsAreInRange (decodeCivil ms)"
    unfolding componentsAreInRange_def c using M h bounds
    by (simp add: daysInCivilMonth_eq month_length_def)
  have days: "make_day y m (doy - month_start (isLeapYear y) m + 1) = d" using M by (simp add: make_day_def doy)
  have "t div MS_PER_HOUR * MS_PER_HOUR + t mod MS_PER_HOUR div MS_PER_MINUTE * MS_PER_MINUTE +
      t mod MS_PER_MINUTE div MS_PER_SECOND * MS_PER_SECOND + t mod MS_PER_SECOND = t"
  proof -
    have "t mod MS_PER_HOUR mod MS_PER_MINUTE = t mod MS_PER_MINUTE" "t mod MS_PER_MINUTE mod MS_PER_SECOND = t mod MS_PER_SECOND"
      unfolding ms_defs by (simp_all add: mod_mod_cancel)
    then show ?thesis
      using div_mult_mod_eq [of t MS_PER_HOUR] div_mult_mod_eq [of "t mod MS_PER_HOUR" MS_PER_MINUTE]
        div_mult_mod_eq [of "t mod MS_PER_MINUTE" MS_PER_SECOND] by linarith
  qed
  moreover have "d * MS_PER_DAY + t = ms" by (simp add: dt)
  ultimately show "encodeCivil (decodeCivil ms) = ms" by (simp add: encodeCivil_def c days)
qed

text \<open>
  C34. Wall-clock readings and civil milliseconds are two forms of the same thing: every millisecond decodes to
  a reading in range that encodes back to it, and every reading in range is the decoding of its encoding,
  in every year, leap years and the years before 1970 included.
\<close>

theorem civil_roundtrip:
  "componentsAreInRange (decodeCivil ms) \<and> encodeCivil (decodeCivil ms) = ms \<and>
   (componentsAreInRange c \<longrightarrow> decodeCivil (encodeCivil c) = c)"
  using decode_in_range encode_decode decode_encode by blast

theorem civil_roundtrip_witness:
  "decodeCivil (encodeCivil \<lparr>c_year = 2024, c_month = 2, c_day = 29, c_hour = 23, c_minute = 59, c_second = 59, c_millisecond = 999\<rparr>) =
   \<lparr>c_year = 2024, c_month = 2, c_day = 29, c_hour = 23, c_minute = 59, c_second = 59, c_millisecond = 999\<rparr>"
  by (rule civil_roundtrip [THEN conjunct2, THEN conjunct2, rule_format])
    (simp add: componentsAreInRange_def daysInCivilMonth_eq month_length_def isLeapYear_def)

end
