(* ===== verification/Zones.thy ===== *)
theory Zones
  imports Civil
begin

text \<open>
  The zone arithmetic of \<open>framework/datetime/src/internal/adapters/timezone-adapter.ts\<close>: from an instant to
  the wall clock of a zone and back.

  The rules of the zones are the platform's: \<open>Intl\<close> gives the wall clock at an instant, a parameter.  An
  offset is a function from instants to milliseconds.
\<close>

datatype Disambiguation = Compatible | Earlier | Later | Reject

datatype ambiguity = Ambiguous | Nonexistent

text \<open>What a formatter of the zone gives: the year counts from 1 in its era.\<close>

record ZoneParts =
  era_bc :: bool
  z_year :: int
  z_month :: int
  z_day :: int
  z_hour :: int
  z_minute :: int
  z_second :: int

definition offsetFor :: "(int \<Rightarrow> ZoneParts) \<Rightarrow> int \<Rightarrow> int" where
  "offsetFor formatToParts instant =
     (let p = formatToParts instant in
      encodeCivil \<lparr>c_year = (if era_bc p then 1 - z_year p else z_year p), c_month = z_month p, c_day = z_day p,
        c_hour = z_hour p mod 24, c_minute = z_minute p, c_second = z_second p, c_millisecond = 0\<rparr> -
      instant div MS_PER_SECOND * MS_PER_SECOND)"

definition civilMsFromInstant :: "(int \<Rightarrow> int) \<Rightarrow> int \<Rightarrow> int" where
  "civilMsFromInstant off instant = instant + off instant"

definition componentsFromInstant :: "(int \<Rightarrow> int) \<Rightarrow> int \<Rightarrow> DateTimeComponents" where
  "componentsFromInstant off instant = decodeCivil (civilMsFromInstant off instant)"

text \<open>The offsets in force a day before, at, and a day after the reading taken as an instant.\<close>

definition zone_probes :: "(int \<Rightarrow> int) \<Rightarrow> int \<Rightarrow> int list" where
  "zone_probes off civilMs = remdups [off (civilMs - MS_PER_DAY), off civilMs, off (civilMs + MS_PER_DAY)]"

definition min_of :: "int list \<Rightarrow> int" where "min_of xs = fold min (tl xs) (hd xs)"
definition max_of :: "int list \<Rightarrow> int" where "max_of xs = fold max (tl xs) (hd xs)"

definition resolveOverlap :: "int list \<Rightarrow> Disambiguation \<Rightarrow> ambiguity + int" where
  "resolveOverlap candidates disambiguation =
     (case disambiguation of
        Later \<Rightarrow> Inr (max_of candidates)
      | Reject \<Rightarrow> Inl Ambiguous
      | Compatible \<Rightarrow> Inr (min_of candidates)
      | Earlier \<Rightarrow> Inr (min_of candidates))"

definition resolveGap :: "int \<Rightarrow> int list \<Rightarrow> Disambiguation \<Rightarrow> ambiguity + int" where
  "resolveGap civilMs offsets disambiguation =
     (let offsetBefore = min_of offsets; offsetAfter = max_of offsets in
      if disambiguation = Reject then Inl Nonexistent
      else Inr (if disambiguation = Earlier then civilMs - offsetAfter else civilMs - offsetBefore))"

definition instantFromCivilMs :: "(int \<Rightarrow> int) \<Rightarrow> int \<Rightarrow> Disambiguation \<Rightarrow> ambiguity + int" where
  "instantFromCivilMs off civilMs disambiguation =
     (let probes = zone_probes off civilMs;
          valid = filter (\<lambda>candidate. off candidate = civilMs - candidate) (map (\<lambda>offset. civilMs - offset) probes) in
      if length valid = 1 then Inr (hd valid)
      else if length valid > 1 then resolveOverlap valid disambiguation
      else resolveGap civilMs probes disambiguation)"

definition instantFromComponents :: "(int \<Rightarrow> int) \<Rightarrow> DateTimeComponents \<Rightarrow> Disambiguation \<Rightarrow> ambiguity + int" where
  "instantFromComponents off c disambiguation = instantFromCivilMs off (encodeCivil c) disambiguation"

section \<open>The offset read from a formatter\<close>

text \<open>
  A formatter that shows the wall clock of an offset: its reading has the second as its least unit, and
  midnight is hour 0 or 24.
\<close>

definition shows_clock :: "(int \<Rightarrow> ZoneParts) \<Rightarrow> (int \<Rightarrow> int) \<Rightarrow> bool" where
  "shows_clock formatToParts off \<longleftrightarrow>
     (\<forall>t. let c = decodeCivil (t + off t); p = formatToParts t in
        (if era_bc p then 1 - z_year p else z_year p) = c_year c \<and> z_month p = c_month c \<and> z_day p = c_day c \<and>
        z_hour p mod 24 = c_hour c \<and> z_minute p = c_minute c \<and> z_second p = c_second c)"

lemma decode_millisecond: "c_millisecond (decodeCivil ms) = ms mod 1000"
proof -
  have "ms mod MS_PER_DAY mod MS_PER_SECOND = ms mod MS_PER_SECOND" unfolding ms_defs by (simp add: mod_mod_cancel)
  then show ?thesis by (simp add: decodeCivil_def Let_def MS_PER_SECOND_def)
qed

lemma offsetFor_exact:
  assumes "shows_clock formatToParts off" "off t mod 1000 = 0"
  shows "offsetFor formatToParts t = off t"
proof -
  let ?c = "decodeCivil (t + off t)"
  have "offsetFor formatToParts t = encodeCivil (?c\<lparr>c_millisecond := 0\<rparr>) - t div 1000 * 1000"
    using assms(1) [unfolded shows_clock_def Let_def, rule_format, of t]
    by (cases ?c) (simp add: offsetFor_def Let_def MS_PER_SECOND_def)
  also have "encodeCivil (?c\<lparr>c_millisecond := 0\<rparr>) = encodeCivil ?c - c_millisecond ?c"
    by (simp add: encodeCivil_def)
  also have "\<dots> = t + off t - (t + off t) mod 1000" by (simp add: encode_decode decode_millisecond)
  also have "(t + off t) mod 1000 = t mod 1000" using assms(2) mod_add_right_eq [of t "off t" 1000] by simp
  finally show ?thesis using minus_mod_eq_div_mult [of t 1000] by simp
qed

section \<open>Back from the wall clock\<close>

text \<open>
  Around a reading the zone changes its offset at most once, from \<open>before\<close> to \<open>after\<close> at the instant
  \<open>change\<close>, and its offsets are less than a day.
\<close>

definition changes_once :: "(int \<Rightarrow> int) \<Rightarrow> int \<Rightarrow> int \<Rightarrow> int \<Rightarrow> int \<Rightarrow> bool" where
  "changes_once off civilMs change before after \<longleftrightarrow>
     (\<forall>t. civilMs - MS_PER_DAY \<le> t \<longrightarrow> t \<le> civilMs + MS_PER_DAY \<longrightarrow> off t = (if t < change then before else after)) \<and>
     (\<forall>t. \<bar>off t\<bar> < MS_PER_DAY) \<and> \<bar>before\<bar> < MS_PER_DAY \<and> \<bar>after\<bar> < MS_PER_DAY"

text \<open>The instants that read as given: the first one before the change, the other from it on.\<close>

definition first_reading :: "int \<Rightarrow> int \<Rightarrow> int \<Rightarrow> bool" where
  "first_reading civilMs change before = (civilMs - before < change)"

definition second_reading :: "int \<Rightarrow> int \<Rightarrow> int \<Rightarrow> bool" where
  "second_reading civilMs change after = (change \<le> civilMs - after)"

lemma changes_onceD:
  assumes "changes_once off c T b a" "c - MS_PER_DAY \<le> t" "t \<le> c + MS_PER_DAY"
  shows "off t = (if t < T then b else a)"
  using assms by (simp add: changes_once_def)

lemma candidate_offsets:
  assumes "changes_once off c T b a"
  shows "off (c - b) = (if first_reading c T b then b else a)" "off (c - a) = (if second_reading c T a then a else b)"
    "off (c - MS_PER_DAY) = (if c - MS_PER_DAY < T then b else a)" "off c = (if c < T then b else a)"
    "off (c + MS_PER_DAY) = (if c + MS_PER_DAY < T then b else a)"
  using changes_onceD [OF assms] assms by (auto simp: changes_once_def first_reading_def second_reading_def)

lemma reads_as:
  assumes "changes_once off c T b a"
  shows "t + off t = c \<longleftrightarrow> t = c - b \<and> first_reading c T b \<or> t = c - a \<and> second_reading c T a"
proof (cases "c - MS_PER_DAY \<le> t \<and> t \<le> c + MS_PER_DAY")
  case True
  then show ?thesis using changes_onceD [OF assms, of t] by (auto simp: first_reading_def second_reading_def split: if_splits)
next
  case False
  moreover have "\<bar>off t\<bar> < MS_PER_DAY" "\<bar>b\<bar> < MS_PER_DAY" "\<bar>a\<bar> < MS_PER_DAY" using assms by (simp_all add: changes_once_def)
  ultimately show ?thesis by (auto simp: abs_less_iff)
qed

lemma probes_of:
  assumes "changes_once off c T b a"
  shows "zone_probes off c = (if T \<le> c - MS_PER_DAY then [a] else if c + MS_PER_DAY < T then [b] else remdups [b, a])"
  using candidate_offsets(3-5) [OF assms] by (auto simp: zone_probes_def MS_PER_DAY_def)

lemma instantFromCivilMs_cases:
  assumes "changes_once off c T b a"
  shows "instantFromCivilMs off c pol =
    (if first_reading c T b \<and> second_reading c T a \<and> b \<noteq> a then resolveOverlap [c - b, c - a] pol
     else if first_reading c T b then Inr (c - b)
     else if second_reading c T a then Inr (c - a)
     else resolveGap c [b, a] pol)"
proof -
  note offs = candidate_offsets(1,2) [OF assms]
  have abs: "\<bar>b\<bar> < MS_PER_DAY" "\<bar>a\<bar> < MS_PER_DAY" using assms by (simp_all add: changes_once_def)
  consider "T \<le> c - MS_PER_DAY" | "c - MS_PER_DAY < T" "c + MS_PER_DAY < T" | "c - MS_PER_DAY < T" "T \<le> c + MS_PER_DAY" by linarith
  then show ?thesis
  proof cases
    case 1
    then have fs: "\<not> first_reading c T b" "second_reading c T a" using abs by (auto simp: first_reading_def second_reading_def)
    then show ?thesis using 1 offs by (simp add: instantFromCivilMs_def probes_of [OF assms])
  next
    case 2
    then have fs: "first_reading c T b" "\<not> second_reading c T a" using abs by (auto simp: first_reading_def second_reading_def)
    then show ?thesis using 2 offs by (simp add: instantFromCivilMs_def probes_of [OF assms])
  next
    case 3
    have "b = a \<Longrightarrow> first_reading c T b \<or> second_reading c T a" by (auto simp: first_reading_def second_reading_def)
    then show ?thesis using 3 offs by (auto simp: instantFromCivilMs_def probes_of [OF assms])
  qed
qed

text \<open>
  C35. Resolving a wall-clock reading in a zone that changes its offset once around it.  If the reading occurs,
  the result is an instant that reads as it, the last such for \<open>later\<close> and the first otherwise; only \<open>reject\<close>
  refuses one that occurs twice.  If it does not occur, \<open>reject\<close> refuses it, \<open>earlier\<close> moves the reading back by
  the length of the gap, before the change, and the others move it forward by as much, after the change.
\<close>

theorem instant_resolution:
  assumes "changes_once off civilMs change before after"
  shows "case instantFromCivilMs off civilMs policy of
      Inr t \<Rightarrow>
        if \<exists>u. u + off u = civilMs then t + off t = civilMs \<and> (\<forall>u. u + off u = civilMs \<longrightarrow> (if policy = Later then u \<le> t else t \<le> u))
        else if policy = Earlier then t + off t = civilMs - (after - before) \<and> t < change \<and> before < after
        else t + off t = civilMs + (after - before) \<and> change \<le> t \<and> before < after
    | Inl Ambiguous \<Rightarrow> policy = Reject \<and> (\<exists>u v. u + off u = civilMs \<and> v + off v = civilMs \<and> u < v)
    | Inl Nonexistent \<Rightarrow> policy = Reject \<and> (\<forall>u. u + off u \<noteq> civilMs)"
proof -
  note offs = candidate_offsets(1,2) [OF assms] and reads = reads_as [OF assms] and cases = instantFromCivilMs_cases [OF assms]
  let ?f = "first_reading civilMs change before" and ?s = "second_reading civilMs change after"
  consider "?f" "?s" "before \<noteq> after" | "?f" "\<not> (?s \<and> before \<noteq> after)" | "\<not> ?f" "?s" | "\<not> ?f" "\<not> ?s" by blast
  then show ?thesis
  proof cases
    case 1
    then have lt: "after < before" by (simp add: first_reading_def second_reading_def)
    have both: "(u + off u = civilMs) = (u = civilMs - before \<or> u = civilMs - after)" for u using reads 1 by auto
    have first: "\<exists>u v. (u = civilMs - before \<or> u = civilMs - after) \<and> (v = civilMs - before \<or> v = civilMs - after) \<and> u < v"
      by (rule exI [of _ "civilMs - before"], rule exI [of _ "civilMs - after"]) (use lt in simp)
    show ?thesis unfolding cases both using 1 lt first
      by (cases policy) (auto simp: resolveOverlap_def min_of_def max_of_def)
  next
    case 2
    then show ?thesis using reads by (auto simp: cases)
  next
    case 3
    then show ?thesis using reads by (auto simp: cases)
  next
    case 4
    then have lt: "before < after" by (simp add: first_reading_def second_reading_def)
    have none: "\<not> (\<exists>u. u + off u = civilMs)" using reads 4 by simp
    have later: "civilMs - before + off (civilMs - before) = civilMs + (after - before)" "change \<le> civilMs - before"
      "civilMs - after + off (civilMs - after) = civilMs - (after - before)" "civilMs - after < change"
      using offs 4 by (simp_all add: first_reading_def second_reading_def)
    show ?thesis
      using none later lt 4 by (cases policy) (simp_all add: cases resolveGap_def Let_def min_of_def max_of_def)
  qed
qed

text \<open>A zone that springs forward by an hour, at an instant that reads 02:00 before and 03:00 after.\<close>

definition spring :: "int \<Rightarrow> int" where
  "spring t = (if t < 7200000 then 0 else 3600000)"

theorem instant_resolution_witness:
  "instantFromCivilMs spring 9000000 Compatible = Inr 9000000 \<and> (9000000 :: int) + spring 9000000 = 9000000 + 3600000"
proof -
  have once: "changes_once spring 9000000 7200000 0 3600000" by (simp add: changes_once_def spring_def MS_PER_DAY_def)
  have res: "instantFromCivilMs spring 9000000 Compatible = Inr 9000000"
    by (simp add: instantFromCivilMs_cases [OF once] first_reading_def second_reading_def resolveGap_def min_of_def)
  have "\<not> (\<exists>u. u + spring u = 9000000)" by (auto simp: spring_def)
  then show ?thesis using instant_resolution [OF once, of Compatible] res by simp
qed

end
