(* ===== verification/CivilUnits.thy ===== *)
theory CivilUnits
  imports Civil
begin

text \<open>
  Calendar units on the civil time line: the parts of \<open>framework/datetime/src/date-time.ts\<close> that truncate a
  reading to a unit, and \<open>internal/adapters/arithmetic-adapter.ts\<close>, whose arithmetic is that of the
  package \<open>date-fns\<close>, a record of functions here.  \<open>documented\<close> says what its documentation promises.

  Every unit cuts the civil time line at a sequence of starts (\<open>boundaries\<close>), which is what the lemmas on
  truncation rest on.
\<close>

section \<open>The library of the calendar\<close>

text \<open>Each takes a civil timestamp and a whole amount.\<close>

record date_fns =
  addDays' :: "int \<Rightarrow> int \<Rightarrow> int"
  addWeeks' :: "int \<Rightarrow> int \<Rightarrow> int"
  addMonths' :: "int \<Rightarrow> int \<Rightarrow> int"
  addQuarters' :: "int \<Rightarrow> int \<Rightarrow> int"
  addYears' :: "int \<Rightarrow> int \<Rightarrow> int"

definition addCivilMonths :: "date_fns \<Rightarrow> int \<Rightarrow> int \<Rightarrow> int" where
  "addCivilMonths lib civilMs amount = addMonths' lib civilMs amount"

definition addCivilQuarters :: "date_fns \<Rightarrow> int \<Rightarrow> int \<Rightarrow> int" where
  "addCivilQuarters lib civilMs amount = addQuarters' lib civilMs amount"

definition addCivilYears :: "date_fns \<Rightarrow> int \<Rightarrow> int \<Rightarrow> int" where
  "addCivilYears lib civilMs amount = addYears' lib civilMs amount"

definition addCivilDays :: "date_fns \<Rightarrow> int \<Rightarrow> int \<Rightarrow> int" where
  "addCivilDays lib civilMs amount = addDays' lib civilMs amount"

definition addCivilWeeks :: "date_fns \<Rightarrow> int \<Rightarrow> int \<Rightarrow> int" where
  "addCivilWeeks lib civilMs amount = addWeeks' lib civilMs amount"

text \<open>The same day of the month some months later, or the last day of that month if it is shorter.\<close>

definition shift_months :: "int \<Rightarrow> int \<Rightarrow> int" where
  "shift_months civilMs n =
     (let c = decodeCivil civilMs; total = c_year c * 12 + (c_month c - 1) + n; y = total div 12; m = total mod 12 + 1 in
      encodeCivil (c\<lparr>c_year := y, c_month := m, c_day := min (c_day c) (daysInCivilMonth y m)\<rparr>))"

definition documented :: "date_fns \<Rightarrow> bool" where
  "documented lib \<longleftrightarrow>
     (\<forall>c n. addDays' lib c n = c + n * MS_PER_DAY) \<and> (\<forall>c n. addWeeks' lib c n = c + n * MS_PER_WEEK) \<and>
     (\<forall>c n. addMonths' lib c n = shift_months c n) \<and> (\<forall>c n. addQuarters' lib c n = shift_months c (3 * n)) \<and>
     (\<forall>c n. addYears' lib c n = shift_months c (12 * n))"

text \<open>A library that keeps these promises.\<close>

definition reference_fns :: date_fns where
  "reference_fns = \<lparr>addDays' = \<lambda>c n. c + n * MS_PER_DAY, addWeeks' = \<lambda>c n. c + n * MS_PER_WEEK, addMonths' = shift_months,
     addQuarters' = \<lambda>c n. shift_months c (3 * n), addYears' = \<lambda>c n. shift_months c (12 * n)\<rparr>"

lemma reference_documented: "documented reference_fns"
  by (simp add: documented_def reference_fns_def)

lemma documentedD:
  assumes "documented lib"
  shows "addCivilDays lib c n = c + n * MS_PER_DAY" "addCivilWeeks lib c n = c + n * MS_PER_WEEK"
    "addCivilMonths lib c n = shift_months c n" "addCivilQuarters lib c n = shift_months c (3 * n)"
    "addCivilYears lib c n = shift_months c (12 * n)"
  using assms by (simp_all add: documented_def addCivilDays_def addCivilWeeks_def addCivilMonths_def addCivilQuarters_def addCivilYears_def)

section \<open>Units\<close>

datatype TimeUnit = Millisecond | Second | Minute | Hour | Day | Week | Month | Quarter | Year | Decade | Century

text \<open>The remainder that is not negative, which the code computes from the one that may be.\<close>

definition modulo :: "int \<Rightarrow> int \<Rightarrow> int" where
  "modulo v d = v mod d"

definition startYearOf :: "int \<Rightarrow> TimeUnit \<Rightarrow> int" where
  "startYearOf year unit =
     (if unit = Year then year else if unit = Decade then year - modulo year 10 else year - modulo (year - 1) 100)"

definition quarter_of :: "int \<Rightarrow> int" where
  "quarter_of m = (m - 1) div 3 + 1"

text \<open>A reading's civil milliseconds, cut to the start of the unit; weeks start on the given day.\<close>

definition truncatedCivilMs :: "date_fns \<Rightarrow> int \<Rightarrow> TimeUnit \<Rightarrow> int \<Rightarrow> int" where
  "truncatedCivilMs lib weekStartsOn unit civilMs =
     (let c = decodeCivil civilMs; midnight = c\<lparr>c_hour := 0, c_minute := 0, c_second := 0, c_millisecond := 0\<rparr> in
      case unit of
        Millisecond \<Rightarrow> civilMs
      | Second \<Rightarrow> encodeCivil (c\<lparr>c_millisecond := 0\<rparr>)
      | Minute \<Rightarrow> encodeCivil (c\<lparr>c_second := 0, c_millisecond := 0\<rparr>)
      | Hour \<Rightarrow> encodeCivil (c\<lparr>c_minute := 0, c_second := 0, c_millisecond := 0\<rparr>)
      | Day \<Rightarrow> encodeCivil midnight
      | Week \<Rightarrow> addCivilDays lib (encodeCivil midnight) (- ((civilWeekday civilMs - weekStartsOn + 7) mod 7))
      | Month \<Rightarrow> encodeCivil (midnight\<lparr>c_day := 1\<rparr>)
      | Quarter \<Rightarrow> encodeCivil (midnight\<lparr>c_month := (quarter_of (c_month c) - 1) * 3 + 1, c_day := 1\<rparr>)
      | _ \<Rightarrow> encodeCivil (midnight\<lparr>c_year := startYearOf (c_year c) unit, c_month := 1, c_day := 1\<rparr>))"

definition endCivilMs :: "date_fns \<Rightarrow> int \<Rightarrow> TimeUnit \<Rightarrow> int \<Rightarrow> int" where
  "endCivilMs lib weekStartsOn unit civilMs =
     (let start = truncatedCivilMs lib weekStartsOn unit civilMs in
      case unit of
        Millisecond \<Rightarrow> start
      | Second \<Rightarrow> start + MS_PER_SECOND - 1
      | Minute \<Rightarrow> start + MS_PER_MINUTE - 1
      | Hour \<Rightarrow> start + MS_PER_HOUR - 1
      | Day \<Rightarrow> start + MS_PER_DAY - 1
      | Week \<Rightarrow> start + MS_PER_WEEK - 1
      | Month \<Rightarrow> addCivilMonths lib start 1 - 1
      | Quarter \<Rightarrow> addCivilQuarters lib start 1 - 1
      | Year \<Rightarrow> addCivilYears lib start 1 - 1
      | Decade \<Rightarrow> addCivilYears lib start 10 - 1
      | Century \<Rightarrow> addCivilYears lib start 100 - 1)"

section \<open>A time line cut at boundaries\<close>

locale boundaries =
  fixes start :: "int \<Rightarrow> int" and index :: "int \<Rightarrow> int"
  assumes start_le: "start (index c) \<le> c"
    and less_next: "c < start (index c + 1)"
    and start_less: "start i < start (i + 1)"
begin

lemma start_mono: "i \<le> j \<Longrightarrow> start i \<le> start j"
proof (induction "nat (j - i)" arbitrary: j)
  case (Suc n)
  then have "start i \<le> start (j - 1)" by (intro Suc.hyps(1)) auto
  then show ?case using start_less [of "j - 1"] by simp
qed simp

lemma index_unique:
  assumes "start i \<le> c" "c < start (i + 1)"
  shows "index c = i"
proof (rule ccontr)
  assume "index c \<noteq> i"
  then consider "index c + 1 \<le> i" | "i + 1 \<le> index c" by linarith
  then show False
    using start_mono [of "index c + 1" i] start_mono [of "i + 1" "index c"] start_le [of c] less_next [of c] assms by cases auto
qed

lemma index_start [simp]: "index (start i) = i"
  by (rule index_unique) (simp_all add: start_less)

lemma same_index: "index d = index c \<longleftrightarrow> start (index c) \<le> d \<and> d < start (index c + 1)"
  using index_unique [of "index c" d] start_le [of d] less_next [of d] by auto

lemma start_inject: "start i = start j \<longleftrightarrow> i = j"
  using index_start [of i] index_start [of j] by metis

end

section \<open>Months\<close>

text \<open>Months are numbered from January of year 0; a number is that of a reading, or has a first day.\<close>

definition month_number :: "int \<Rightarrow> int" where
  "month_number civilMs = c_year (decodeCivil civilMs) * 12 + (c_month (decodeCivil civilMs) - 1)"

definition month_first :: "int \<Rightarrow> int" where
  "month_first n = make_day 0 n 1 * MS_PER_DAY"

lemma make_day_numbered: "make_day y m d = make_day 0 (12 * y + m) d"
  by (simp add: make_day_def)

lemma make_day_from_first: "make_day y m d = make_day y m 1 + (d - 1)"
  by (simp add: make_day_def Let_def)

lemma year_turn: "(n + 1) div 12 = (n :: int) div 12 + (if n mod 12 = 11 then 1 else 0)" "(n + 1) mod 12 = (if n mod 12 = 11 then 0 else n mod 12 + 1)"
proof -
  define q r where qr: "q = n div 12" "r = n mod 12"
  have n: "n = 12 * q + r" "0 \<le> r" "r < 12" unfolding qr by simp_all
  have last: "n + 1 = 12 * (q + 1) + 0" if "r = 11" using n(1) that by simp
  have inner: "n + 1 = 12 * q + (r + 1)" using n(1) by simp
  show "(n + 1) div 12 = n div 12 + (if n mod 12 = 11 then 1 else 0)"
    using int_div_pos_eq [OF last] int_div_pos_eq [OF inner] n(2,3) unfolding qr [symmetric] by (cases "r = 11") simp_all
  show "(n + 1) mod 12 = (if n mod 12 = 11 then 0 else n mod 12 + 1)"
    using int_mod_pos_eq [OF last] int_mod_pos_eq [OF inner] n(2,3) unfolding qr [symmetric] by (cases "r = 11") simp_all
qed

text \<open>The days of the month with a number.\<close>

definition month_days :: "int \<Rightarrow> int" where
  "month_days n = month_length (isLeapYear (n div 12)) (n mod 12 + 1)"

lemma month_days_pos: "1 \<le> month_days n"
  unfolding month_days_def by (rule month_length_pos) simp_all

lemma make_day_next: "make_day 0 (n + 1) 1 = make_day 0 n 1 + month_days n"
proof (cases "n mod 12 = 11")
  case True
  then show ?thesis
    by (simp add: make_day_def month_days_def month_length_def year_turn day_from_year_succ year_length_def)
qed (simp add: make_day_def month_days_def month_length_def year_turn Let_def)

lemma month_first_next: "month_first (n + 1) = month_first n + month_days n * MS_PER_DAY"
  unfolding month_first_def make_day_next by (rule distrib_right)

lemma month_first_less: "month_first n < month_first (n + 1)"
  using month_days_pos [of n] unfolding month_first_next MS_PER_DAY_def by linarith

text \<open>The parts of a reading.\<close>

lemma decode_ranges:
  fixes ms
  defines "c \<equiv> decodeCivil ms"
  shows "1 \<le> c_month c" "c_month c \<le> 12" "1 \<le> c_day c" "c_day c \<le> month_length (isLeapYear (c_year c)) (c_month c)"
    "0 \<le> c_hour c" "c_hour c < 24" "0 \<le> c_minute c" "c_minute c < 60" "0 \<le> c_second c" "c_second c < 60"
    "0 \<le> c_millisecond c" "c_millisecond c < 1000"
proof -
  have "componentsAreInRange c" unfolding c_def by (rule decode_in_range)
  then show "1 \<le> c_month c" "c_month c \<le> 12" "1 \<le> c_day c" "c_day c \<le> month_length (isLeapYear (c_year c)) (c_month c)"
    "0 \<le> c_hour c" "c_hour c < 24" "0 \<le> c_minute c" "c_minute c < 60" "0 \<le> c_second c" "c_second c < 60"
    "0 \<le> c_millisecond c" "c_millisecond c < 1000"
    by (auto simp: componentsAreInRange_def daysInCivilMonth_eq split: if_splits)
qed

lemma encode_split:
  "encodeCivil c = month_first (c_year c * 12 + (c_month c - 1)) + (c_day c - 1) * MS_PER_DAY +
     (c_hour c * MS_PER_HOUR + c_minute c * MS_PER_MINUTE + c_second c * MS_PER_SECOND + c_millisecond c)"
proof -
  have "make_day (c_year c) (c_month c - 1) (c_day c) = make_day 0 (c_year c * 12 + (c_month c - 1)) 1 + (c_day c - 1)"
    using make_day_from_first [of "c_year c" "c_month c - 1" "c_day c"] make_day_numbered [of "c_year c" "c_month c - 1" 1]
    by (simp add: mult.commute)
  then show ?thesis by (simp add: encodeCivil_def month_first_def distrib_right)
qed

lemma numbered:
  assumes "1 \<le> m" "m \<le> 12"
  shows "(y * 12 + (m - 1)) div 12 = (y :: int)" "(y * 12 + (m - 1)) mod 12 + 1 = m"
  using int_div_pos_eq [of "y * 12 + (m - 1)" 12 y "m - 1"] int_mod_pos_eq [of "y * 12 + (m - 1)" 12 y "m - 1"] assms by simp_all

lemma month_number_bounds: "month_first (month_number c) \<le> c \<and> c < month_first (month_number c + 1)"
proof -
  let ?c = "decodeCivil c"
  have "(c_day ?c - 1) * MS_PER_DAY \<le> (month_days (month_number c) - 1) * MS_PER_DAY"
    using decode_ranges(1-4) [of c] unfolding month_days_def month_number_def numbered [OF decode_ranges(1,2)]
    by (intro mult_right_mono) (simp_all add: MS_PER_DAY_def)
  moreover have "0 \<le> (c_day ?c - 1) * MS_PER_DAY" using decode_ranges(3) [of c] by (simp add: MS_PER_DAY_def)
  moreover note time_of_day(5,6) [OF decode_ranges(7-12,5,6) [of c]]
  moreover have "c = month_first (month_number c) + (c_day ?c - 1) * MS_PER_DAY +
     (c_hour ?c * MS_PER_HOUR + c_minute ?c * MS_PER_MINUTE + c_second ?c * MS_PER_SECOND + c_millisecond ?c)"
    using encode_split [of ?c] by (simp add: encode_decode month_number_def)
  ultimately show ?thesis unfolding month_first_next left_diff_distrib by linarith
qed

interpretation months: boundaries month_first month_number
  using month_number_bounds month_first_less by unfold_locales blast+

text \<open>Every \<open>k\<close>-th month, from a first one.\<close>

lemma div_window: "0 < k \<Longrightarrow> k * (n div k) \<le> n \<and> n < k * (n div k + (1 :: int))"
  using mult_div_mod_eq [of k n] pos_mod_sign [of k n] pos_mod_bound [of k n] unfolding distrib_left mult_1_right by linarith

lemma multiples_of_months:
  assumes "0 < k"
  shows "boundaries (\<lambda>i. month_first (k * i + j)) (\<lambda>c. (month_number c - j) div k)"
proof
  fix c i
  note w = div_window [OF assms, of "month_number c - j"]
  show "month_first (k * ((month_number c - j) div k) + j) \<le> c"
    using months.start_mono [of "k * ((month_number c - j) div k) + j" "month_number c"] w months.start_le [of c] by linarith
  show "c < month_first (k * ((month_number c - j) div k + 1) + j)"
    using months.start_mono [of "month_number c + 1" "k * ((month_number c - j) div k + 1) + j"] w months.less_next [of c] by linarith
  have "k * i + j + 1 \<le> k * (i + 1) + j" using assms by (simp add: distrib_left)
  then show "month_first (k * i + j) < month_first (k * (i + 1) + j)"
    using months.start_mono [of "k * i + j + 1" "k * (i + 1) + j"] months.start_less [of "k * i + j"] by linarith
qed

lemma multiples:
  assumes "0 < k"
  shows "boundaries (\<lambda>i. k * i + j) (\<lambda>c. (c - j) div k)"
proof
  fix c i
  note w = div_window [OF assms, of "c - j"]
  show "k * ((c - j) div k) + j \<le> c" "c < k * ((c - j) div k + 1) + j" using w by linarith+
  show "k * i + j < k * (i + 1) + j" using assms by (simp add: distrib_left)
qed

section \<open>The units cut the time line\<close>

text \<open>The start of the unit with a number, and the number of the unit of a reading.\<close>

definition unit_start :: "int \<Rightarrow> TimeUnit \<Rightarrow> int \<Rightarrow> int" where
  "unit_start weekStartsOn unit i =
     (case unit of Millisecond \<Rightarrow> 1 * i + 0 | Second \<Rightarrow> MS_PER_SECOND * i + 0 | Minute \<Rightarrow> MS_PER_MINUTE * i + 0
      | Hour \<Rightarrow> MS_PER_HOUR * i + 0 | Day \<Rightarrow> MS_PER_DAY * i + 0 | Week \<Rightarrow> MS_PER_WEEK * i + (weekStartsOn - 4) * MS_PER_DAY
      | Month \<Rightarrow> month_first (1 * i + 0) | Quarter \<Rightarrow> month_first (3 * i + 0) | Year \<Rightarrow> month_first (12 * i + 0)
      | Decade \<Rightarrow> month_first (120 * i + 0) | Century \<Rightarrow> month_first (1200 * i + 12))"

definition unit_index :: "int \<Rightarrow> TimeUnit \<Rightarrow> int \<Rightarrow> int" where
  "unit_index weekStartsOn unit c =
     (case unit of Millisecond \<Rightarrow> (c - 0) div 1 | Second \<Rightarrow> (c - 0) div MS_PER_SECOND | Minute \<Rightarrow> (c - 0) div MS_PER_MINUTE
      | Hour \<Rightarrow> (c - 0) div MS_PER_HOUR | Day \<Rightarrow> (c - 0) div MS_PER_DAY
      | Week \<Rightarrow> (c - (weekStartsOn - 4) * MS_PER_DAY) div MS_PER_WEEK
      | Month \<Rightarrow> (month_number c - 0) div 1 | Quarter \<Rightarrow> (month_number c - 0) div 3 | Year \<Rightarrow> (month_number c - 0) div 12
      | Decade \<Rightarrow> (month_number c - 0) div 120 | Century \<Rightarrow> (month_number c - 12) div 1200)"

lemma ms_positive [simp]: "0 < MS_PER_SECOND" "0 < MS_PER_MINUTE" "0 < MS_PER_HOUR" "0 < MS_PER_DAY" "0 < MS_PER_WEEK"
  by (simp_all add: ms_defs)

lemma unit_boundaries: "boundaries (unit_start ws u) (unit_index ws u)"
  by (cases u; simp only: unit_start_def [abs_def] unit_index_def [abs_def] TimeUnit.case; rule multiples multiples_of_months; simp)

interpretation units: boundaries "unit_start ws u" "unit_index ws u" for ws u
  by (rule unit_boundaries)

lemma time_parts:
  fixes ms
  defines "c \<equiv> decodeCivil ms"
  shows "c_millisecond c = ms mod MS_PER_SECOND"
    "c_second c * MS_PER_SECOND + c_millisecond c = ms mod MS_PER_MINUTE"
    "c_minute c * MS_PER_MINUTE + c_second c * MS_PER_SECOND + c_millisecond c = ms mod MS_PER_HOUR"
    "c_hour c * MS_PER_HOUR + c_minute c * MS_PER_MINUTE + c_second c * MS_PER_SECOND + c_millisecond c = ms mod MS_PER_DAY"
proof -
  have dvd: "ms mod MS_PER_DAY mod MS_PER_SECOND = ms mod MS_PER_SECOND" "ms mod MS_PER_DAY mod MS_PER_MINUTE = ms mod MS_PER_MINUTE"
    "ms mod MS_PER_DAY mod MS_PER_HOUR = ms mod MS_PER_HOUR" "ms mod MS_PER_MINUTE mod MS_PER_SECOND = ms mod MS_PER_SECOND"
    "ms mod MS_PER_HOUR mod MS_PER_MINUTE = ms mod MS_PER_MINUTE"
    unfolding ms_defs by (simp_all add: mod_mod_cancel)
  have parts: "c_hour c = ms mod MS_PER_DAY div MS_PER_HOUR" "c_minute c = ms mod MS_PER_HOUR div MS_PER_MINUTE"
    "c_second c = ms mod MS_PER_MINUTE div MS_PER_SECOND" "c_millisecond c = ms mod MS_PER_SECOND"
    unfolding c_def decodeCivil_def Let_def by (simp_all add: dvd)
  show p: "c_millisecond c = ms mod MS_PER_SECOND" by (rule parts(4))
  show s: "c_second c * MS_PER_SECOND + c_millisecond c = ms mod MS_PER_MINUTE"
    using div_mult_mod_eq [of "ms mod MS_PER_MINUTE" MS_PER_SECOND] unfolding parts dvd .
  show h: "c_minute c * MS_PER_MINUTE + c_second c * MS_PER_SECOND + c_millisecond c = ms mod MS_PER_HOUR"
    using div_mult_mod_eq [of "ms mod MS_PER_HOUR" MS_PER_MINUTE] s unfolding parts(2) dvd by linarith
  show "c_hour c * MS_PER_HOUR + c_minute c * MS_PER_MINUTE + c_second c * MS_PER_SECOND + c_millisecond c = ms mod MS_PER_DAY"
    using div_mult_mod_eq [of "ms mod MS_PER_DAY" MS_PER_HOUR] h unfolding parts(1) dvd by linarith
qed

lemma decode_first: "decodeCivil (month_first n) = \<lparr>c_year = n div 12, c_month = n mod 12 + 1, c_day = 1, c_hour = 0, c_minute = 0,
    c_second = 0, c_millisecond = 0\<rparr>" (is "_ = ?c")
proof -
  have "componentsAreInRange ?c"
    using month_days_pos [of n] pos_mod_sign [of 12 n] pos_mod_bound [of 12 n]
    by (simp add: componentsAreInRange_def daysInCivilMonth_eq month_days_def not_less not_le)
  then have "decodeCivil (encodeCivil ?c) = ?c" by (rule decode_encode)
  moreover have "encodeCivil ?c = month_first n" by (simp add: encode_split mult.commute)
  ultimately show ?thesis by simp
qed

lemma shift_first: "shift_months (month_first n) k = month_first (n + k)"
proof -
  have n: "n div 12 * 12 + (n mod 12 + 1 - 1) + k = n + k" by simp
  have one: "min 1 (daysInCivilMonth ((n + k) div 12) ((n + k) mod 12 + 1)) = 1"
    using month_days_pos [of "n + k"] by (simp add: daysInCivilMonth_eq month_days_def)
  show ?thesis
    unfolding shift_months_def Let_def decode_first DateTimeComponents.simps n one
    by (simp add: encode_split mult.commute)
qed

lemma week_start:
  fixes c ws
  defines "r \<equiv> (civilWeekday c - ws + 7) mod 7"
  shows "c - c mod MS_PER_DAY - r * MS_PER_DAY = unit_start ws Week (unit_index ws Week c)"
proof -
  define D i where D: "D = c div MS_PER_DAY" and i: "i = (D + 4 - ws) div 7"
  have r: "r = (D + 4 - ws) mod 7"
    unfolding r_def civilWeekday_def D [symmetric] by (metis add_diff_eq diff_add_eq mod_add_self2 mod_diff_left_eq)
  have "7 * i + r = D + 4 - ws" unfolding i r by simp
  then have "(D - r) * MS_PER_DAY = (7 * i + (ws - 4)) * MS_PER_DAY" by (intro arg_cong [of _ _ "\<lambda>x. x * MS_PER_DAY"]) linarith
  then have start: "(D - r) * MS_PER_DAY = unit_start ws Week i" by (simp add: unit_start_def ms_defs)
  have c: "c = D * MS_PER_DAY + c mod MS_PER_DAY" unfolding D by simp
  have t: "0 \<le> c mod MS_PER_DAY" "c mod MS_PER_DAY < MS_PER_DAY" by simp_all
  have rb: "0 \<le> r" "r \<le> 6" unfolding r by simp_all
  have next': "unit_start ws Week (i + 1) = unit_start ws Week i + 7 * MS_PER_DAY" by (simp add: unit_start_def ms_defs)
  have "unit_index ws Week c = i"
    using t rb c unfolding next' start [symmetric] left_diff_distrib
    by (intro units.index_unique; unfold next' start [symmetric] left_diff_distrib) (simp_all add: MS_PER_DAY_def)
  then show ?thesis using start minus_mod_eq_div_mult [of c MS_PER_DAY] unfolding left_diff_distrib D [symmetric] by simp
qed

text \<open>Truncation gives the start of the unit, and the end is the millisecond before the next.\<close>

lemma truncated_start:
  assumes "documented lib"
  shows "truncatedCivilMs lib ws unit c = unit_start ws unit (unit_index ws unit c)"
proof -
  let ?d = "decodeCivil c" and ?n = "month_number c"
  note lib = documentedD [OF assms] and t = time_parts [of c]
  have enc: "encodeCivil ?d = c" by (rule encode_decode)
  note split = encode_split [of "?d", unfolded enc]
  have n: "?n = c_year ?d * 12 + (c_month ?d - 1)" by (simp add: month_number_def)
  have y: "?n div 12 = c_year ?d" unfolding n by (rule numbered) (rule decode_ranges)+
  have multiples: "k * (x div k) = x - x mod k" for k x :: int by (simp add: minus_mod_eq_mult_div)
  show ?thesis
  proof (cases unit)
    case Week
    have "encodeCivil (?d\<lparr>c_hour := 0, c_minute := 0, c_second := 0, c_millisecond := 0\<rparr>) = c - c mod MS_PER_DAY"
      using split t by (simp add: encode_split)
    then show ?thesis using week_start [of c ws] by (simp add: Week truncatedCivilMs_def Let_def lib)
  next
    case Quarter
    have "c_year ?d * 12 + (c_month ?d - 1) div 3 * 3 = 3 * (?n div 3)"
      using div_mult_self3 [of 3 "c_year ?d * 4" "c_month ?d - 1"] unfolding n by (simp add: mult.commute)
    then show ?thesis by (simp add: Quarter truncatedCivilMs_def Let_def quarter_of_def encode_split unit_start_def unit_index_def)
  next
    case Decade
    have "?n div 120 = c_year ?d div 10" using zdiv_zmult2_eq [of 10 ?n 12] y by simp
    moreover have "c_year ?d * 12 - c_year ?d mod 10 * 12 = 120 * (c_year ?d div 10)" using multiples [of 10 "c_year ?d"] by linarith
    ultimately show ?thesis by (simp add: Decade truncatedCivilMs_def Let_def startYearOf_def modulo_def encode_split unit_start_def unit_index_def)
  next
    case Century
    have "(?n - 12) div 12 = c_year ?d - 1" using div_mult_self3 [of 12 "-1" ?n] y by simp
    then have "(?n - 12) div 1200 = (c_year ?d - 1) div 100" using zdiv_zmult2_eq [of 100 "?n - 12" 12] by simp
    moreover have "c_year ?d * 12 - (c_year ?d - 1) mod 100 * 12 = 1200 * ((c_year ?d - 1) div 100) + 12"
      using multiples [of 100 "c_year ?d - 1"] by linarith
    ultimately show ?thesis by (simp add: Century truncatedCivilMs_def Let_def startYearOf_def modulo_def encode_split unit_start_def unit_index_def)
  qed (use split t y n multiples in \<open>simp_all add: truncatedCivilMs_def Let_def startYearOf_def encode_split unit_start_def unit_index_def mult.commute\<close>)
qed

lemma truncated_end:
  assumes "documented lib"
  shows "endCivilMs lib ws unit c = unit_start ws unit (unit_index ws unit c + 1) - 1"
  using documentedD [OF assms]
  by (cases unit) (simp_all add: endCivilMs_def Let_def truncated_start [OF assms] unit_start_def shift_first algebra_simps)

end
