(* ===== verification/Durations.thy ===== *)
theory Durations
  imports CivilUnits
begin

text \<open>
  Lengths of time, \<open>framework/datetime/src/duration.ts\<close>: three buckets, months, days and milliseconds, that
  are never turned into one another.  Amounts are integers.
\<close>

record DurationInput =
  i_years :: "int option"
  i_quarters :: "int option"
  i_months :: "int option"
  i_weeks :: "int option"
  i_days :: "int option"
  i_hours :: "int option"
  i_minutes :: "int option"
  i_seconds :: "int option"
  i_milliseconds :: "int option"

definition no_input :: DurationInput where
  "no_input = \<lparr>i_years = None, i_quarters = None, i_months = None, i_weeks = None, i_days = None, i_hours = None,
     i_minutes = None, i_seconds = None, i_milliseconds = None\<rparr>"

record Duration =
  du_months :: int
  du_days :: int
  du_milliseconds :: int

datatype duration_error = InvalidDurationError

definition duration_from :: "DurationInput \<Rightarrow> Duration" where
  "duration_from input =
     \<lparr>du_months = nullish (i_years input) 0 * 12 + nullish (i_quarters input) 0 * 3 + nullish (i_months input) 0,
      du_days = nullish (i_weeks input) 0 * 7 + nullish (i_days input) 0,
      du_milliseconds = nullish (i_hours input) 0 * MS_PER_HOUR + nullish (i_minutes input) 0 * MS_PER_MINUTE +
        nullish (i_seconds input) 0 * MS_PER_SECOND + nullish (i_milliseconds input) 0\<rparr>"

definition duration_zero :: Duration where
  "duration_zero = \<lparr>du_months = 0, du_days = 0, du_milliseconds = 0\<rparr>"

definition duration_milliseconds :: "int \<Rightarrow> Duration" where
  "duration_milliseconds amount = duration_from (no_input\<lparr>i_milliseconds := Some amount\<rparr>)"

definition duration_days :: "int \<Rightarrow> Duration" where
  "duration_days amount = duration_from (no_input\<lparr>i_days := Some amount\<rparr>)"

definition duration_months :: "int \<Rightarrow> Duration" where
  "duration_months amount = duration_from (no_input\<lparr>i_months := Some amount\<rparr>)"

definition duration_add :: "Duration \<Rightarrow> Duration \<Rightarrow> Duration" where
  "duration_add d addend =
     \<lparr>du_months = du_months d + du_months addend, du_days = du_days d + du_days addend,
      du_milliseconds = du_milliseconds d + du_milliseconds addend\<rparr>"

definition duration_negate :: "Duration \<Rightarrow> Duration" where
  "duration_negate d = \<lparr>du_months = - du_months d, du_days = - du_days d, du_milliseconds = - du_milliseconds d\<rparr>"

definition duration_subtract :: "Duration \<Rightarrow> Duration \<Rightarrow> Duration" where
  "duration_subtract d other = duration_add d (duration_negate other)"

definition duration_multiply :: "Duration \<Rightarrow> int \<Rightarrow> Duration" where
  "duration_multiply d factor = \<lparr>du_months = du_months d * factor, du_days = du_days d * factor, du_milliseconds = du_milliseconds d * factor\<rparr>"

definition absolute :: "Duration \<Rightarrow> Duration" where
  "absolute d = \<lparr>du_months = \<bar>du_months d\<bar>, du_days = \<bar>du_days d\<bar>, du_milliseconds = \<bar>du_milliseconds d\<bar>\<rparr>"

definition isZero :: "Duration \<Rightarrow> bool" where
  "isZero d = (du_months d = 0 \<and> du_days d = 0 \<and> du_milliseconds d = 0)"

definition isNegative :: "Duration \<Rightarrow> bool" where
  "isNegative d = (\<not> isZero d \<and> du_months d \<le> 0 \<and> du_days d \<le> 0 \<and> du_milliseconds d \<le> 0)"

definition isExact :: "Duration \<Rightarrow> bool" where
  "isExact d = (du_months d = 0)"

definition hasCalendarParts :: "Duration \<Rightarrow> bool" where
  "hasCalendarParts d = (du_months d \<noteq> 0 \<or> du_days d \<noteq> 0)"

definition totalMs :: "Duration \<Rightarrow> duration_error + int" where
  "totalMs d = (if \<not> isExact d then Inl InvalidDurationError else Inr (du_days d * MS_PER_DAY + du_milliseconds d))"

definition duration_equals :: "Duration \<Rightarrow> Duration \<Rightarrow> bool" where
  "duration_equals d other = (du_months d = du_months other \<and> du_days d = du_days other \<and> du_milliseconds d = du_milliseconds other)"

section \<open>ISO 8601\<close>

text \<open>A number of thousandths, as the language prints the quotient: no trailing zeros, no point if it is whole.\<close>

definition print_thousandths :: "nat \<Rightarrow> string" where
  "print_thousandths k =
     (let f = k mod 1000; digits = [digit_char (f div 100), digit_char (f div 10 mod 10), digit_char (f mod 10)] in
      string_of_nat (k div 1000) @
      (if f = 0 then '''' else ''.'' @ rev (dropWhile (\<lambda>c. c = CHR ''0'') (rev digits))))"

definition part :: "nat \<Rightarrow> string \<Rightarrow> string" where
  "part n unit = (if n \<noteq> 0 then string_of_nat n @ unit else '''')"

definition duration_iso :: "Duration \<Rightarrow> string" where
  "duration_iso d =
     (if isZero d then ''PT0S'' else
      let sign = (if isNegative d then ''-'' else '''');
          a = absolute d; months = nat (du_months a); ms = nat (du_milliseconds a) in
      sign @ ''P'' @ part (months div 12) ''Y'' @ part (months mod 12) ''M'' @ part (nat (du_days a)) ''D'' @
      (if ms \<noteq> 0 then
         ''T'' @ part (ms div 3600000) ''H'' @ part (ms mod 3600000 div 60000) ''M'' @
         (if ms mod 60000 \<noteq> 0 then print_thousandths (ms mod 60000) @ ''S'' else '''')
       else ''''))"

text \<open>A duration whose buckets differ in sign prints as if none were negative.\<close>

lemma mixed_signs_are_lost:
  assumes "\<not> isNegative d"
  shows "duration_iso d = duration_iso (absolute d)"
proof -
  have "isZero (absolute d) = isZero d" "\<not> isNegative (absolute d)" "absolute (absolute d) = absolute d"
    by (auto simp: absolute_def isZero_def isNegative_def)
  then show ?thesis using assms by (simp add: duration_iso_def)
qed

lemma totalMs_additive:
  "totalMs d = Inr a \<Longrightarrow> totalMs e = Inr b \<Longrightarrow> totalMs (duration_add d e) = Inr (a + b)"
  by (auto simp: totalMs_def isExact_def duration_add_def distrib_right split: if_splits)

lemma duration_group:
  "duration_add (duration_add a b) c = duration_add a (duration_add b c)" "duration_add a b = duration_add b a"
  "duration_add a duration_zero = a" "duration_add a (duration_negate a) = duration_zero"
  by (simp_all add: duration_add_def duration_zero_def duration_negate_def)

end
