(* ===== verification/DateTimes.thy ===== *)
theory DateTimes
  imports Zones Durations
begin

text \<open>
  \<open>framework/datetime/src/date-time.ts\<close>: an instant together with the zone it is read in.

  The platform gives the offset of every zone at every instant, the calendar arithmetic of \<open>date-fns\<close> and
  the configured first day of the week; it is the argument of every operation that reads a wall clock.
  A value given for comparison is a \<open>DateTime\<close> already.
\<close>

record 'z platform =
  offset_in :: "'z \<Rightarrow> int \<Rightarrow> int"
  fns :: date_fns
  default_week_start :: int

record 'z DateTime =
  epochMilliseconds :: int
  timezone :: 'z

datatype datetime_error = InvalidComponents | Unresolved ambiguity | NoValues | TooFewBusinessDays

section \<open>Reading and resolving\<close>

definition civilMs :: "'z platform \<Rightarrow> 'z DateTime \<Rightarrow> int" where
  "civilMs env d = civilMsFromInstant (offset_in env (timezone d)) (epochMilliseconds d)"

definition components :: "'z platform \<Rightarrow> 'z DateTime \<Rightarrow> DateTimeComponents" where
  "components env d = componentsFromInstant (offset_in env (timezone d)) (epochMilliseconds d)"

definition withInstant :: "'z DateTime \<Rightarrow> int \<Rightarrow> 'z DateTime" where
  "withInstant d instant = \<lparr>epochMilliseconds = instant, timezone = timezone d\<rparr>"

definition resolved :: "('z DateTime \<Rightarrow> 'z DateTime) \<Rightarrow> ambiguity + int \<Rightarrow> 'z DateTime \<Rightarrow> datetime_error + 'z DateTime" where
  "resolved f r d = (case r of Inl a \<Rightarrow> Inl (Unresolved a) | Inr t \<Rightarrow> Inr (f (withInstant d t)))"

definition withCivilMs :: "'z platform \<Rightarrow> 'z DateTime \<Rightarrow> int \<Rightarrow> Disambiguation \<Rightarrow> datetime_error + 'z DateTime" where
  "withCivilMs env d c policy = resolved id (instantFromCivilMs (offset_in env (timezone d)) c policy) d"

text \<open>
  The same under a policy other than \<open>reject\<close>, which never throws: the operations of the calendar use the
  default one.
\<close>

definition movedTo :: "'z platform \<Rightarrow> 'z DateTime \<Rightarrow> int \<Rightarrow> Disambiguation \<Rightarrow> 'z DateTime" where
  "movedTo env d c policy =
     (case instantFromCivilMs (offset_in env (timezone d)) c policy of Inl _ \<Rightarrow> d | Inr t \<Rightarrow> withInstant d t)"

lemma withCivilMs_movedTo: "policy \<noteq> Reject \<Longrightarrow> withCivilMs env d c policy = Inr (movedTo env d c policy)"
  by (cases policy)
    (auto simp: withCivilMs_def movedTo_def resolved_def instantFromCivilMs_def resolveOverlap_def resolveGap_def Let_def)

definition year :: "'z platform \<Rightarrow> 'z DateTime \<Rightarrow> int" where "year env d = c_year (components env d)"
definition month :: "'z platform \<Rightarrow> 'z DateTime \<Rightarrow> int" where "month env d = c_month (components env d)"
definition day :: "'z platform \<Rightarrow> 'z DateTime \<Rightarrow> int" where "day env d = c_day (components env d)"
definition hour :: "'z platform \<Rightarrow> 'z DateTime \<Rightarrow> int" where "hour env d = c_hour (components env d)"
definition minute :: "'z platform \<Rightarrow> 'z DateTime \<Rightarrow> int" where "minute env d = c_minute (components env d)"
definition second :: "'z platform \<Rightarrow> 'z DateTime \<Rightarrow> int" where "second env d = c_second (components env d)"
definition millisecond :: "'z platform \<Rightarrow> 'z DateTime \<Rightarrow> int" where "millisecond env d = c_millisecond (components env d)"

definition dayOfWeek :: "'z platform \<Rightarrow> 'z DateTime \<Rightarrow> int" where
  "dayOfWeek env d = civilWeekday (civilMs env d)"

definition isoDayOfWeek :: "'z platform \<Rightarrow> 'z DateTime \<Rightarrow> int" where
  "isoDayOfWeek env d = (if dayOfWeek env d = 0 then 7 else dayOfWeek env d)"

definition dayOfYear :: "'z platform \<Rightarrow> 'z DateTime \<Rightarrow> int" where
  "dayOfYear env d = civilDayOfYear (civilMs env d)"

definition quarter :: "'z platform \<Rightarrow> 'z DateTime \<Rightarrow> int" where
  "quarter env d = quarter_of (month env d)"

definition unixTimestamp :: "'z DateTime \<Rightarrow> int" where
  "unixTimestamp d = epochMilliseconds d div MS_PER_SECOND"

definition offset :: "'z platform \<Rightarrow> 'z DateTime \<Rightarrow> int" where
  "offset env d = offset_in env (timezone d) (epochMilliseconds d)"

definition fromComponents :: "'z platform \<Rightarrow> DateTimeComponents \<Rightarrow> 'z \<Rightarrow> Disambiguation \<Rightarrow> datetime_error + 'z DateTime" where
  "fromComponents env c zone policy =
     (if \<not> componentsAreInRange c then Inl InvalidComponents
      else resolved id (instantFromComponents (offset_in env zone) c policy) \<lparr>epochMilliseconds = 0, timezone = zone\<rparr>)"

definition fromTimestamp :: "int \<Rightarrow> 'z \<Rightarrow> 'z DateTime" where
  "fromTimestamp milliseconds zone = \<lparr>epochMilliseconds = milliseconds, timezone = zone\<rparr>"

definition inTimezone :: "'z DateTime \<Rightarrow> 'z \<Rightarrow> 'z DateTime" where
  "inTimezone d zone = \<lparr>epochMilliseconds = epochMilliseconds d, timezone = zone\<rparr>"

definition keepLocalTime :: "'z platform \<Rightarrow> 'z DateTime \<Rightarrow> 'z \<Rightarrow> Disambiguation \<Rightarrow> datetime_error + 'z DateTime" where
  "keepLocalTime env d zone policy =
     resolved id (instantFromCivilMs (offset_in env zone) (civilMs env d) policy) (inTimezone d zone)"

definition coerceToThisZone :: "'z DateTime \<Rightarrow> 'z DateTime \<Rightarrow> 'z DateTime" where
  "coerceToThisZone d other = (if timezone other = timezone d then other else inTimezone other (timezone d))"

text \<open>Fields given replace those of the reading.\<close>

record PartialComponents =
  p_year :: "int option"
  p_month :: "int option"
  p_day :: "int option"
  p_hour :: "int option"
  p_minute :: "int option"
  p_second :: "int option"
  p_millisecond :: "int option"

definition overlay :: "DateTimeComponents \<Rightarrow> PartialComponents \<Rightarrow> DateTimeComponents" where
  "overlay c p =
     \<lparr>c_year = nullish (p_year p) (c_year c), c_month = nullish (p_month p) (c_month c), c_day = nullish (p_day p) (c_day c),
      c_hour = nullish (p_hour p) (c_hour c), c_minute = nullish (p_minute p) (c_minute c),
      c_second = nullish (p_second p) (c_second c), c_millisecond = nullish (p_millisecond p) (c_millisecond c)\<rparr>"

definition with_components :: "'z platform \<Rightarrow> 'z DateTime \<Rightarrow> PartialComponents \<Rightarrow> Disambiguation \<Rightarrow> datetime_error + 'z DateTime" where
  "with_components env d p policy =
     (let c = overlay (components env d) p in
      if \<not> componentsAreInRange c then Inl InvalidComponents else withCivilMs env d (encodeCivil c) policy)"

section \<open>Arithmetic\<close>

definition addMilliseconds :: "'z DateTime \<Rightarrow> int \<Rightarrow> 'z DateTime" where
  "addMilliseconds d amount = withInstant d (epochMilliseconds d + amount)"

definition addSeconds :: "'z DateTime \<Rightarrow> int \<Rightarrow> 'z DateTime" where
  "addSeconds d amount = addMilliseconds d (amount * MS_PER_SECOND)"

definition addMinutes :: "'z DateTime \<Rightarrow> int \<Rightarrow> 'z DateTime" where
  "addMinutes d amount = addMilliseconds d (amount * MS_PER_MINUTE)"

definition addHours :: "'z DateTime \<Rightarrow> int \<Rightarrow> 'z DateTime" where
  "addHours d amount = addMilliseconds d (amount * MS_PER_HOUR)"

definition addDays :: "'z platform \<Rightarrow> 'z DateTime \<Rightarrow> int \<Rightarrow> 'z DateTime" where
  "addDays env d amount = movedTo env d (addCivilDays (fns env) (civilMs env d) amount) Compatible"

definition addWeeks :: "'z platform \<Rightarrow> 'z DateTime \<Rightarrow> int \<Rightarrow> 'z DateTime" where
  "addWeeks env d amount = movedTo env d (addCivilWeeks (fns env) (civilMs env d) amount) Compatible"

definition addMonths :: "'z platform \<Rightarrow> 'z DateTime \<Rightarrow> int \<Rightarrow> 'z DateTime" where
  "addMonths env d amount = movedTo env d (addCivilMonths (fns env) (civilMs env d) amount) Compatible"

definition addQuarters :: "'z platform \<Rightarrow> 'z DateTime \<Rightarrow> int \<Rightarrow> 'z DateTime" where
  "addQuarters env d amount = movedTo env d (addCivilQuarters (fns env) (civilMs env d) amount) Compatible"

definition addYears :: "'z platform \<Rightarrow> 'z DateTime \<Rightarrow> int \<Rightarrow> 'z DateTime" where
  "addYears env d amount = movedTo env d (addCivilYears (fns env) (civilMs env d) amount) Compatible"

text \<open>Months first, then days, then the exact part.\<close>

definition add_duration :: "'z platform \<Rightarrow> 'z DateTime \<Rightarrow> Duration \<Rightarrow> 'z DateTime" where
  "add_duration env d duration =
     (let afterMonths = (if du_months duration = 0 then d else addMonths env d (du_months duration));
          afterDays = (if du_days duration = 0 then afterMonths else addDays env afterMonths (du_days duration)) in
      if du_milliseconds duration = 0 then afterDays
      else withInstant afterDays (epochMilliseconds afterDays + du_milliseconds duration))"

definition subtract_duration :: "'z platform \<Rightarrow> 'z DateTime \<Rightarrow> Duration \<Rightarrow> 'z DateTime" where
  "subtract_duration env d duration = add_duration env d (duration_negate duration)"

definition addUnit :: "'z platform \<Rightarrow> 'z DateTime \<Rightarrow> TimeUnit \<Rightarrow> int \<Rightarrow> 'z DateTime" where
  "addUnit env d unit amount =
     (case unit of
        Millisecond \<Rightarrow> addMilliseconds d amount
      | Second \<Rightarrow> addSeconds d amount
      | Minute \<Rightarrow> addMinutes d amount
      | Hour \<Rightarrow> addHours d amount
      | Day \<Rightarrow> addDays env d amount
      | Week \<Rightarrow> addWeeks env d amount
      | Month \<Rightarrow> addMonths env d amount
      | Quarter \<Rightarrow> addQuarters env d amount
      | Year \<Rightarrow> addYears env d amount
      | Decade \<Rightarrow> addYears env d (amount * 10)
      | Century \<Rightarrow> addYears env d (amount * 100))"

definition subUnit :: "'z platform \<Rightarrow> 'z DateTime \<Rightarrow> TimeUnit \<Rightarrow> int \<Rightarrow> 'z DateTime" where
  "subUnit env d unit amount = addUnit env d unit (- amount)"

text \<open>The day of the month may run over into the next month.\<close>

definition addMonthsWithOverflow :: "'z platform \<Rightarrow> 'z DateTime \<Rightarrow> int \<Rightarrow> 'z DateTime" where
  "addMonthsWithOverflow env d amount =
     (let c = components env d; total = c_year c * 12 + (c_month c - 1) + amount in
      movedTo env d (encodeCivil (c\<lparr>c_year := total div 12, c_month := modulo total 12 + 1\<rparr>)) Compatible)"

definition addYearsWithOverflow :: "'z platform \<Rightarrow> 'z DateTime \<Rightarrow> int \<Rightarrow> 'z DateTime" where
  "addYearsWithOverflow env d amount =
     (let c = components env d in movedTo env d (encodeCivil (c\<lparr>c_year := c_year c + amount\<rparr>)) Compatible)"

section \<open>Boundaries of units\<close>

definition week_start_of :: "'z platform \<Rightarrow> int option \<Rightarrow> int" where
  "week_start_of env weekStartsOn = nullish weekStartsOn (default_week_start env)"

definition startOf :: "'z platform \<Rightarrow> 'z DateTime \<Rightarrow> TimeUnit \<Rightarrow> int option \<Rightarrow> 'z DateTime" where
  "startOf env d unit wo = movedTo env d (truncatedCivilMs (fns env) (week_start_of env wo) unit (civilMs env d)) Compatible"

definition endOf :: "'z platform \<Rightarrow> 'z DateTime \<Rightarrow> TimeUnit \<Rightarrow> int option \<Rightarrow> 'z DateTime" where
  "endOf env d unit wo = movedTo env d (endCivilMs (fns env) (week_start_of env wo) unit (civilMs env d)) Later"

definition ceil :: "'z platform \<Rightarrow> 'z DateTime \<Rightarrow> TimeUnit \<Rightarrow> int option \<Rightarrow> 'z DateTime" where
  "ceil env d unit wo =
     (if civilMs env d = truncatedCivilMs (fns env) (week_start_of env wo) unit (civilMs env d) then d
      else movedTo env d (endCivilMs (fns env) (week_start_of env wo) unit (civilMs env d) + 1) Compatible)"

definition round_to :: "'z platform \<Rightarrow> 'z DateTime \<Rightarrow> TimeUnit \<Rightarrow> int option \<Rightarrow> 'z DateTime" where
  "round_to env d unit wo =
     (let start = truncatedCivilMs (fns env) (week_start_of env wo) unit (civilMs env d);
          nextStart = endCivilMs (fns env) (week_start_of env wo) unit (civilMs env d) + 1 in
      movedTo env d (if nextStart - start \<le> (civilMs env d - start) * 2 then nextStart else start) Compatible)"

definition isSame :: "'z platform \<Rightarrow> 'z DateTime \<Rightarrow> TimeUnit \<Rightarrow> 'z DateTime \<Rightarrow> int option \<Rightarrow> bool" where
  "isSame env d unit other wo =
     (epochMilliseconds (startOf env d unit wo) = epochMilliseconds (startOf env (coerceToThisZone d other) unit wo))"

section \<open>Comparisons\<close>

definition compareTo :: "'z DateTime \<Rightarrow> 'z DateTime \<Rightarrow> int" where
  "compareTo d other =
     (if epochMilliseconds d < epochMilliseconds other then - 1
      else if epochMilliseconds other < epochMilliseconds d then 1 else 0)"

definition isBefore :: "'z DateTime \<Rightarrow> 'z DateTime \<Rightarrow> bool" where "isBefore d other = (compareTo d other < 0)"
definition isAfter :: "'z DateTime \<Rightarrow> 'z DateTime \<Rightarrow> bool" where "isAfter d other = (0 < compareTo d other)"
definition isBeforeOrEqual :: "'z DateTime \<Rightarrow> 'z DateTime \<Rightarrow> bool" where "isBeforeOrEqual d other = (compareTo d other \<le> 0)"
definition isAfterOrEqual :: "'z DateTime \<Rightarrow> 'z DateTime \<Rightarrow> bool" where "isAfterOrEqual d other = (0 \<le> compareTo d other)"
definition isEqual :: "'z DateTime \<Rightarrow> 'z DateTime \<Rightarrow> bool" where "isEqual d other = (compareTo d other = 0)"

definition isIdentical :: "'z DateTime \<Rightarrow> 'z DateTime \<Rightarrow> bool" where
  "isIdentical d other = (isEqual d other \<and> timezone d = timezone other)"

lemma compare_simps [simp]:
  "isBefore d e \<longleftrightarrow> epochMilliseconds d < epochMilliseconds e" "isAfter d e \<longleftrightarrow> epochMilliseconds e < epochMilliseconds d"
  "isBeforeOrEqual d e \<longleftrightarrow> epochMilliseconds d \<le> epochMilliseconds e" "isAfterOrEqual d e \<longleftrightarrow> epochMilliseconds e \<le> epochMilliseconds d"
  "isEqual d e \<longleftrightarrow> epochMilliseconds d = epochMilliseconds e"
  by (auto simp: isBefore_def isAfter_def isBeforeOrEqual_def isAfterOrEqual_def isEqual_def compareTo_def)

definition isBetween :: "'z DateTime \<Rightarrow> 'z DateTime \<Rightarrow> 'z DateTime \<Rightarrow> bool \<Rightarrow> bool" where
  "isBetween d start_at end_at inclusive =
     (let low = min (epochMilliseconds start_at) (epochMilliseconds end_at);
          high = max (epochMilliseconds start_at) (epochMilliseconds end_at); v = epochMilliseconds d in
      if \<not> inclusive then low < v \<and> v < high else low \<le> v \<and> v \<le> high)"

definition clamp :: "'z DateTime \<Rightarrow> 'z DateTime \<Rightarrow> 'z DateTime \<Rightarrow> 'z DateTime" where
  "clamp d a b =
     (let low = min (epochMilliseconds a) (epochMilliseconds b); high = max (epochMilliseconds a) (epochMilliseconds b) in
      if epochMilliseconds d < low then withInstant d low
      else if high < epochMilliseconds d then withInstant d high else d)"

definition pick :: "'z DateTime list \<Rightarrow> ('z DateTime \<Rightarrow> 'z DateTime \<Rightarrow> bool) \<Rightarrow> datetime_error + 'z DateTime" where
  "pick vs prefer =
     (case vs of [] \<Rightarrow> Inl NoValues
      | v # rest \<Rightarrow> Inr (fold (\<lambda>candidate best. if prefer candidate best then candidate else best) rest v))"

definition earliest :: "'z DateTime list \<Rightarrow> datetime_error + 'z DateTime" where "earliest vs = pick vs isBefore"
definition latest :: "'z DateTime list \<Rightarrow> datetime_error + 'z DateTime" where "latest vs = pick vs isAfter"

definition distance_to :: "'z DateTime \<Rightarrow> 'z DateTime \<Rightarrow> int" where
  "distance_to d e = \<bar>epochMilliseconds e - epochMilliseconds d\<bar>"

definition byDistance :: "'z DateTime \<Rightarrow> 'z DateTime list \<Rightarrow> (int \<Rightarrow> int \<Rightarrow> bool) \<Rightarrow> datetime_error + 'z DateTime" where
  "byDistance d vs prefer =
     (case map (coerceToThisZone d) vs of [] \<Rightarrow> Inl NoValues
      | v # rest \<Rightarrow> Inr (fold (\<lambda>candidate best. if prefer (distance_to d candidate) (distance_to d best) then candidate else best) rest v))"

definition closest :: "'z DateTime \<Rightarrow> 'z DateTime list \<Rightarrow> datetime_error + 'z DateTime" where "closest d vs = byDistance d vs (<)"
definition farthest :: "'z DateTime \<Rightarrow> 'z DateTime list \<Rightarrow> datetime_error + 'z DateTime" where "farthest d vs = byDistance d vs (>)"

lemma fold_prefer:
  assumes "\<And>a b. prefer a b \<longleftrightarrow> (f a < (f b :: int))"
  shows "fold (\<lambda>c best. if prefer c best then c else best) rest v \<in> set (v # rest) \<and>
    (\<forall>x \<in> set (v # rest). f (fold (\<lambda>c best. if prefer c best then c else best) rest v) \<le> f x)"
proof (induction rest arbitrary: v)
  case (Cons c rest)
  show ?case using Cons.IH [of "if prefer c v then c else v"] by (auto simp: assms split: if_splits)
qed simp

lemma earliest_is_least: "earliest vs = Inr d \<Longrightarrow> d \<in> set vs \<and> (\<forall>e \<in> set vs. epochMilliseconds d \<le> epochMilliseconds e)"
  using fold_prefer [of isBefore epochMilliseconds] by (cases vs) (auto simp: earliest_def pick_def)

lemma latest_is_greatest: "latest vs = Inr d \<Longrightarrow> d \<in> set vs \<and> (\<forall>e \<in> set vs. epochMilliseconds e \<le> epochMilliseconds d)"
  using fold_prefer [of isAfter "\<lambda>e. - epochMilliseconds e"] by (cases vs) (auto simp: latest_def pick_def)

section \<open>Differences\<close>

text \<open>Numbers of whole units, cut towards zero, unless the absolute one is asked for.\<close>

definition whole_part :: "int \<Rightarrow> int \<Rightarrow> int" where
  "whole_part a b = (if 0 \<le> a then a div b else - ((- a) div b))"

definition finish :: "bool \<Rightarrow> int \<Rightarrow> int" where
  "finish ab v = (if ab then \<bar>v\<bar> else v)"

definition datetime_diff :: "'z DateTime \<Rightarrow> 'z DateTime \<Rightarrow> Duration" where
  "datetime_diff d other = duration_milliseconds (epochMilliseconds other - epochMilliseconds d)"

definition exactDiff :: "'z DateTime \<Rightarrow> 'z DateTime \<Rightarrow> int \<Rightarrow> bool \<Rightarrow> int" where
  "exactDiff d other unitMs ab = finish ab (whole_part (epochMilliseconds other - epochMilliseconds d) unitMs)"

definition civilDiff :: "'z platform \<Rightarrow> 'z DateTime \<Rightarrow> 'z DateTime \<Rightarrow> int \<Rightarrow> bool \<Rightarrow> int" where
  "civilDiff env d other unitMs ab = finish ab (whole_part (civilMs env (coerceToThisZone d other) - civilMs env d) unitMs)"

text \<open>
  Whole steps from one reading, until the next would pass the other.  The fraction that the code adds to them is
  less than one and of their sign, and is cut off again.
\<close>

partial_function (option) count_steps :: "(int \<Rightarrow> int) \<Rightarrow> int \<Rightarrow> int \<Rightarrow> int \<Rightarrow> int option" where
  "count_steps step_by to_ms sign whole =
     (if (if 0 < sign then to_ms < step_by (whole + sign) else step_by (whole + sign) < to_ms) then Some whole
      else count_steps step_by to_ms sign (whole + sign))"

definition calendarDiff :: "'z platform \<Rightarrow> 'z DateTime \<Rightarrow> 'z DateTime \<Rightarrow> (int \<Rightarrow> int \<Rightarrow> int) \<Rightarrow> bool \<Rightarrow> int option" where
  "calendarDiff env d other step_by ab =
     (let start = civilMs env d; to_ms = civilMs env (coerceToThisZone d other) in
      if start = to_ms then Some (finish ab 0)
      else case count_steps (step_by start) to_ms (if start < to_ms then 1 else - 1) 0 of
          None \<Rightarrow> None
        | Some whole \<Rightarrow> Some (finish ab whole))"

definition diffInDays :: "'z platform \<Rightarrow> 'z DateTime \<Rightarrow> 'z DateTime \<Rightarrow> bool \<Rightarrow> int" where
  "diffInDays env d other ab = civilDiff env d other MS_PER_DAY ab"

definition diffInWeeks :: "'z platform \<Rightarrow> 'z DateTime \<Rightarrow> 'z DateTime \<Rightarrow> bool \<Rightarrow> int" where
  "diffInWeeks env d other ab = civilDiff env d other MS_PER_WEEK ab"

definition diffInHours :: "'z DateTime \<Rightarrow> 'z DateTime \<Rightarrow> bool \<Rightarrow> int" where
  "diffInHours d other ab = exactDiff d other MS_PER_HOUR ab"

definition diffInMonths :: "'z platform \<Rightarrow> 'z DateTime \<Rightarrow> 'z DateTime \<Rightarrow> bool \<Rightarrow> int option" where
  "diffInMonths env d other ab = calendarDiff env d other (addCivilMonths (fns env)) ab"

definition diffInQuarters :: "'z platform \<Rightarrow> 'z DateTime \<Rightarrow> 'z DateTime \<Rightarrow> bool \<Rightarrow> int option" where
  "diffInQuarters env d other ab = calendarDiff env d other (addCivilQuarters (fns env)) ab"

definition diffInYears :: "'z platform \<Rightarrow> 'z DateTime \<Rightarrow> 'z DateTime \<Rightarrow> bool \<Rightarrow> int option" where
  "diffInYears env d other ab = calendarDiff env d other (addCivilYears (fns env)) ab"

section \<open>Days of the week\<close>

definition isWeekend :: "'z platform \<Rightarrow> 'z DateTime \<Rightarrow> bool" where
  "isWeekend env d = (dayOfWeek env d = 0 \<or> dayOfWeek env d = 6)"

text \<open>\<open>x % 7 || 7\<close>\<close>

definition days_ahead :: "int \<Rightarrow> int" where
  "days_ahead x = (if x mod 7 = 0 then 7 else x mod 7)"

definition next_day :: "'z platform \<Rightarrow> 'z DateTime \<Rightarrow> int \<Rightarrow> 'z DateTime" where
  "next_day env d weekday = startOf env (addDays env d (days_ahead (weekday - dayOfWeek env d + 7))) Day None"

definition previous_day :: "'z platform \<Rightarrow> 'z DateTime \<Rightarrow> int \<Rightarrow> 'z DateTime" where
  "previous_day env d weekday = startOf env (addDays env d (- days_ahead (dayOfWeek env d - weekday + 7))) Day None"

definition firstOf :: "'z platform \<Rightarrow> 'z DateTime \<Rightarrow> TimeUnit \<Rightarrow> int option \<Rightarrow> 'z DateTime" where
  "firstOf env d unit weekday =
     (let start = startOf env d unit None in
      case weekday of None \<Rightarrow> start | Some w \<Rightarrow> if dayOfWeek env start = w then start else next_day env start w)"

definition lastOf :: "'z platform \<Rightarrow> 'z DateTime \<Rightarrow> TimeUnit \<Rightarrow> int option \<Rightarrow> 'z DateTime" where
  "lastOf env d unit weekday =
     (let end_at = startOf env (endOf env d unit None) Day None in
      case weekday of None \<Rightarrow> end_at | Some w \<Rightarrow> if dayOfWeek env end_at = w then end_at else previous_day env end_at w)"

definition nthOf :: "'z platform \<Rightarrow> 'z DateTime \<Rightarrow> TimeUnit \<Rightarrow> int \<Rightarrow> int \<Rightarrow> 'z DateTime option" where
  "nthOf env d unit nth_one weekday =
     (if nth_one < 1 then None
      else let candidate = addWeeks env (firstOf env d unit (Some weekday)) (nth_one - 1) in
        if isSame env candidate unit d None then Some candidate else None)"

text \<open>Step by step while a condition holds.\<close>

partial_function (option) step_while :: "('a \<Rightarrow> bool) \<Rightarrow> ('a \<Rightarrow> 'a) \<Rightarrow> 'a \<Rightarrow> 'a option" where
  "step_while again step_on cursor = (if again cursor then step_while again step_on (step_on cursor) else Some cursor)"

definition nextWeekday :: "'z platform \<Rightarrow> 'z DateTime \<Rightarrow> 'z DateTime option" where
  "nextWeekday env d = step_while (isWeekend env) (\<lambda>c. addDays env c 1) (startOf env (addDays env d 1) Day None)"

definition previousWeekday :: "'z platform \<Rightarrow> 'z DateTime \<Rightarrow> 'z DateTime option" where
  "previousWeekday env d = step_while (isWeekend env) (\<lambda>c. addDays env c (- 1)) (startOf env (addDays env d (- 1)) Day None)"

definition nextWeekendDay :: "'z platform \<Rightarrow> 'z DateTime \<Rightarrow> 'z DateTime option" where
  "nextWeekendDay env d = step_while (\<lambda>c. \<not> isWeekend env c) (\<lambda>c. addDays env c 1) (startOf env (addDays env d 1) Day None)"

definition previousWeekendDay :: "'z platform \<Rightarrow> 'z DateTime \<Rightarrow> 'z DateTime option" where
  "previousWeekendDay env d =
     step_while (\<lambda>c. \<not> isWeekend env c) (\<lambda>c. addDays env c (- 1)) (startOf env (addDays env d (- 1)) Day None)"

section \<open>Business days\<close>

record 'z BusinessDayOptions =
  weekend :: "int list option"
  isHoliday :: "('z DateTime \<Rightarrow> bool) option"

definition isBusinessDay :: "'z platform \<Rightarrow> 'z BusinessDayOptions \<Rightarrow> 'z DateTime \<Rightarrow> bool" where
  "isBusinessDay env opts d =
     (if dayOfWeek env d \<in> set (nullish (weekend opts) [0, 6]) then False
      else case isHoliday opts of None \<Rightarrow> True | Some h \<Rightarrow> \<not> h d)"

text \<open>The loop: its guard counts down to zero and is tested after each day that does not end the search.\<close>

fun business_loop :: "('a \<Rightarrow> bool) \<Rightarrow> ('a \<Rightarrow> 'a) \<Rightarrow> nat \<Rightarrow> nat \<Rightarrow> 'a \<Rightarrow> datetime_error + 'a" where
  "business_loop open_day step_on remaining guard cursor =
     (let left = (if open_day cursor then remaining - 1 else remaining) in
      if open_day cursor \<and> left = 0 then Inr cursor
      else case guard of 0 \<Rightarrow> Inl TooFewBusinessDays
        | Suc g \<Rightarrow> business_loop open_day step_on left g (step_on cursor))"

declare business_loop.simps [simp del]

definition business_guard :: "nat \<Rightarrow> nat" where
  "business_guard remaining = remaining * 14 + 3660"

definition addBusinessDays :: "'z platform \<Rightarrow> 'z DateTime \<Rightarrow> int \<Rightarrow> 'z BusinessDayOptions \<Rightarrow> datetime_error + 'z DateTime" where
  "addBusinessDays env d amount opts =
     (let remaining = nat \<bar>amount\<bar>; step_on = (\<lambda>c. addDays env c (if amount < 0 then - 1 else 1)) in
      if remaining = 0 then Inr d
      else business_loop (isBusinessDay env opts) step_on remaining (business_guard remaining) (step_on d))"

definition nextBusinessDay :: "'z platform \<Rightarrow> 'z DateTime \<Rightarrow> 'z BusinessDayOptions \<Rightarrow> datetime_error + 'z DateTime" where
  "nextBusinessDay env d opts = bindE (addBusinessDays env d 1 opts) (\<lambda>x. Inr (startOf env x Day None))"

definition previousBusinessDay :: "'z platform \<Rightarrow> 'z DateTime \<Rightarrow> 'z BusinessDayOptions \<Rightarrow> datetime_error + 'z DateTime" where
  "previousBusinessDay env d opts = bindE (addBusinessDays env d (- 1) opts) (\<lambda>x. Inr (startOf env x Day None))"

section \<open>Other readings\<close>

definition century :: "'z platform \<Rightarrow> 'z DateTime \<Rightarrow> int" where
  "century env d = (year env d - 1) div 100 + 1"

text \<open>\<open>ceil(day / 7)\<close>\<close>

definition weekOfMonth :: "'z platform \<Rightarrow> 'z DateTime \<Rightarrow> int" where
  "weekOfMonth env d = (day env d + 6) div 7"

definition setDate :: "'z platform \<Rightarrow> 'z DateTime \<Rightarrow> int \<Rightarrow> int \<Rightarrow> int \<Rightarrow> datetime_error + 'z DateTime" where
  "setDate env d y m dd =
     with_components env d \<lparr>p_year = Some y, p_month = Some m, p_day = Some dd, p_hour = None, p_minute = None, p_second = None, p_millisecond = None\<rparr> Compatible"

definition setTime :: "'z platform \<Rightarrow> 'z DateTime \<Rightarrow> int \<Rightarrow> int \<Rightarrow> int \<Rightarrow> int \<Rightarrow> datetime_error + 'z DateTime" where
  "setTime env d h m s ms =
     with_components env d \<lparr>p_year = None, p_month = None, p_day = None, p_hour = Some h, p_minute = Some m, p_second = Some s, p_millisecond = Some ms\<rparr> Compatible"

text \<open>The offsets at noon on the first of January and of July of the year.\<close>

definition isDST :: "'z platform \<Rightarrow> 'z DateTime \<Rightarrow> bool" where
  "isDST env d =
     (let noon = (\<lambda>m. encodeCivil ((components env d)\<lparr>c_month := m, c_day := 1, c_hour := 12, c_minute := 0, c_second := 0, c_millisecond := 0\<rparr>));
          off_at = (\<lambda>m. offset env (movedTo env d (noon m) Compatible)) in
      min (off_at 1) (off_at 7) < offset env d)"

definition isStartOfDay :: "'z platform \<Rightarrow> 'z DateTime \<Rightarrow> bool" where
  "isStartOfDay env d = isEqual d (startOf env d Day None)"

definition isEndOfDay :: "'z platform \<Rightarrow> 'z DateTime \<Rightarrow> bool" where
  "isEndOfDay env d = isEqual d (endOf env d Day None)"

definition isMidday :: "'z platform \<Rightarrow> 'z DateTime \<Rightarrow> bool" where
  "isMidday env d = (hour env d = 12 \<and> minute env d = 0 \<and> second env d = 0 \<and> millisecond env d = 0)"

definition isBirthday :: "'z platform \<Rightarrow> 'z DateTime \<Rightarrow> 'z DateTime \<Rightarrow> bool" where
  "isBirthday env d other =
     (month env d = month env (coerceToThisZone d other) \<and> day env d = day env (coerceToThisZone d other))"

text \<open>The mean, rounded to the nearest millisecond, halves up.\<close>

definition average :: "'z DateTime list \<Rightarrow> datetime_error + 'z DateTime" where
  "average vs =
     (if vs = [] then Inl NoValues
      else let n = int (length vs); total = sum_list (map epochMilliseconds vs) in
        Inr \<lparr>epochMilliseconds = (2 * total + n) div (2 * n), timezone = timezone (hd vs)\<rparr>)"

text \<open>Questions about the present take the present instant.\<close>

definition isToday :: "'z platform \<Rightarrow> int \<Rightarrow> 'z DateTime \<Rightarrow> bool" where
  "isToday env now d = isSame env d Day (fromTimestamp now (timezone d)) None"

definition isTomorrow :: "'z platform \<Rightarrow> int \<Rightarrow> 'z DateTime \<Rightarrow> bool" where
  "isTomorrow env now d = isSame env d Day (addDays env (fromTimestamp now (timezone d)) 1) None"

definition isYesterday :: "'z platform \<Rightarrow> int \<Rightarrow> 'z DateTime \<Rightarrow> bool" where
  "isYesterday env now d = isSame env d Day (addDays env (fromTimestamp now (timezone d)) (- 1)) None"

definition isNextMonth :: "'z platform \<Rightarrow> int \<Rightarrow> 'z DateTime \<Rightarrow> bool" where
  "isNextMonth env now d = isSame env d Month (addMonths env (fromTimestamp now (timezone d)) 1) None"

definition isPast :: "int \<Rightarrow> 'z DateTime \<Rightarrow> bool" where "isPast now d = (epochMilliseconds d < now)"
definition isFuture :: "int \<Rightarrow> 'z DateTime \<Rightarrow> bool" where "isFuture now d = (now < epochMilliseconds d)"

definition age :: "'z platform \<Rightarrow> int \<Rightarrow> 'z DateTime \<Rightarrow> int option" where
  "age env now d = diffInYears env d (fromTimestamp now (timezone d)) False"

end
