(* ===== verification/DateTimeLaws.thy ===== *)
theory DateTimeLaws
  imports DateTimes
begin

text \<open>
  The laws of \<open>DateTimes\<close>: the units of a zone without transitions cut its instants into spans, differences
  in months count steps of \<open>addMonths\<close>, and the searches for business days and weekdays end.
\<close>

section \<open>Zones of one offset\<close>

lemma fixed_resolves: "(\<forall>t. off t = k) \<Longrightarrow> instantFromCivilMs off c policy = Inr (c - k)"
  by (simp add: instantFromCivilMs_def zone_probes_def Let_def)

lemma fixed_moved: "(\<forall>t. offset_in env (timezone d) t = k) \<Longrightarrow> movedTo env d c policy = withInstant d (c - k)"
  by (simp add: movedTo_def fixed_resolves)

lemma fixed_civil: "(\<forall>t. offset_in env (timezone d) t = k) \<Longrightarrow> civilMs env d = epochMilliseconds d + k"
  by (simp add: civilMs_def civilMsFromInstant_def)

lemma withInstant_simps [simp]:
  "epochMilliseconds (withInstant d t) = t" "timezone (withInstant d t) = timezone d" "withInstant (withInstant d t) u = withInstant d u"
  by (simp_all add: withInstant_def)

lemma withInstant_eq: "withInstant d t = e \<longleftrightarrow> timezone e = timezone d \<and> epochMilliseconds e = t"
  by (cases e) (auto simp: withInstant_def)

lemma coerce_simps [simp]: "timezone (coerceToThisZone d e) = timezone d" "epochMilliseconds (coerceToThisZone d e) = epochMilliseconds e"
  by (simp_all add: coerceToThisZone_def inTimezone_def)

lemma fixed_startOf:
  assumes "documented (fns env)" "\<forall>t. offset_in env (timezone d) t = k"
  shows "startOf env d u wo = withInstant d (unit_start (week_start_of env wo) u (unit_index (week_start_of env wo) u (epochMilliseconds d + k)) - k)"
  using assms by (simp add: startOf_def fixed_moved fixed_civil truncated_start)

lemma fixed_endOf:
  assumes "documented (fns env)" "\<forall>t. offset_in env (timezone d) t = k"
  shows "endOf env d u wo = withInstant d (unit_start (week_start_of env wo) u (unit_index (week_start_of env wo) u (epochMilliseconds d + k) + 1) - 1 - k)"
  using assms by (simp add: endOf_def fixed_moved fixed_civil truncated_end)

text \<open>
  C36. In a zone without transitions the units of every kind, weeks with any first day included, cut the
  instants into spans: \<open>startOf\<close> and \<open>endOf\<close> are the ends of the span of an instant and lie in it, the span after
  it starts a millisecond later, \<open>isSame\<close> holds exactly for the instants in the span, whatever their zone,
  and \<open>ceil\<close> is the start of the span after, unless the instant starts its own.
\<close>

theorem units_partition:
  assumes "documented (fns env)" "\<forall>t. offset_in env (timezone d) t = k"
  shows "let s = startOf env d unit wo; e = endOf env d unit wo; n = withInstant d (epochMilliseconds e + 1) in
    epochMilliseconds s \<le> epochMilliseconds d \<and> epochMilliseconds d \<le> epochMilliseconds e \<and>
    startOf env s unit wo = s \<and> startOf env e unit wo = s \<and> endOf env s unit wo = e \<and> startOf env n unit wo = n \<and>
    (isSame env d unit other wo \<longleftrightarrow> epochMilliseconds s \<le> epochMilliseconds other \<and> epochMilliseconds other \<le> epochMilliseconds e) \<and>
    ceil env d unit wo = (if d = s then d else n)"
proof -
  let ?ws = "week_start_of env wo"
  let ?start = "unit_start ?ws unit" and ?index = "unit_index ?ws unit"
  define i where i: "i = ?index (epochMilliseconds d + k)"
  note u = unit_boundaries [of ?ws unit]
  note bounds = boundaries.start_le [OF u, of "epochMilliseconds d + k", folded i] boundaries.less_next [OF u, of "epochMilliseconds d + k", folded i]
  note at_start = boundaries.index_start [OF u] and at_end = boundaries.index_unique [OF u, of i "?start (i + 1) - 1"]
  have last: "?index (?start (i + 1) - 1) = i" using boundaries.start_less [OF u, of i] by (intro at_end) simp_all
  have s: "startOf env d unit wo = withInstant d (?start i - k)" unfolding i by (rule fixed_startOf [OF assms])
  have e: "endOf env d unit wo = withInstant d (?start (i + 1) - 1 - k)" unfolding i by (rule fixed_endOf [OF assms])
  have same: "isSame env d unit other wo \<longleftrightarrow> ?start i - k \<le> epochMilliseconds other \<and> epochMilliseconds other \<le> ?start (i + 1) - 1 - k"
  proof -
    have "isSame env d unit other wo \<longleftrightarrow> ?index (epochMilliseconds other + k) = i"
      unfolding isSame_def s by (simp add: fixed_startOf assms boundaries.start_inject [OF u] eq_commute [of i])
    also have "\<dots> \<longleftrightarrow> ?start i \<le> epochMilliseconds other + k \<and> epochMilliseconds other + k < ?start (i + 1)"
      using boundaries.same_index [OF u, of "epochMilliseconds other + k" "epochMilliseconds d + k"] unfolding i .
    finally show ?thesis by auto
  qed
  have ce: "ceil env d unit wo = (if d = withInstant d (?start i - k) then d else withInstant d (?start (i + 1) - k))"
    unfolding ceil_def truncated_start [OF assms(1)] truncated_end [OF assms(1)] fixed_civil [OF assms(2)] fixed_moved [OF assms(2)] i [symmetric]
    by (auto simp: withInstant_eq eq_commute [of d])
  show ?thesis
    using bounds unfolding Let_def s e same ce
    by (simp add: fixed_startOf fixed_endOf assms at_start last)
qed

definition utc_platform :: "unit platform" where
  "utc_platform = \<lparr>offset_in = \<lambda>_ _. 0, fns = reference_fns, default_week_start = 1\<rparr>"

theorem units_partition_witness:
  "isSame utc_platform (fromTimestamp 1709164800000 ()) Quarter (fromTimestamp 1704067200000 ()) None \<longleftrightarrow>
   epochMilliseconds (startOf utc_platform (fromTimestamp 1709164800000 ()) Quarter None) \<le> 1704067200000 \<and>
   1704067200000 \<le> epochMilliseconds (endOf utc_platform (fromTimestamp 1709164800000 ()) Quarter None)"
  using units_partition [of utc_platform "fromTimestamp 1709164800000 ()" 0 Quarter None "fromTimestamp 1704067200000 ()"]
  by (simp add: Let_def utc_platform_def reference_documented fromTimestamp_def)

section \<open>Differences in months\<close>

lemma shift_number: "month_number (shift_months c n) = month_number c + n"
  and shift_zero: "shift_months c 0 = c"
proof -
  let ?d = "decodeCivil c" and ?N = "month_number c + n"
  have N: "c_year ?d * 12 + (c_month ?d - 1) + n = ?N" by (simp add: month_number_def)
  let ?y = "?N div 12" and ?m = "?N mod 12 + 1"
  have m: "1 \<le> ?m" "?m \<le> 12" using pos_mod_sign [of 12 ?N] pos_mod_bound [of 12 ?N] by linarith+
  let ?c = "?d\<lparr>c_year := ?y, c_month := ?m, c_day := min (c_day ?d) (daysInCivilMonth ?y ?m)\<rparr>"
  have "1 \<le> daysInCivilMonth ?y ?m" using month_length_pos [OF m] by (simp add: daysInCivilMonth_eq m)
  then have "componentsAreInRange ?c"
    using m decode_ranges [of c] by (auto simp: componentsAreInRange_def not_less)
  then have "decodeCivil (shift_months c n) = ?c" by (simp add: shift_months_def Let_def N decode_encode)
  then show "month_number (shift_months c n) = ?N" by (simp add: month_number_def [of "shift_months c n"])
next
  let ?d = "decodeCivil c"
  note n = numbered [OF decode_ranges(1,2) [of c], of "c_year ?d"]
  have "min (c_day ?d) (daysInCivilMonth (c_year ?d) (c_month ?d)) = c_day ?d"
    using decode_ranges [of c] by (simp add: daysInCivilMonth_eq)
  then show "shift_months c 0 = c" unfolding shift_months_def Let_def add_0_right n by (simp add: encode_decode)
qed

lemma shift_mono: "m < n \<Longrightarrow> shift_months c m < shift_months c n"
proof -
  assume "m < n"
  then have "month_first (month_number (shift_months c m) + 1) \<le> month_first (month_number (shift_months c n))"
    using boundaries.start_mono [OF unit_boundaries [of _ Month], of "month_number c + m + 1" "month_number c + n"]
    by (simp add: shift_number unit_start_def)
  then show ?thesis using month_number_bounds [of "shift_months c m"] month_number_bounds [of "shift_months c n"] by linarith
qed

text \<open>Counting steps that move strictly forward.\<close>

lemma climbs: "(\<And>m n. m < n \<Longrightarrow> f m < f (n :: int)) \<Longrightarrow> m \<le> n \<Longrightarrow> f m + (n - m) \<le> (f n :: int)"
proof (induction "nat (n - m)" arbitrary: n)
  case (Suc k)
  then have "f m + (n - 1 - m) \<le> f (n - 1)" by (intro Suc.hyps(1)) auto
  moreover have "f (n - 1) < f n" using Suc by simp
  ultimately show ?case by linarith
qed simp

lemma count_up:
  assumes mono: "\<And>m n. m < n \<Longrightarrow> f m < f n"
  shows "f w \<le> b \<Longrightarrow> \<exists>v \<ge> w. count_steps f b 1 w = Some v \<and> f v \<le> b \<and> b < f (v + 1)"
proof (induction "nat (b - f w)" arbitrary: w rule: less_induct)
  case less
  show ?case
  proof (cases "b < f (w + 1)")
    case True
    then show ?thesis using less.prems by (intro exI [of _ w]) (simp add: count_steps.simps)
  next
    case False
    then have "nat (b - f (w + 1)) < nat (b - f w)" using mono [of w "w + 1"] by simp
    then obtain v where "w + 1 \<le> v" "count_steps f b 1 (w + 1) = Some v" "f v \<le> b" "b < f (v + 1)"
      using less.hyps [of "w + 1"] False by auto
    then show ?thesis using False by (intro exI [of _ v]) (simp add: count_steps.simps [of f b 1 w])
  qed
qed

lemma count_down:
  assumes mono: "\<And>m n. m < n \<Longrightarrow> f m < f n"
  shows "b \<le> f w \<Longrightarrow> \<exists>v \<le> w. count_steps f b (- 1) w = Some v \<and> b \<le> f v \<and> f (v - 1) < b"
proof (induction "nat (f w - b)" arbitrary: w rule: less_induct)
  case less
  show ?case
  proof (cases "f (w - 1) < b")
    case True
    then show ?thesis using less.prems by (intro exI [of _ w]) (simp add: count_steps.simps)
  next
    case False
    then have "nat (f (w - 1) - b) < nat (f w - b)" using mono [of "w - 1" w] by simp
    then obtain v where "v \<le> w - 1" "count_steps f b (- 1) (w - 1) = Some v" "b \<le> f v" "f (v - 1) < b"
      using less.hyps [of "w - 1"] False by auto
    then show ?thesis using False by (intro exI [of _ v]) (simp add: count_steps.simps [of f b "- 1" w])
  qed
qed



section \<open>Searches by day\<close>

lemma business_loop_finds:
  assumes "0 < left"
  shows "case business_loop open_day step_on left guard cursor of
      Inr x \<Rightarrow> \<exists>k \<le> guard. x = (step_on ^^ k) cursor \<and> open_day x \<and>
        length (filter (\<lambda>j. open_day ((step_on ^^ j) cursor)) [0..<Suc k]) = left
    | Inl e \<Rightarrow> e = TooFewBusinessDays \<and> length (filter (\<lambda>j. open_day ((step_on ^^ j) cursor)) [0..<Suc guard]) < left"
  using assms
proof (induction guard arbitrary: left cursor)
  case 0
  then show ?case by (auto simp: business_loop.simps Let_def)
next
  case (Suc guard)
  have later: "length (filter (\<lambda>j. open_day ((step_on ^^ j) cursor)) [0..<Suc (Suc k)]) =
      (if open_day cursor then 1 else 0) + length (filter (\<lambda>j. open_day ((step_on ^^ j) (step_on cursor))) [0..<Suc k])" for k
  proof -
    have "[0..<Suc (Suc k)] = 0 # map Suc [0..<Suc k]" using upt_conv_Cons [of 0 "Suc (Suc k)"] map_Suc_upt [of 0 "Suc k"] by (simp del: upt_Suc)
    then show ?thesis by (simp add: filter_map comp_def funpow_swap1 del: upt_Suc)
  qed
  define left' where left': "left' = (if open_day cursor then left - 1 else left)"
  show ?case
  proof (cases "open_day cursor \<and> left' = 0")
    case True
    then show ?thesis using Suc.prems by (auto simp: business_loop.simps [of _ _ _ "Suc guard"] left' intro!: exI [of _ 0])
  next
    case False
    then have pos: "0 < left'" using Suc.prems by (auto simp: left')
    have loop: "business_loop open_day step_on left (Suc guard) cursor = business_loop open_day step_on left' guard (step_on cursor)"
      using False by (auto simp: business_loop.simps [of _ _ _ "Suc guard"] left' Let_def)
    have left: "left = left' + (if open_day cursor then 1 else 0)" using Suc.prems by (auto simp: left')
    show ?thesis
    proof (cases "business_loop open_day step_on left' guard (step_on cursor)")
      case (Inl e)
      then show ?thesis
        using Suc.IH [OF pos, of "step_on cursor"] left unfolding loop by (simp add: later del: upt_Suc split: if_splits)
    next
      case (Inr x)
      then obtain k where "k \<le> guard" "x = (step_on ^^ k) (step_on cursor)" "open_day x"
        "length (filter (\<lambda>j. open_day ((step_on ^^ j) (step_on cursor))) [0..<Suc k]) = left'"
        using Suc.IH [OF pos, of "step_on cursor"] by auto
      then show ?thesis
        using left unfolding loop Inr sum.case
        by (intro exI [of _ "Suc k"]) (simp add: later funpow_swap1 del: upt_Suc split: if_splits)
    qed
  qed
qed

text \<open>The days that a search visits: those after the given one, in its direction.\<close>

definition business_step :: "'z platform \<Rightarrow> int \<Rightarrow> 'z DateTime \<Rightarrow> 'z DateTime" where
  "business_step env amount c = addDays env c (if amount < 0 then - 1 else 1)"

definition open_days :: "'z platform \<Rightarrow> 'z BusinessDayOptions \<Rightarrow> int \<Rightarrow> 'z DateTime \<Rightarrow> nat \<Rightarrow> nat" where
  "open_days env opts amount d k = length (filter (\<lambda>j. isBusinessDay env opts ((business_step env amount ^^ j) d)) [1..<Suc k])"

text \<open>
  C38. Adding business days, forwards or backwards and under any weekend and holidays, always ends.  The result
  is the \<open>|amount|\<close>-th business day after the start, which does not count itself; the error is raised only when
  the 14 \<open>|amount|\<close> + 3661 days searched hold fewer.
\<close>

theorem addBusinessDays_finds:
  "case addBusinessDays env d amount opts of
     Inr x \<Rightarrow> \<exists>k. x = (business_step env amount ^^ k) d \<and> open_days env opts amount d k = nat \<bar>amount\<bar> \<and>
       (if amount = 0 then k = 0 else isBusinessDay env opts x)
   | Inl e \<Rightarrow> e = TooFewBusinessDays \<and> open_days env opts amount d (14 * nat \<bar>amount\<bar> + 3661) < nat \<bar>amount\<bar>"
proof (cases "amount = 0")
  case False
  let ?step = "business_step env amount" and ?n = "nat \<bar>amount\<bar>"
  have shifted: "open_days env opts amount d (Suc k) =
      length (filter (\<lambda>j. isBusinessDay env opts ((?step ^^ j) (?step d))) [0..<Suc k])" for k
  proof -
    have "[1..<Suc (Suc k)] = map Suc [0..<Suc k]" by (simp only: map_Suc_upt One_nat_def)
    then show ?thesis by (simp add: open_days_def filter_map comp_def funpow_swap1 del: upt_Suc)
  qed
  have loop: "addBusinessDays env d amount opts = business_loop (isBusinessDay env opts) ?step ?n (business_guard ?n) (?step d)"
    using False by (simp add: addBusinessDays_def Let_def business_step_def [abs_def])
  have n: "0 < ?n" using False by simp
  have total: "14 * ?n + 3661 = Suc (business_guard ?n)" by (simp add: business_guard_def)
  note found = business_loop_finds [OF n, of "isBusinessDay env opts" ?step "?step d" "business_guard ?n"]
  show ?thesis
  proof (cases "addBusinessDays env d amount opts")
    case (Inl e)
    then show ?thesis using found unfolding loop [symmetric] total shifted by simp
  next
    case (Inr x)
    then obtain k where "x = (?step ^^ k) (?step d)" "isBusinessDay env opts x"
      "length (filter (\<lambda>j. isBusinessDay env opts ((?step ^^ j) (?step d))) [0..<Suc k]) = ?n"
      using found unfolding loop [symmetric] by auto
    then show ?thesis using Inr False by (auto simp: shifted funpow_swap1 simp del: upt_Suc intro!: exI [of _ "Suc k"])
  qed
qed (auto simp: addBusinessDays_def open_days_def intro!: exI [of _ 0])

section \<open>Midnights that do not exist\<close>

text \<open>Sao Paulo in November 2018: on Sunday the 4th the clock went from 00:00 to 01:00.\<close>

definition sao_paulo :: "unit platform" where
  "sao_paulo = \<lparr>offset_in = \<lambda>_ t. if t < 1541300400000 then - 10800000 else - 7200000, fns = reference_fns, default_week_start = 1\<rparr>"

lemma sao_paulo_simps:
  "offset_in sao_paulo z = (\<lambda>t. if t < 1541300400000 then - 10800000 else - 7200000)"
  "documented (fns sao_paulo)"
  by (simp_all add: sao_paulo_def reference_documented)

lemma sao_paulo_moves:
  "movedTo sao_paulo \<lparr>epochMilliseconds = t, timezone = ()\<rparr> c Compatible =
   \<lparr>epochMilliseconds = (case instantFromCivilMs (\<lambda>t. if t < 1541300400000 then - 10800000 else - 7200000) c Compatible of Inl _ \<Rightarrow> t | Inr u \<Rightarrow> u),
    timezone = ()\<rparr>"
  by (simp add: movedTo_def sao_paulo_simps withInstant_def split: sum.split)

text \<open>
  From Friday the 2nd at noon, the next weekday is documented to be Monday at midnight.  The loop steps through
  that Sunday from its first instant, 01:00, and ends on Monday at 01:00.
\<close>

lemma next_weekday_off_midnight:
  "nextWeekday sao_paulo \<lparr>epochMilliseconds = 1541170800000, timezone = ()\<rparr> = Some \<lparr>epochMilliseconds = 1541386800000, timezone = ()\<rparr> \<and>
   hour sao_paulo \<lparr>epochMilliseconds = 1541386800000, timezone = ()\<rparr> = 1 \<and>
   startOf sao_paulo \<lparr>epochMilliseconds = 1541386800000, timezone = ()\<rparr> Day None = \<lparr>epochMilliseconds = 1541383200000, timezone = ()\<rparr>"
  by (simp add: nextWeekday_def step_while.simps startOf_def addDays_def sao_paulo_moves isWeekend_def dayOfWeek_def civilWeekday_def
      civilMs_def civilMsFromInstant_def sao_paulo_simps documentedD [OF sao_paulo_simps(2)] truncated_start [OF sao_paulo_simps(2)]
      unit_start_def unit_index_def instantFromCivilMs_def zone_probes_def ms_defs Let_def resolveGap_def min_of_def
      hour_def components_def componentsFromInstant_def decodeCivil_def)

end
