(* ===== verification/Intervals.thy ===== *)
theory Intervals
  imports DateTimes
begin

text \<open>
  Spans between two instants, \<open>framework/datetime/src/interval.ts\<close>: the start is in the span and the end is
  not.  \<open>instants\<close> is the set a span stands for; the operations are compared with those on sets.
\<close>

record 'z Interval =
  starts :: "'z DateTime"
  ends :: "'z DateTime"

datatype interval_error = InvalidIntervalError

definition interval :: "'z DateTime \<Rightarrow> 'z DateTime \<Rightarrow> 'z Interval" where
  "interval a b = \<lparr>starts = a, ends = b\<rparr>"

definition between :: "'z DateTime \<Rightarrow> 'z DateTime \<Rightarrow> interval_error + 'z Interval" where
  "between start_at end_at =
     (let to_end = inTimezone end_at (timezone start_at) in
      if isBefore to_end start_at then Inl InvalidIntervalError else Inr (interval start_at to_end))"

definition around :: "'z DateTime \<Rightarrow> 'z DateTime \<Rightarrow> interval_error + 'z Interval" where
  "around a b = (if isBefore b a then between b a else between a b)"

definition closed_interval :: "'z DateTime \<Rightarrow> 'z DateTime \<Rightarrow> interval_error + 'z Interval" where
  "closed_interval a b = between a (addMilliseconds b 1)"

definition fromDuration :: "'z platform \<Rightarrow> 'z DateTime \<Rightarrow> Duration \<Rightarrow> interval_error + 'z Interval" where
  "fromDuration env a duration = between a (add_duration env a duration)"

definition endingAt :: "'z platform \<Rightarrow> 'z DateTime \<Rightarrow> Duration \<Rightarrow> interval_error + 'z Interval" where
  "endingAt env b duration = between (subtract_duration env b duration) b"

definition empty_interval :: "'z DateTime \<Rightarrow> 'z Interval" where
  "empty_interval a = interval a a"

definition lengthMs :: "'z Interval \<Rightarrow> int" where
  "lengthMs i = epochMilliseconds (ends i) - epochMilliseconds (starts i)"

definition isEmpty :: "'z Interval \<Rightarrow> bool" where
  "isEmpty i = (lengthMs i = 0)"

definition endInclusive :: "'z Interval \<Rightarrow> interval_error + 'z DateTime" where
  "endInclusive i = (if isEmpty i then Inl InvalidIntervalError else Inr (addMilliseconds (ends i) (- 1)))"

definition interval_zone :: "'z Interval \<Rightarrow> 'z" where
  "interval_zone i = timezone (starts i)"

definition interval_inTimezone :: "'z Interval \<Rightarrow> 'z \<Rightarrow> 'z Interval" where
  "interval_inTimezone i zone = interval (inTimezone (starts i) zone) (inTimezone (ends i) zone)"

definition contains :: "'z Interval \<Rightarrow> 'z DateTime \<Rightarrow> bool" where
  "contains i t = (epochMilliseconds (starts i) \<le> epochMilliseconds t \<and> epochMilliseconds t < epochMilliseconds (ends i))"

definition encloses :: "'z Interval \<Rightarrow> 'z Interval \<Rightarrow> bool" where
  "encloses i other =
     (if isEmpty other then contains i (starts other)
      else epochMilliseconds (starts i) \<le> epochMilliseconds (starts other) \<and> epochMilliseconds (ends other) \<le> epochMilliseconds (ends i))"

definition overlaps :: "'z Interval \<Rightarrow> 'z Interval \<Rightarrow> bool" where
  "overlaps i other =
     (if isEmpty i \<or> isEmpty other then False
      else epochMilliseconds (starts i) < epochMilliseconds (ends other) \<and> epochMilliseconds (starts other) < epochMilliseconds (ends i))"

definition isAdjacent :: "'z Interval \<Rightarrow> 'z Interval \<Rightarrow> bool" where
  "isAdjacent i other = (isEqual (ends i) (starts other) \<or> isEqual (ends other) (starts i))"

definition interval_isBefore :: "'z Interval \<Rightarrow> 'z Interval \<Rightarrow> bool" where
  "interval_isBefore i other = (epochMilliseconds (ends i) \<le> epochMilliseconds (starts other))"

definition interval_equals :: "'z Interval \<Rightarrow> 'z Interval \<Rightarrow> bool" where
  "interval_equals i other = (isEqual (starts i) (starts other) \<and> isEqual (ends i) (ends other))"

text \<open>\<open>DateTime.min\<close> and \<open>max\<close> of two.\<close>

definition earlier_of :: "'z DateTime \<Rightarrow> 'z DateTime \<Rightarrow> 'z DateTime" where
  "earlier_of a b = (if isBefore b a then b else a)"

definition later_of :: "'z DateTime \<Rightarrow> 'z DateTime \<Rightarrow> 'z DateTime" where
  "later_of a b = (if isAfter b a then b else a)"

lemma picks_two: "earliest [a, b] = Inr (earlier_of a b)" "latest [a, b] = Inr (later_of a b)"
  by (simp_all add: earliest_def latest_def pick_def earlier_of_def later_of_def)

definition intersection :: "'z Interval \<Rightarrow> 'z Interval \<Rightarrow> 'z Interval option" where
  "intersection i other =
     (if \<not> overlaps i other then None
      else Some (interval (inTimezone (later_of (starts i) (starts other)) (interval_zone i))
        (inTimezone (earlier_of (ends i) (ends other)) (interval_zone i))))"

definition union_with :: "'z Interval \<Rightarrow> 'z Interval \<Rightarrow> 'z Interval option" where
  "union_with i other =
     (if \<not> overlaps i other \<and> \<not> isAdjacent i other then None
      else Some (interval (inTimezone (earlier_of (starts i) (starts other)) (interval_zone i))
        (inTimezone (later_of (ends i) (ends other)) (interval_zone i))))"

definition difference :: "'z Interval \<Rightarrow> 'z Interval \<Rightarrow> 'z Interval list" where
  "difference i other =
     (if \<not> overlaps i other then (if isEmpty i then [] else [i])
      else (if isBefore (starts i) (starts other) then [interval (starts i) (inTimezone (starts other) (interval_zone i))] else []) @
        (if isBefore (ends other) (ends i) then [interval (inTimezone (ends other) (interval_zone i)) (ends i)] else []))"

definition gap :: "'z Interval \<Rightarrow> 'z Interval \<Rightarrow> 'z Interval option" where
  "gap i other =
     (if overlaps i other \<or> isAdjacent i other then None
      else Some (if interval_isBefore i other then interval (ends i) (inTimezone (starts other) (interval_zone i))
        else interval (inTimezone (ends other) (interval_zone i)) (starts i)))"

definition shift_interval :: "'z platform \<Rightarrow> 'z Interval \<Rightarrow> Duration \<Rightarrow> 'z Interval" where
  "shift_interval env i duration = interval (add_duration env (starts i) duration) (add_duration env (ends i) duration)"

definition expand :: "'z platform \<Rightarrow> 'z Interval \<Rightarrow> Duration \<Rightarrow> interval_error + 'z Interval" where
  "expand env i amount = between (subtract_duration env (starts i) amount) (add_duration env (ends i) amount)"

definition withStart :: "'z Interval \<Rightarrow> 'z DateTime \<Rightarrow> interval_error + 'z Interval" where
  "withStart i a = between a (ends i)"

definition withEnd :: "'z Interval \<Rightarrow> 'z DateTime \<Rightarrow> interval_error + 'z Interval" where
  "withEnd i b = between (starts i) b"

fun split_loop :: "'z \<Rightarrow> int list \<Rightarrow> 'z DateTime \<Rightarrow> 'z Interval list \<Rightarrow> 'z DateTime \<times> 'z Interval list" where
  "split_loop zone [] cursor pieces = (cursor, pieces)"
| "split_loop zone (t0 # cuts) cursor pieces =
     (let t = fromTimestamp t0 zone in
      if isEqual t cursor then split_loop zone cuts cursor pieces
      else split_loop zone cuts t (pieces @ [interval cursor t]))"

definition splitAt :: "'z Interval \<Rightarrow> 'z DateTime list \<Rightarrow> 'z Interval list" where
  "splitAt i ts =
     (let cuts = sort (map epochMilliseconds (filter (\<lambda>t. contains i t \<and> \<not> isEqual t (starts i)) ts));
          (cursor, pieces) = split_loop (interval_zone i) cuts (starts i) [] in
      if \<not> isEqual cursor (ends i) \<or> pieces = [] then pieces @ [interval cursor (ends i)] else pieces)"

section \<open>Spans as sets of instants\<close>

definition instants :: "'z Interval \<Rightarrow> int set" where
  "instants i = {t. epochMilliseconds (starts i) \<le> t \<and> t < epochMilliseconds (ends i)}"

text \<open>What the factories give: neither end before the start nor in another zone.\<close>

definition wf_interval :: "'z Interval \<Rightarrow> bool" where
  "wf_interval i \<longleftrightarrow> epochMilliseconds (starts i) \<le> epochMilliseconds (ends i) \<and> timezone (ends i) = timezone (starts i)"

lemma zone_simps [simp]: "epochMilliseconds (inTimezone d z) = epochMilliseconds d" "timezone (inTimezone d z) = z"
  "starts (interval a b) = a" "ends (interval a b) = b"
  by (simp_all add: inTimezone_def interval_def)

lemma later_earlier [simp]:
  "epochMilliseconds (later_of a b) = max (epochMilliseconds a) (epochMilliseconds b)"
  "epochMilliseconds (earlier_of a b) = min (epochMilliseconds a) (epochMilliseconds b)"
  by (auto simp: later_of_def earlier_of_def)

lemmas interval_defs = instants_def wf_interval_def overlaps_def isEmpty_def lengthMs_def isAdjacent_def interval_zone_def

lemma between_wf: "between a b = Inr i \<Longrightarrow> wf_interval i"
  by (auto simp: between_def wf_interval_def split: if_splits)

lemma overlaps_iff: "wf_interval i \<Longrightarrow> wf_interval j \<Longrightarrow> overlaps i j \<longleftrightarrow> instants i \<inter> instants j \<noteq> {}"
  by (auto simp: interval_defs set_eq_iff intro!: exI [of _ "max (epochMilliseconds (starts i)) (epochMilliseconds (starts j))"])

lemma intersection_instants:
  assumes "wf_interval i" "wf_interval j"
  shows "case intersection i j of None \<Rightarrow> instants i \<inter> instants j = {} | Some r \<Rightarrow> wf_interval r \<and> instants r = instants i \<inter> instants j"
  using overlaps_iff [OF assms] assms by (auto simp: intersection_def interval_defs split: if_splits)

lemma union_instants:
  assumes "wf_interval i" "wf_interval j" "union_with i j = Some r"
  shows "wf_interval r \<and> instants r = instants i \<union> instants j"
  using assms by (auto simp: union_with_def interval_defs split: if_splits)

lemma difference_instants:
  assumes "wf_interval i" "wf_interval j"
  shows "\<Union> (instants ` set (difference i j)) = instants i - instants j \<and>
    (\<forall>p \<in> set (difference i j). wf_interval p \<and> \<not> isEmpty p \<and> interval_zone p = interval_zone i)"
  using assms by (auto simp: difference_def interval_defs split: if_splits)

lemma gap_instants:
  assumes "wf_interval i" "wf_interval j" "\<not> isEmpty i" "\<not> isEmpty j" "gap i j = Some g"
  shows "wf_interval g \<and> \<not> isEmpty g \<and> instants g \<inter> (instants i \<union> instants j) = {} \<and>
    (\<forall>a \<in> instants i. \<forall>b \<in> instants j. \<forall>t \<in> instants g. (a < t \<longleftrightarrow> t < b))"
  using assms by (auto simp: gap_def interval_isBefore_def interval_defs split: if_splits)

text \<open>
  C39. The operations on half-open intervals are those on the sets of instants they stand for.  \<open>overlaps\<close> says
  that the sets meet; \<open>intersection\<close> is the common part, or nothing if there is none; a \<open>union\<close> covers
  exactly both; the pieces of a \<open>difference\<close>, none of them empty, cover what remains; all are in the zone of
  the first interval, with no end before its start.
\<close>

theorem interval_algebra:
  assumes "wf_interval i" "wf_interval j"
  shows "overlaps i j = (instants i \<inter> instants j \<noteq> {}) \<and>
    (case intersection i j of None \<Rightarrow> instants i \<inter> instants j = {} | Some r \<Rightarrow> wf_interval r \<and> instants r = instants i \<inter> instants j) \<and>
    (case union_with i j of None \<Rightarrow> \<not> overlaps i j \<and> \<not> isAdjacent i j | Some r \<Rightarrow> wf_interval r \<and> instants r = instants i \<union> instants j) \<and>
    \<Union> (instants ` set (difference i j)) = instants i - instants j \<and>
    list_all (\<lambda>p. wf_interval p \<and> \<not> isEmpty p \<and> interval_zone p = interval_zone i) (difference i j)"
proof (intro conjI)
  show "case union_with i j of None \<Rightarrow> \<not> overlaps i j \<and> \<not> isAdjacent i j | Some r \<Rightarrow> wf_interval r \<and> instants r = instants i \<union> instants j"
    using union_instants [OF assms] by (cases "union_with i j") (simp_all add: union_with_def split: if_splits)
qed (use overlaps_iff [OF assms] intersection_instants [OF assms] difference_instants [OF assms] in \<open>simp_all add: list_all_iff\<close>)

text \<open>An interval of [9, 17) and one of [12, 13).\<close>

theorem interval_algebra_witness:
  "\<Union> (instants ` set (difference (interval (fromTimestamp 9 ()) (fromTimestamp 17 ())) (interval (fromTimestamp 12 ()) (fromTimestamp 13 ())))) =
   {t. 9 \<le> t \<and> t < 17} - {t. 12 \<le> t \<and> t < 13}"
  using interval_algebra [of "interval (fromTimestamp 9 ()) (fromTimestamp 17 ())" "interval (fromTimestamp 12 ()) (fromTimestamp 13 ())"]
  by (simp add: wf_interval_def instants_def fromTimestamp_def)

section \<open>Cutting\<close>

text \<open>Non-empty spans from one instant to another, each starting where the one before ends.\<close>

fun tiles :: "'z Interval list \<Rightarrow> 'z DateTime \<Rightarrow> 'z DateTime \<Rightarrow> bool" where
  "tiles [] a b = (a = b)"
| "tiles (p # ps) a b = (starts p = a \<and> epochMilliseconds a < epochMilliseconds (ends p) \<and> tiles ps (ends p) b)"

lemma tiles_snoc: "tiles (ps @ [p]) a b \<longleftrightarrow> (\<exists>c. tiles ps a c \<and> starts p = c \<and> epochMilliseconds c < epochMilliseconds (ends p) \<and> ends p = b)"
  by (induction ps arbitrary: a) auto

lemma fromTimestamp_simps [simp]: "epochMilliseconds (fromTimestamp t z) = t" "timezone (fromTimestamp t z) = z"
  by (simp_all add: fromTimestamp_def)

lemma split_loop_tiles:
  assumes "tiles pieces a cursor" "sorted (epochMilliseconds cursor # cuts)" "split_loop z cuts cursor pieces = (cursor', pieces')"
  shows "tiles pieces' a cursor' \<and> epochMilliseconds cursor' \<in> insert (epochMilliseconds cursor) (set cuts) \<and>
    (\<exists>qs. pieces' = pieces @ qs \<and> (epochMilliseconds \<circ> ends) ` set qs = set cuts - {epochMilliseconds cursor})"
  using assms
proof (induction cuts arbitrary: cursor pieces)
  case (Cons t cuts)
  show ?case
  proof (cases "t = epochMilliseconds cursor")
    case True
    then show ?thesis using Cons.IH [of pieces cursor] Cons.prems by simp
  next
    case False
    let ?t = "fromTimestamp t z"
    have "tiles (pieces @ [interval cursor ?t]) a ?t" using Cons.prems False by (auto simp: tiles_snoc)
    moreover have "sorted (epochMilliseconds ?t # cuts)" using Cons.prems by simp
    moreover have "split_loop z cuts ?t (pieces @ [interval cursor ?t]) = (cursor', pieces')" using Cons.prems False by (simp add: Let_def)
    ultimately obtain qs where qs: "tiles pieces' a cursor'" "epochMilliseconds cursor' \<in> insert t (set cuts)"
      "pieces' = pieces @ interval cursor ?t # qs" "(epochMilliseconds \<circ> ends) ` set qs = set cuts - {t}"
      using Cons.IH [of "pieces @ [interval cursor ?t]" ?t] by auto
    have "set (t # cuts) - {epochMilliseconds cursor} = insert t (set cuts - {t})" using Cons.prems(2) False by auto
    then show ?thesis using qs by (intro conjI exI [of _ "interval cursor ?t # qs"]) auto
  qed
qed simp

text \<open>
  Cutting a non-empty interval leaves non-empty pieces, each starting where the one before ends, from its
  start to its end, and cuts it at the given instants that lie strictly inside it and nowhere else,
  whatever their order, repetitions and zones.
\<close>

lemma splitAt_tiles:
  assumes "wf_interval i" "\<not> isEmpty i"
  shows "tiles (splitAt i ts) (starts i) (ends i) \<and>
    (epochMilliseconds \<circ> ends) ` set (splitAt i ts) =
      insert (epochMilliseconds (ends i))
        {t \<in> epochMilliseconds ` set ts. epochMilliseconds (starts i) < t \<and> t < epochMilliseconds (ends i)}"
proof -
  let ?s = "epochMilliseconds (starts i)" and ?e = "epochMilliseconds (ends i)"
  define cuts where "cuts = sort (map epochMilliseconds (filter (\<lambda>t. contains i t \<and> \<not> isEqual t (starts i)) ts))"
  have inside: "set cuts = {t \<in> epochMilliseconds ` set ts. ?s < t \<and> t < ?e}" by (auto simp: cuts_def contains_def)
  obtain cursor pieces where loop: "split_loop (interval_zone i) cuts (starts i) [] = (cursor, pieces)" by fastforce
  have "sorted (?s # cuts)" using inside by (auto simp: cuts_def)
  note run = split_loop_tiles [OF _ this loop, of "starts i", simplified]
  have "?s < ?e" using assms by (simp add: wf_interval_def isEmpty_def lengthMs_def)
  then have before: "epochMilliseconds cursor < ?e" using run inside by auto
  then have result: "splitAt i ts = pieces @ [interval cursor (ends i)]"
    using loop by (simp add: splitAt_def cuts_def Let_def)
  have "(epochMilliseconds \<circ> ends) ` set pieces = set cuts" using run inside by auto
  then show ?thesis using run before by (auto simp: result tiles_snoc inside)
qed


section \<open>Intervals that end before they start\<close>

text \<open>The gap to an empty interval strictly inside another has its end before its start.\<close>

lemma gap_of_enclosed_empty:
  assumes "wf_interval i" "isEmpty j" "wf_interval j" "epochMilliseconds (starts i) < epochMilliseconds (starts j)"
    "epochMilliseconds (ends j) < epochMilliseconds (ends i)"
  shows "\<exists>g. gap i j = Some g \<and> lengthMs g < 0"
  using assms by (auto simp: gap_def interval_isBefore_def interval_defs)

text \<open>
  Shifting by a day is not by a fixed length: the day before a clock goes from 02:00 to 03:00, the interval from
  02:10 to 03:05 shifts to one from 03:10 to 03:05.
\<close>

lemma shift_inverts:
  "let env = \<lparr>offset_in = \<lambda>_. spring, fns = reference_fns, default_week_start = 1\<rparr>;
       i = interval (fromTimestamp (- 78600000) ()) (fromTimestamp (- 75300000) ()) in
   lengthMs i = 3300000 \<and> lengthMs (shift_interval env i (duration_days 1)) = - 300000"
  by (simp add: Let_def lengthMs_def shift_interval_def add_duration_def duration_days_def duration_from_def no_input_def addDays_def
      documentedD [OF reference_documented] movedTo_def civilMs_def civilMsFromInstant_def fromTimestamp_def interval_def withInstant_def
      instantFromCivilMs_def zone_probes_def spring_def ms_defs resolveGap_def min_of_def)

end
