(* ===== verification/Periods.thy ===== *)
theory Periods
  imports Intervals
begin

text \<open>
  Sequences of dates, \<open>framework/datetime/src/period.ts\<close>: the \<open>n\<close>-th candidate is the start plus \<open>n\<close> steps,
  bounded by an end or by a count, filtered, and given up after \<open>maxSteps\<close> candidates.  The iterator is run to
  its end; a filter is a function of the date and the number of the candidate.
\<close>

record PeriodOptions =
  excludeStart :: bool
  excludeEnd :: bool
  maxSteps :: nat

record 'z Period =
  p_start :: "'z DateTime"
  step :: Duration
  endAt :: "'z DateTime option"
  limit :: "nat option"
  predicate :: "('z DateTime \<Rightarrow> nat \<Rightarrow> bool) option"
  p_options :: PeriodOptions

definition default_options :: PeriodOptions where
  "default_options = \<lparr>excludeStart = False, excludeEnd = False, maxSteps = 100000\<rparr>"

definition assertProgress :: "'z platform \<Rightarrow> 'z DateTime \<Rightarrow> Duration \<Rightarrow> bool" where
  "assertProgress env a amount = (\<not> isEqual (add_duration env a amount) a)"

definition period_between :: "'z platform \<Rightarrow> 'z DateTime \<Rightarrow> 'z DateTime \<Rightarrow> Duration \<Rightarrow> PeriodOptions \<Rightarrow> interval_error + 'z Period" where
  "period_between env a b amount opts =
     (let to_end = inTimezone b (timezone a); forward = isAfter (add_duration env a amount) a in
      if \<not> assertProgress env a amount then Inl InvalidIntervalError
      else if (if forward then isBefore to_end a else isAfter to_end a) then Inl InvalidIntervalError
      else Inr \<lparr>p_start = a, step = amount, endAt = Some to_end, limit = None, predicate = None, p_options = opts\<rparr>)"

definition recurring :: "'z platform \<Rightarrow> 'z DateTime \<Rightarrow> Duration \<Rightarrow> int \<Rightarrow> PeriodOptions \<Rightarrow> interval_error + 'z Period" where
  "recurring env a amount count opts =
     (if count < 0 then Inl InvalidIntervalError
      else if \<not> assertProgress env a amount then Inl InvalidIntervalError
      else Inr \<lparr>p_start = a, step = amount, endAt = None, limit = Some (nat count), predicate = None, p_options = opts\<rparr>)"

definition fromInterval :: "'z platform \<Rightarrow> 'z Interval \<Rightarrow> Duration \<Rightarrow> PeriodOptions \<Rightarrow> interval_error + 'z Period" where
  "fromInterval env i amount opts = period_between env (starts i) (ends i) amount (opts\<lparr>excludeEnd := True\<rparr>)"

definition period_filter :: "'z Period \<Rightarrow> ('z DateTime \<Rightarrow> nat \<Rightarrow> bool) \<Rightarrow> 'z Period" where
  "period_filter p f =
     p\<lparr>predicate := Some (case predicate p of None \<Rightarrow> f | Some existing \<Rightarrow> (\<lambda>date n. existing date n \<and> f date n))\<rparr>"

definition withFilter :: "'z Period \<Rightarrow> ('z DateTime \<Rightarrow> nat \<Rightarrow> bool) option \<Rightarrow> 'z Period" where
  "withFilter p f = (case f of None \<Rightarrow> p | Some g \<Rightarrow> period_filter p g)"

definition take_first :: "'z Period \<Rightarrow> int \<Rightarrow> interval_error + 'z Period" where
  "take_first p count =
     (if count < 0 then Inl InvalidIntervalError
      else Inr (p\<lparr>limit := Some (case limit p of None \<Rightarrow> nat count | Some l \<Rightarrow> min l (nat count))\<rparr>))"

definition every :: "'z platform \<Rightarrow> 'z Period \<Rightarrow> Duration \<Rightarrow> interval_error + 'z Period" where
  "every env p amount =
     (if \<not> assertProgress env (p_start p) amount then Inl InvalidIntervalError
      else bindE (case endAt p of
            None \<Rightarrow> recurring env (p_start p) amount (int (nullish (limit p) 0)) (p_options p)
          | Some b \<Rightarrow> period_between env (p_start p) b amount (p_options p))
        (\<lambda>q. Inr (withFilter q (predicate p))))"

definition until :: "'z platform \<Rightarrow> 'z Period \<Rightarrow> 'z DateTime \<Rightarrow> interval_error + 'z Period" where
  "until env p b = bindE (period_between env (p_start p) b (step p) (p_options p)) (\<lambda>q. Inr (withFilter q (predicate p)))"

definition businessDaysOnly :: "'z platform \<Rightarrow> 'z Period \<Rightarrow> 'z BusinessDayOptions \<Rightarrow> 'z Period" where
  "businessDaysOnly env p opts = period_filter p (\<lambda>date _. isBusinessDay env opts date)"

definition excludingStart :: "'z Period \<Rightarrow> 'z Period" where
  "excludingStart p = p\<lparr>p_options := (p_options p)\<lparr>excludeStart := True\<rparr>\<rparr>"

definition excludingEnd :: "'z Period \<Rightarrow> 'z Period" where
  "excludingEnd p = p\<lparr>p_options := (p_options p)\<lparr>excludeEnd := True\<rparr>\<rparr>"

section \<open>The iterator\<close>

definition candidate_at :: "'z platform \<Rightarrow> 'z Period \<Rightarrow> nat \<Rightarrow> 'z DateTime" where
  "candidate_at env p n = (if n = 0 then p_start p else add_duration env (p_start p) (duration_multiply (step p) (int n)))"

definition movesForward :: "'z platform \<Rightarrow> 'z Period \<Rightarrow> bool" where
  "movesForward env p = isAfter (candidate_at env p 1) (p_start p)"

definition isBeyondEnd :: "'z platform \<Rightarrow> 'z Period \<Rightarrow> 'z DateTime \<Rightarrow> bool" where
  "isBeyondEnd env p c =
     (case endAt p of None \<Rightarrow> False | Some b \<Rightarrow> if movesForward env p then isAfter c b else isBefore c b)"

definition accepts :: "'z platform \<Rightarrow> 'z Period \<Rightarrow> nat \<Rightarrow> bool" where
  "accepts env p n =
     (let c = candidate_at env p n;
          skipStart = (n = 0 \<and> excludeStart (p_options p));
          skipEnd = (excludeEnd (p_options p) \<and> (case endAt p of None \<Rightarrow> False | Some b \<Rightarrow> isEqual c b));
          rejected = (case predicate p of None \<Rightarrow> False | Some f \<Rightarrow> \<not> f c n) in
      \<not> skipStart \<and> \<not> skipEnd \<and> \<not> rejected)"

text \<open>What is yielded from the \<open>n\<close>-th candidate on, and whether the iterator then returns or throws.\<close>

datatype end_of_iteration = Returned | GaveUp

function period_loop :: "'z platform \<Rightarrow> 'z Period \<Rightarrow> nat \<Rightarrow> nat \<Rightarrow> 'z DateTime list \<times> end_of_iteration" where
  "period_loop env p n yielded =
     (if maxSteps (p_options p) \<le> n then ([], GaveUp)
      else let c = candidate_at env p n in
        if isBeyondEnd env p c then ([], Returned)
        else if (case limit p of None \<Rightarrow> False | Some l \<Rightarrow> l \<le> yielded) then ([], Returned)
        else if accepts env p n then (let (rest, how) = period_loop env p (Suc n) (Suc yielded) in (c # rest, how))
        else period_loop env p (Suc n) yielded)"
  by pat_completeness auto

termination
  by (relation "measure (\<lambda>(env, p, n, yielded). maxSteps (p_options p) - n)") auto

declare period_loop.simps [simp del]

definition iterate :: "'z platform \<Rightarrow> 'z Period \<Rightarrow> 'z DateTime list \<times> end_of_iteration" where
  "iterate env p = period_loop env p 0 0"

definition period_toArray :: "'z platform \<Rightarrow> 'z Period \<Rightarrow> interval_error + 'z DateTime list" where
  "period_toArray env p = (case iterate env p of (xs, Returned) \<Rightarrow> Inr xs | (_, GaveUp) \<Rightarrow> Inl InvalidIntervalError)"

definition period_count :: "'z platform \<Rightarrow> 'z Period \<Rightarrow> interval_error + nat" where
  "period_count env p = bindE (period_toArray env p) (\<lambda>xs. Inr (length xs))"

text \<open>The first element, before which the iterator is not run on.\<close>

definition period_first :: "'z platform \<Rightarrow> 'z Period \<Rightarrow> interval_error + 'z DateTime option" where
  "period_first env p =
     (case iterate env p of (x # _, _) \<Rightarrow> Inr (Some x) | ([], Returned) \<Rightarrow> Inr None | ([], GaveUp) \<Rightarrow> Inl InvalidIntervalError)"

definition period_last :: "'z platform \<Rightarrow> 'z Period \<Rightarrow> interval_error + 'z DateTime option" where
  "period_last env p = bindE (period_toArray env p) (\<lambda>xs. Inr (if xs = [] then None else Some (last xs)))"

primrec includes_in :: "bool \<Rightarrow> int \<Rightarrow> end_of_iteration \<Rightarrow> 'z DateTime list \<Rightarrow> interval_error + bool" where
  "includes_in forward target how [] = (if how = Returned then Inr False else Inl InvalidIntervalError)"
| "includes_in forward target how (x # xs) =
     (if epochMilliseconds x = target then Inr True
      else if (if forward then target < epochMilliseconds x else epochMilliseconds x < target) then Inr False
      else includes_in forward target how xs)"

definition period_includes :: "'z platform \<Rightarrow> 'z Period \<Rightarrow> 'z DateTime \<Rightarrow> interval_error + bool" where
  "period_includes env p t = (let (xs, how) = iterate env p in includes_in (movesForward env p) (epochMilliseconds t) how xs)"

section \<open>What a period yields\<close>

text \<open>The candidates before the first that is beyond the end, of those from \<open>n\<close> up to \<open>m\<close>.\<close>

definition up_to_end :: "'z platform \<Rightarrow> 'z Period \<Rightarrow> nat \<Rightarrow> nat \<Rightarrow> nat list" where
  "up_to_end env p n m = takeWhile (\<lambda>j. \<not> isBeyondEnd env p (candidate_at env p j)) [n..<m]"

definition kept :: "'z platform \<Rightarrow> 'z Period \<Rightarrow> nat \<Rightarrow> nat \<Rightarrow> nat list" where
  "kept env p n m = filter (accepts env p) (up_to_end env p n m)"

definition room :: "'z Period \<Rightarrow> nat \<Rightarrow> nat list \<Rightarrow> nat list" where
  "room p yielded js = (case limit p of None \<Rightarrow> js | Some l \<Rightarrow> take (l - yielded) js)"

lemma kept_step:
  "n < m \<Longrightarrow> kept env p n m =
     (if isBeyondEnd env p (candidate_at env p n) then []
      else if accepts env p n then n # kept env p (Suc n) m else kept env p (Suc n) m)"
  by (simp add: kept_def up_to_end_def upt_conv_Cons)

lemma period_loop_elements:
  "fst (period_loop env p n yielded) = map (candidate_at env p) (room p yielded (kept env p n (maxSteps (p_options p))))"
proof (induction env p n yielded rule: period_loop.induct)
  case (1 env p n yielded)
  show ?case
  proof (cases "n < maxSteps (p_options p)")
    case True
    then show ?thesis
      using 1 by (subst period_loop.simps)
        (auto simp: kept_step [OF True] room_def Let_def not_le Suc_diff_le take_Cons' split: option.splits prod.splits)
  qed (simp add: period_loop.simps kept_def up_to_end_def room_def split: option.split)
qed

text \<open>It returns when a candidate is beyond the end, or the count is reached before the last candidate allowed.\<close>

definition finishes :: "'z platform \<Rightarrow> 'z Period \<Rightarrow> nat \<Rightarrow> nat \<Rightarrow> bool" where
  "finishes env p n yielded \<longleftrightarrow>
     length (up_to_end env p n (maxSteps (p_options p))) < maxSteps (p_options p) - n \<or>
     n < maxSteps (p_options p) \<and> (case limit p of None \<Rightarrow> False | Some l \<Rightarrow> l \<le> yielded + length (kept env p n (maxSteps (p_options p) - 1)))"

lemma up_to_end_step: "n < m \<Longrightarrow> up_to_end env p n m =
    (if isBeyondEnd env p (candidate_at env p n) then [] else n # up_to_end env p (Suc n) m)"
  by (simp add: up_to_end_def upt_conv_Cons)

lemma period_loop_finishes:
  "snd (period_loop env p n yielded) = Returned \<longleftrightarrow> finishes env p n yielded"
proof (induction env p n yielded rule: period_loop.induct)
  case (1 env p n yielded)
  let ?m = "maxSteps (p_options p)"
  show ?case
  proof (cases "n < ?m")
    case True
    show ?thesis
    proof (cases "Suc n < ?m")
      case more: True
      then have "n < ?m - 1" by simp
      then show ?thesis
        using 1 True more by (subst period_loop.simps)
          (auto simp: finishes_def up_to_end_step [OF True] kept_step [OF \<open>n < ?m - 1\<close>, unfolded One_nat_def] Let_def not_le split: option.splits prod.splits)
    next
      case False
      then have m: "?m = Suc n" using True by simp
      then have "kept env p n n = []" "up_to_end env p (Suc n) (Suc n) = []" by (simp_all add: kept_def up_to_end_def)
      then show ?thesis
        by (subst period_loop.simps)
          (auto simp: finishes_def up_to_end_step [of n "Suc n"] m period_loop.simps [of env p "Suc n"] Let_def not_le split: option.splits prod.splits)
    qed
  qed (simp add: period_loop.simps finishes_def)
qed

lemma toArray_elements:
  "period_toArray env p =
     (if finishes env p 0 0 then Inr (map (candidate_at env p) (room p 0 (kept env p 0 (maxSteps (p_options p)))))
      else Inl InvalidIntervalError)"
  using period_loop_elements [of env p 0 0] period_loop_finishes [of env p 0 0]
  by (cases "period_loop env p 0 0"; cases "snd (period_loop env p 0 0)") (auto simp: period_toArray_def iterate_def)



end
